(* ===== verification/Prelude.thy ===== *)
theory Prelude
  imports Main "HOL-Library.Word"
begin

text \<open>
  Shared vocabulary of the development: machine types, faults, raw byte buffers,
  little-endian integers inside buffers, and the generic lemmas that the component
  theories use.

  \<^item> C++ behaviour that the standard leaves undefined, and calls that would block the only
    running thread, are values of \<open>fault\<close>; an operation returns \<open>fault + 'a\<close>
    (\<open>Inl\<close> the fault) and \<open>rbind\<close> sequences two operations.
  \<^item> A \<open>char\<close> array is a function from offsets to bytes (\<open>buf\<close>). Reads and writes at
    computed offsets are guarded in the model where the source's offset can leave the array.
  \<^item> Uninitialised local arrays have indeterminate contents: the model takes them from an
    oracle \<open>stk\<close> indexed by \<open>stack_var\<close>, and every theorem is for all oracles.
\<close>

unbundle bit_operations_syntax

named_theorems layout_simps "constants of the disk layout, unfolded"
named_theorems buf_simps "reads from updated buffers"

subsection \<open>Machine types\<close>

type_synonym byte = "8 word"
type_synonym u16 = "16 word"
type_synonym u32 = "32 word"
type_synonym u64 = "64 word"
type_synonym buf = "nat \<Rightarrow> byte"

subsection \<open>Faults and sequencing\<close>

datatype fault =
    Array_bounds    \<comment> \<open>an access outside an array\<close>
  | Null_deref      \<comment> \<open>a null pointer dereferenced\<close>
  | Signed_overflow \<comment> \<open>a signed counter leaving the range of \<open>int\<close>\<close>
  | Would_block     \<comment> \<open>a lock or condition that no other thread can release\<close>
  | Exit_called     \<comment> \<open>the process ends through \<open>exit\<close>\<close>
  | Length_error    \<comment> \<open>\<open>std::length_error\<close> thrown by a string\<close>
  | Dangling        \<comment> \<open>an object used or deleted that is not allocated\<close>
  | Not_locked      \<comment> \<open>a mutex unlocked that is not locked\<close>
  | Verify_failed   \<comment> \<open>a \<open>VERIFY\<close> that does not hold: the process aborts\<close>

definition rbind :: "fault + 'a \<Rightarrow> ('a \<Rightarrow> fault + 'b) \<Rightarrow> fault + 'b" where
  "rbind r f = (case r of Inl e \<Rightarrow> Inl e | Inr x \<Rightarrow> f x)"

lemma rbind_simps [simp]:
  "rbind (Inr x) f = f x"
  "rbind (Inl e) f = Inl e"
  by (simp_all add: rbind_def)

text \<open>\<open>VERIFY\<close> of \<open>rpc/lang/verify.h\<close>: the process aborts unless the expression holds.\<close>

definition VERIFY :: "bool \<Rightarrow> fault + unit" where
  "VERIFY expr = (if expr then Inr () else Inl Verify_failed)"

lemma VERIFY_simps [simp]: "VERIFY True = Inr ()" "VERIFY False = Inl Verify_failed"
  "VERIFY p = Inr u \<longleftrightarrow> p"
  by (simp_all add: VERIFY_def)

lemma rbind_Inr_iff: "rbind r f = Inr y \<longleftrightarrow> (\<exists>x. r = Inr x \<and> f x = Inr y)"
  by (cases r) simp_all

lemma rbind_InrE:
  assumes "rbind r f = Inr y"
  obtains x where "r = Inr x" and "f x = Inr y"
  using assms by (auto simp: rbind_Inr_iff)

lemma rbind_cong [fundef_cong]:
  "r = r' \<Longrightarrow> (\<And>x. r' = Inr x \<Longrightarrow> f x = g x) \<Longrightarrow> rbind r f = rbind r' g"
  by (cases r') simp_all

subsection \<open>Uninitialised locals\<close>

datatype stack_var =
    Scratch                \<comment> \<open>\<open>buf\<close> of \<open>get_inode\<close>, \<open>put_inode\<close>, \<open>alloc_block\<close>, \<open>free_block\<close>\<close>
  | Indirect_block         \<comment> \<open>\<open>indirect_block\<close> of \<open>read_file\<close>; \<open>indirect_buffer\<close> of \<open>remove_file\<close>\<close>
  | Full_direct_buffer nat \<comment> \<open>of \<open>read_file\<close>, by iteration\<close>
  | Full_indirect_buffer nat
  | Malloc_buf             \<comment> \<open>the block \<open>malloc\<close> returns in \<open>read_file\<close>\<close>
  | Direct_buffer nat      \<comment> \<open>of \<open>write_file\<close>, by iteration\<close>
  | Indirect_buffer nat
  | Temp_buffer nat
  | Indirect_block_at nat  \<comment> \<open>\<open>indirect_block\<close> inside the loop of \<open>write_file\<close>\<close>
  | Indirect_block_free    \<comment> \<open>\<open>indirect_block\<close> of the freeing loop of \<open>write_file\<close>\<close>
  | Final_indirect_block

type_synonym stack = "stack_var \<Rightarrow> buf"

subsection \<open>Buffers\<close>

definition memcpy :: "buf \<Rightarrow> nat \<Rightarrow> buf \<Rightarrow> nat \<Rightarrow> nat \<Rightarrow> buf" where
  "memcpy dst doff src soff n =
     (\<lambda>i. if doff \<le> i \<and> i < doff + n then src (soff + (i - doff)) else dst i)"

lemma memcpy_in [buf_simps]:
  "doff \<le> i \<Longrightarrow> i < doff + n \<Longrightarrow> memcpy dst doff src soff n i = src (soff + (i - doff))"
  by (simp add: memcpy_def)

lemma memcpy_out [buf_simps]:
  "i < doff \<or> doff + n \<le> i \<Longrightarrow> memcpy dst doff src soff n i = dst i"
  by (auto simp: memcpy_def)

lemma memcpy_0 [simp]: "memcpy dst doff src soff 0 = dst"
  by (rule ext) (auto simp: memcpy_def)

text \<open>Two buffers that agree on their first \<open>n\<close> bytes.\<close>

definition eq_upto :: "nat \<Rightarrow> buf \<Rightarrow> buf \<Rightarrow> bool" where
  "eq_upto n a b \<longleftrightarrow> (\<forall>i<n. a i = b i)"

lemma eq_uptoI: "(\<And>i. i < n \<Longrightarrow> a i = b i) \<Longrightarrow> eq_upto n a b"
  by (simp add: eq_upto_def)

lemma eq_uptoD: "eq_upto n a b \<Longrightarrow> i < n \<Longrightarrow> a i = b i"
  by (simp add: eq_upto_def)

lemma eq_upto_refl [simp]: "eq_upto n a a"
  by (simp add: eq_upto_def)

lemma eq_upto_trans: "eq_upto n a b \<Longrightarrow> eq_upto n b c \<Longrightarrow> eq_upto n a c"
  by (simp add: eq_upto_def)

lemma eq_upto_sym: "eq_upto n a b \<Longrightarrow> eq_upto n b a"
  by (simp add: eq_upto_def)

lemma eq_upto_memcpy [simp]: "eq_upto n (memcpy dst 0 src 0 n) src"
  by (simp add: eq_upto_def memcpy_def)

subsection \<open>Little-endian integers in a buffer\<close>

definition get32 :: "buf \<Rightarrow> nat \<Rightarrow> u32" where
  "get32 b p = (ucast (b p) OR push_bit 8 (ucast (b (p + 1)))) OR
               (push_bit 16 (ucast (b (p + 2))) OR push_bit 24 (ucast (b (p + 3))))"

definition put32 :: "buf \<Rightarrow> nat \<Rightarrow> u32 \<Rightarrow> buf" where
  "put32 b p w = b(p := ucast w, p + 1 := ucast (drop_bit 8 w),
                   p + 2 := ucast (drop_bit 16 w), p + 3 := ucast (drop_bit 24 w))"

definition get16 :: "buf \<Rightarrow> nat \<Rightarrow> u16" where
  "get16 b p = ucast (b p) OR push_bit 8 (ucast (b (p + 1)))"

definition put16 :: "buf \<Rightarrow> nat \<Rightarrow> u16 \<Rightarrow> buf" where
  "put16 b p w = b(p := ucast w, p + 1 := ucast (drop_bit 8 w))"

lemma join_bytes32:
  "(ucast (ucast w :: byte) OR push_bit 8 (ucast (ucast (drop_bit 8 w) :: byte))) OR
   (push_bit 16 (ucast (ucast (drop_bit 16 w) :: byte)) OR
    push_bit 24 (ucast (ucast (drop_bit 24 w) :: byte))) = (w :: u32)"
proof (rule bit_word_eqI)
  fix n assume "n < LENGTH(32)"
  then have "n < 8 \<or> 8 \<le> n \<and> n < 16 \<or> 16 \<le> n \<and> n < 24 \<or> 24 \<le> n \<and> n < 32"
    by auto
  then show "bit ((ucast (ucast w :: byte) OR push_bit 8 (ucast (ucast (drop_bit 8 w) :: byte))) OR
     (push_bit 16 (ucast (ucast (drop_bit 16 w) :: byte)) OR
      push_bit 24 (ucast (ucast (drop_bit 24 w) :: byte))) :: u32) n = bit w n"
    by (elim disjE) (auto simp: bit_simps)
qed

lemma join_bytes16:
  "ucast (ucast w :: byte) OR push_bit 8 (ucast (ucast (drop_bit 8 w) :: byte)) = (w :: u16)"
  by (rule bit_word_eqI) (auto simp: bit_simps)

lemma get32_put32_same [simp]: "get32 (put32 b p w) p = w"
  using join_bytes32 [of w] by (simp add: get32_def put32_def)

lemma get16_put16_same [simp]: "get16 (put16 b p w) p = w"
  using join_bytes16 [of w] by (simp add: get16_def put16_def)

lemma get32_put32_other [buf_simps]:
  "p + 4 \<le> q \<or> q + 4 \<le> p \<Longrightarrow> get32 (put32 b p w) q = get32 b q"
  by (auto simp: get32_def put32_def)

lemma get16_put32_other [buf_simps]:
  "p + 4 \<le> q \<or> q + 2 \<le> p \<Longrightarrow> get16 (put32 b p w) q = get16 b q"
  by (auto simp: get16_def put32_def)

lemma get32_put16_other [buf_simps]:
  "p + 2 \<le> q \<or> q + 4 \<le> p \<Longrightarrow> get32 (put16 b p w) q = get32 b q"
  by (auto simp: get32_def put16_def)

lemma get16_put16_other [buf_simps]:
  "p + 2 \<le> q \<or> q + 2 \<le> p \<Longrightarrow> get16 (put16 b p w) q = get16 b q"
  by (auto simp: get16_def put16_def)

lemma get32_cong: "(\<And>i. p \<le> i \<Longrightarrow> i < p + 4 \<Longrightarrow> a i = b i) \<Longrightarrow> get32 a p = get32 b p"
  by (simp add: get32_def)

lemma get16_cong: "(\<And>i. p \<le> i \<Longrightarrow> i < p + 2 \<Longrightarrow> a i = b i) \<Longrightarrow> get16 a p = get16 b p"
  by (simp add: get16_def)

lemma put32_out [buf_simps]: "i < p \<or> p + 4 \<le> i \<Longrightarrow> put32 b p w i = b i"
  by (auto simp: put32_def)

lemma put16_out [buf_simps]: "i < p \<or> p + 2 \<le> i \<Longrightarrow> put16 b p w i = b i"
  by (auto simp: put16_def)

lemma get32_zero [simp]: "get32 (\<lambda>_. 0) p = 0"
  by (simp add: get32_def)

lemma get16_zero [simp]: "get16 (\<lambda>_. 0) p = 0"
  by (simp add: get16_def)

subsection \<open>Words as numbers\<close>

lemma unat_of_nat32 [simp]: "n < 2 ^ 32 \<Longrightarrow> unat (word_of_nat n :: u32) = n"
  by (simp add: unat_of_nat take_bit_nat_eq_self)

lemma sint_small:
  assumes "unat (w :: u32) < 2 ^ 31"
  shows "sint w = int (unat w)"
proof -
  have eq: "uint w = int (unat w)" by simp
  have "int n < 2 ^ 31" if "n < 2 ^ 31" for n using that by simp
  from this [OF assms] have "uint w < 2 ^ 31" by (simp only: eq)
  then have "signed_take_bit 31 (uint w) = uint w"
    by (intro signed_take_bit_int_eq_self) (auto intro: order_trans [OF _ uint_ge_0])
  then show ?thesis by (simp add: sint_uint)
qed

lemma ucast_scast16: "ucast (scast (a :: u16) :: u32) = a"
  by (rule bit_word_eqI) (simp add: bit_ucast_iff bit_signed_iff)

lemma scast16_inject: "(scast (a :: u16) :: u32) = scast b \<longleftrightarrow> a = b"
  by (metis ucast_scast16)

text \<open>The values of a function inside a set, when only an initial segment has values there.\<close>

lemma image_restrict:
  fixes m n :: nat
  assumes "\<And>j. j < m \<Longrightarrow> f j \<in> D" and "\<And>j. j < n \<Longrightarrow> \<not> j < m \<Longrightarrow> f j \<notin> D" and "m \<le> n"
  shows "f ` {..<n} \<inter> D = f ` {..<m}"
proof
  show "f ` {..<n} \<inter> D \<subseteq> f ` {..<m}" using assms(2) by auto
  show "f ` {..<m} \<subseteq> f ` {..<n} \<inter> D" using assms(1,3) by (auto intro!: imageI)
qed

end
