(* ===== verification/Disk.thy ===== *)
theory Disk
  imports Prelude
begin

text \<open>
  The disk layer of \<open>inode_layer.h\<close>/\<open>inode_layer.cc\<close>: the layout macros, the array of
  blocks and the two operations on it. The contract that the block layer and the inode
  layer rely on is the locale \<open>block_device\<close>, interpreted on the disk here and on the
  pass-through operations of the block layer in \<open>Block_Layer\<close>.
\<close>

subsection \<open>Layout macros\<close>

definition DISK_SIZE :: nat where
  [layout_simps, simp]: "DISK_SIZE = 1024 * 1024 * 16"

definition BLOCK_SIZE :: nat where
  [layout_simps, simp]: "BLOCK_SIZE = 512"

definition BLOCK_NUM :: nat where
  [layout_simps]: "BLOCK_NUM = DISK_SIZE div BLOCK_SIZE"

definition BPB :: nat where
  [layout_simps]: "BPB = BLOCK_SIZE * 8"

definition BBLOCK :: "nat \<Rightarrow> nat" where
  [layout_simps]: "BBLOCK b = b div BPB + 1"

definition INODE_NUM :: nat where
  [layout_simps, simp]: "INODE_NUM = 1024"

definition NDIRECT :: nat where
  [layout_simps, simp]: "NDIRECT = 8"

definition NINDIRECT :: nat where
  [layout_simps]: "NINDIRECT = BLOCK_SIZE div 4"

definition MAXFILE :: nat where
  [layout_simps]: "MAXFILE = NDIRECT + NINDIRECT"

text \<open>
  \<open>struct inode\<close>: a \<open>short\<close>, two bytes of padding, four \<open>unsigned int\<close>s and
  \<open>NDIRECT + 1\<close> block ids of four bytes each.
\<close>

definition sizeof_inode :: nat where
  [layout_simps]: "sizeof_inode = 2 + 2 + 4 * 4 + 4 * (NDIRECT + 1)"

definition IPB :: nat where
  [layout_simps]: "IPB = BLOCK_SIZE div sizeof_inode"

definition IBLOCK :: "nat \<Rightarrow> nat \<Rightarrow> nat" where
  [layout_simps]: "IBLOCK i nblocks = nblocks div BPB + i div IPB + 1"

lemma layout_values [simp]:
  "BLOCK_NUM = 32768" "BPB = 4096" "NINDIRECT = 128" "MAXFILE = 136"
  "sizeof_inode = 56" "IPB = 9"
  by (simp_all add: layout_simps)

lemma BBLOCK_eq: "BBLOCK b = b div 4096 + 1"
  by (simp add: BBLOCK_def)

lemma IBLOCK_eq [simp]: "IBLOCK i BLOCK_NUM = 9 + i div 9" "IBLOCK i 32768 = 9 + i div 9"
  by (simp_all add: IBLOCK_def)

subsection \<open>The disk\<close>

record disk =
  blocks :: "nat \<Rightarrow> buf"

definition new_disk :: disk where
  "new_disk = \<lparr>blocks = (\<lambda>_ _. 0)\<rparr>"

text \<open>
  A \<open>char *\<close> argument is \<open>buf option\<close>, \<open>None\<close> for \<open>NULL\<close>. The guard is
  \<open>id > BLOCK_NUM\<close>, so the id \<open>BLOCK_NUM\<close> itself reaches \<open>blocks[BLOCK_NUM]\<close>, one
  past the end of the array.
\<close>

definition disk_read_block :: "disk \<Rightarrow> u32 \<Rightarrow> buf option \<Rightarrow> fault + buf option" where
  "disk_read_block d bid bp =
     (case bp of
        None \<Rightarrow> Inr None
      | Some buf \<Rightarrow>
          if unat bid > BLOCK_NUM then Inr (Some buf)
          else if unat bid = BLOCK_NUM then Inl Array_bounds
          else Inr (Some (memcpy buf 0 (blocks d (unat bid)) 0 BLOCK_SIZE)))"

definition disk_write_block :: "disk \<Rightarrow> u32 \<Rightarrow> buf option \<Rightarrow> fault + disk" where
  "disk_write_block d bid bp =
     (case bp of
        None \<Rightarrow> Inr d
      | Some buf \<Rightarrow>
          if unat bid > BLOCK_NUM then Inr d
          else if unat bid = BLOCK_NUM then Inl Array_bounds
          else Inr (d\<lparr>blocks := (blocks d)
                 (unat bid := memcpy (blocks d (unat bid)) 0 buf 0 BLOCK_SIZE)\<rparr>))"

text \<open>A read into a local array: the array after the call.\<close>

definition disk_read_array :: "disk \<Rightarrow> u32 \<Rightarrow> buf \<Rightarrow> fault + buf" where
  "disk_read_array d bid buf =
     rbind (disk_read_block d bid (Some buf)) (\<lambda>r. Inr (case r of None \<Rightarrow> buf | Some b \<Rightarrow> b))"

lemma disk_read_array_simps:
  "unat bid < 32768 \<Longrightarrow>
     disk_read_array d bid buf = Inr (memcpy buf 0 (blocks d (unat bid)) 0 512)"
  "unat bid > 32768 \<Longrightarrow> disk_read_array d bid buf = Inr buf"
  "unat bid = 32768 \<Longrightarrow> disk_read_array d bid buf = Inl Array_bounds"
  by (simp_all add: disk_read_array_def disk_read_block_def)

lemma disk_write_block_simps:
  "unat bid < 32768 \<Longrightarrow> disk_write_block d bid (Some buf) =
     Inr (d\<lparr>blocks := (blocks d)(unat bid := memcpy (blocks d (unat bid)) 0 buf 0 512)\<rparr>)"
  "unat bid > 32768 \<Longrightarrow> disk_write_block d bid (Some buf) = Inr d"
  "unat bid = 32768 \<Longrightarrow> disk_write_block d bid (Some buf) = Inl Array_bounds"
  by (simp_all add: disk_write_block_def)

subsection \<open>The block-device contract\<close>

locale block_device =
  fixes rd :: "'s \<Rightarrow> u32 \<Rightarrow> buf \<Rightarrow> fault + buf"
    and wr :: "'s \<Rightarrow> u32 \<Rightarrow> buf \<Rightarrow> fault + 's"
    and contents :: "'s \<Rightarrow> nat \<Rightarrow> buf"
  assumes rd_ok: "unat bid < BLOCK_NUM \<Longrightarrow>
      \<exists>b. rd s bid junk = Inr b \<and> eq_upto BLOCK_SIZE b (contents s (unat bid))"
    and wr_ok: "unat bid < BLOCK_NUM \<Longrightarrow>
      \<exists>s'. wr s bid b = Inr s' \<and> eq_upto BLOCK_SIZE (contents s' (unat bid)) b \<and>
           (\<forall>j. j \<noteq> unat bid \<longrightarrow> contents s' j = contents s j)"
    and rd_ignored: "unat bid > BLOCK_NUM \<Longrightarrow> rd s bid junk = Inr junk"
    and wr_ignored: "unat bid > BLOCK_NUM \<Longrightarrow> wr s bid b = Inr s"
    and rd_past_end: "unat bid = BLOCK_NUM \<Longrightarrow> rd s bid junk = Inl Array_bounds"
    and wr_past_end: "unat bid = BLOCK_NUM \<Longrightarrow> wr s bid b = Inl Array_bounds"
begin

lemma read_after_write:
  assumes "unat bid < BLOCK_NUM"
  obtains s' b' where "wr s bid b = Inr s'" and "rd s' bid junk = Inr b'"
    and "eq_upto BLOCK_SIZE b' b"
    and "\<And>j. j \<noteq> unat bid \<Longrightarrow> contents s' j = contents s j"
proof -
  obtain s' where w: "wr s bid b = Inr s'"
    "eq_upto BLOCK_SIZE (contents s' (unat bid)) b"
    "\<forall>j. j \<noteq> unat bid \<longrightarrow> contents s' j = contents s j"
    using wr_ok [OF assms] by blast
  obtain b' where "rd s' bid junk = Inr b'" "eq_upto BLOCK_SIZE b' (contents s' (unat bid))"
    using rd_ok [OF assms] by blast
  with w that show thesis by (blast intro: eq_upto_trans)
qed

lemma write_other:
  assumes "wr s bid b = Inr s'" and "unat bid \<noteq> j"
  shows "contents s' j = contents s j"
proof -
  consider "unat bid < BLOCK_NUM" | "unat bid = BLOCK_NUM" | "unat bid > BLOCK_NUM"
    by linarith
  then show ?thesis
    using assms wr_ok [of bid s b] wr_past_end [of bid s b] wr_ignored [of bid s b]
    by cases auto
qed

text \<open>Read, modify, write: how the bitmap and the inode table are updated.\<close>

lemma read_modify_write:
  assumes "unat bid < BLOCK_NUM"
  obtains b s' where "rbind (rd s bid junk) (\<lambda>b. wr s bid (f b)) = Inr s'"
    and "eq_upto BLOCK_SIZE b (contents s (unat bid))"
    and "eq_upto BLOCK_SIZE (contents s' (unat bid)) (f b)"
    and "\<And>j. j \<noteq> unat bid \<Longrightarrow> contents s' j = contents s j"
proof -
  obtain b where r: "rd s bid junk = Inr b" "eq_upto BLOCK_SIZE b (contents s (unat bid))"
    using rd_ok [OF assms] by blast
  obtain s' where w: "wr s bid (f b) = Inr s'"
    "eq_upto BLOCK_SIZE (contents s' (unat bid)) (f b)"
    "\<forall>j. j \<noteq> unat bid \<longrightarrow> contents s' j = contents s j"
    using wr_ok [OF assms] by blast
  from r(1) w(1) have "rbind (rd s bid junk) (\<lambda>b. wr s bid (f b)) = Inr s'" by simp
  from that [OF this r(2) w(2)] w(3) show thesis by blast
qed

end

interpretation dk: block_device disk_read_array "\<lambda>d bid b. disk_write_block d bid (Some b)" blocks
  by unfold_locales (auto simp: disk_read_array_simps disk_write_block_simps eq_upto_def memcpy_def)

subsection \<open>Properties\<close>

text \<open>
  A block written to the disk reads back byte for byte, and no other block changes.
\<close>

theorem disk_read_after_write:
  assumes "unat bid < BLOCK_NUM"
  shows "\<exists>d' b'. disk_write_block d bid (Some b) = Inr d' \<and>
           disk_read_array d' bid junk = Inr b' \<and> eq_upto BLOCK_SIZE b' b \<and>
           (\<forall>j. j \<noteq> unat bid \<longrightarrow> blocks d' j = blocks d j)"
  using dk.read_after_write [OF assms, of d b junk] by metis

theorem disk_read_after_write_witness:
  "\<exists>d' b'. disk_write_block new_disk 200 (Some (\<lambda>_. 7)) = Inr d' \<and>
     disk_read_array d' 200 (\<lambda>_. 0) = Inr b' \<and> b' 511 = 7 \<and> blocks d' 201 511 = 0"
proof -
  have "unat (200 :: u32) < BLOCK_NUM" by simp
  from disk_read_after_write [OF this, of new_disk "\<lambda>_. 7" "\<lambda>_. 0"] show ?thesis
    by (auto simp: eq_upto_def new_disk_def)
qed

text \<open>
  The guard of the disk lets exactly one bad id through: ids above 32768 are ignored, the
  id 32768 itself is an access one block past the end of the array, for reads and writes.
\<close>

theorem disk_id_bounds:
  "(disk_read_block d bid (Some b) = Inl Array_bounds \<longleftrightarrow> unat bid = BLOCK_NUM) \<and>
   (disk_write_block d bid (Some b) = Inl Array_bounds \<longleftrightarrow> unat bid = BLOCK_NUM) \<and>
   (disk_write_block d bid (Some b) = Inr d \<longleftrightarrow>
     unat bid > BLOCK_NUM \<or> unat bid < BLOCK_NUM \<and> eq_upto BLOCK_SIZE (blocks d (unat bid)) b)"
proof (intro conjI)
  show "disk_read_block d bid (Some b) = Inl Array_bounds \<longleftrightarrow> unat bid = BLOCK_NUM"
    "disk_write_block d bid (Some b) = Inl Array_bounds \<longleftrightarrow> unat bid = BLOCK_NUM"
    by (simp_all add: disk_read_block_def disk_write_block_def)
  show "disk_write_block d bid (Some b) = Inr d \<longleftrightarrow>
     unat bid > BLOCK_NUM \<or> unat bid < BLOCK_NUM \<and> eq_upto BLOCK_SIZE (blocks d (unat bid)) b"
    by (cases d) (auto simp: disk_write_block_def fun_upd_idem_iff memcpy_def eq_upto_def fun_eq_iff)
qed

end
