(* ===== verification/Block_Layer.thy ===== *)
theory Block_Layer
  imports Disk
begin

text \<open>
  The block layer of \<open>inode_layer.cc\<close>: the superblock, the free-block bitmap in blocks
  1 to 8, \<open>alloc_block\<close>, \<open>free_block\<close> and the pass-through block reads and writes.
  \<open>free_set\<close> abstracts the bitmap to the set of free data blocks. The contract the inode
  layer relies on is the locale \<open>block_store\<close>, which extends \<open>block_device\<close>.
\<close>

subsection \<open>State\<close>

record superblock =
  sb_size :: u32
  sb_nblocks :: u32
  sb_ninodes :: u32

record block_layer =
  bl_d :: disk
  bl_bitmap_mutex :: bool \<comment> \<open>held or not\<close>
  bl_sb :: superblock

text \<open>
  The constructor never initialises \<open>bitmap_mutex\<close>: its first state \<open>m0\<close> is whatever the
  fresh memory holds.
\<close>

definition new_block_layer :: "bool \<Rightarrow> block_layer" where
  "new_block_layer m0 =
     \<lparr>bl_d = new_disk, bl_bitmap_mutex = m0,
      bl_sb = \<lparr>sb_size = word_of_nat (BLOCK_SIZE * BLOCK_NUM),
               sb_nblocks = word_of_nat BLOCK_NUM, sb_ninodes = word_of_nat INODE_NUM\<rparr>\<rparr>"

definition bitmap_lock :: "block_layer \<Rightarrow> fault + block_layer" where
  "bitmap_lock bl =
     (if bl_bitmap_mutex bl then Inl Would_block else Inr (bl\<lparr>bl_bitmap_mutex := True\<rparr>))"

definition bitmap_unlock :: "block_layer \<Rightarrow> block_layer" where
  "bitmap_unlock bl = bl\<lparr>bl_bitmap_mutex := False\<rparr>"

subsection \<open>Operations\<close>

definition bit_offset_in_block :: "nat \<Rightarrow> nat" where
  "bit_offset_in_block b = b mod BPB"

definition byte_offset_in_block :: "nat \<Rightarrow> nat" where
  "byte_offset_in_block b = bit_offset_in_block b div 8"

definition bit_offset_in_byte :: "nat \<Rightarrow> nat" where
  "bit_offset_in_byte b = bit_offset_in_block b mod 8"

definition first_data_block :: "block_layer \<Rightarrow> nat" where
  "first_data_block bl = IBLOCK 1023 (unat (sb_nblocks (bl_sb bl))) + 1"

function alloc_block_loop :: "buf \<Rightarrow> disk \<Rightarrow> nat \<Rightarrow> fault + (u32 \<times> disk)" where
  "alloc_block_loop junk d b =
     (if b < BLOCK_NUM then
        rbind (disk_read_array d (word_of_nat (BBLOCK b)) junk) (\<lambda>buf.
          let p = byte_offset_in_block b; m = push_bit (bit_offset_in_byte b) (1 :: byte)
          in if buf p AND m \<noteq> 0 then alloc_block_loop junk d (b + 1)
             else rbind (disk_write_block d (word_of_nat (BBLOCK b))
                          (Some (buf(p := buf p XOR m))))
                    (\<lambda>d'. Inr (word_of_nat b, d')))
      else Inr (- 1, d))"
  by pat_completeness auto
termination
  by (relation "measure (\<lambda>(j, d, b). BLOCK_NUM - b)") auto

declare alloc_block_loop.simps [simp del]

definition alloc_block :: "buf \<Rightarrow> block_layer \<Rightarrow> fault + (u32 \<times> block_layer)" where
  "alloc_block junk bl =
     rbind (bitmap_lock bl) (\<lambda>bl.
       rbind (alloc_block_loop junk (bl_d bl) (first_data_block bl)) (\<lambda>(b, d).
         Inr (b, bitmap_unlock (bl\<lparr>bl_d := d\<rparr>))))"

definition free_block :: "buf \<Rightarrow> block_layer \<Rightarrow> u32 \<Rightarrow> fault + block_layer" where
  "free_block junk bl b =
     rbind (bitmap_lock bl) (\<lambda>bl.
       rbind (disk_read_array (bl_d bl) (word_of_nat (BBLOCK (unat b))) junk) (\<lambda>buf.
         let p = byte_offset_in_block (unat b);
             m = push_bit (bit_offset_in_byte (unat b)) (1 :: byte)
         in rbind (disk_write_block (bl_d bl) (word_of_nat (BBLOCK (unat b)))
                    (Some (buf(p := buf p AND NOT m))))
              (\<lambda>d. Inr (bitmap_unlock (bl\<lparr>bl_d := d\<rparr>)))))"

definition bl_read_block :: "block_layer \<Rightarrow> u32 \<Rightarrow> buf \<Rightarrow> fault + buf" where
  "bl_read_block bl b buf = disk_read_array (bl_d bl) b buf"

definition bl_write_block :: "block_layer \<Rightarrow> u32 \<Rightarrow> buf \<Rightarrow> fault + block_layer" where
  "bl_write_block bl b buf =
     rbind (disk_write_block (bl_d bl) b (Some buf)) (\<lambda>d. Inr (bl\<lparr>bl_d := d\<rparr>))"

subsection \<open>The bitmap as a set\<close>

definition used :: "disk \<Rightarrow> nat \<Rightarrow> bool" where
  "used d b \<longleftrightarrow> bit (blocks d (BBLOCK b) (byte_offset_in_block b)) (bit_offset_in_byte b)"

definition data_blocks :: "nat set" where
  "data_blocks = {123..<32768}"

definition bitmap_blocks :: "nat set" where
  "bitmap_blocks = {1..8}"

definition free_set :: "block_layer \<Rightarrow> nat set" where
  "free_set bl = {b \<in> data_blocks. \<not> used (bl_d bl) b}"

definition contents :: "block_layer \<Rightarrow> nat \<Rightarrow> buf" where
  "contents bl = blocks (bl_d bl)"

text \<open>Between two operations the mutex is free and the superblock is the formatted one.\<close>

definition bl_ok :: "block_layer \<Rightarrow> bool" where
  "bl_ok bl \<longleftrightarrow> \<not> bl_bitmap_mutex bl \<and> sb_nblocks (bl_sb bl) = word_of_nat BLOCK_NUM"

lemma finite_data_blocks [simp]: "finite data_blocks"
  by (simp add: data_blocks_def)

lemma free_set_data: "free_set bl \<subseteq> data_blocks"
  by (auto simp: free_set_def)

lemma finite_free_set [simp]: "finite (free_set bl)"
  by (rule finite_subset [OF free_set_data]) simp

lemma data_not_bitmap: "b \<in> data_blocks \<Longrightarrow> b \<notin> bitmap_blocks"
  by (simp add: data_blocks_def bitmap_blocks_def)

lemma offsets_bound [simp]:
  "byte_offset_in_block b < 512" "bit_offset_in_byte b < 8"
proof -
  have "b mod 4096 < 4096" by simp
  then show "byte_offset_in_block b < 512"
    by (simp add: byte_offset_in_block_def bit_offset_in_block_def div_less_iff_less_mult)
  show "bit_offset_in_byte b < 8" by (simp add: bit_offset_in_byte_def)
qed

text \<open>Different blocks have different bits.\<close>

lemma bit_position_inj:
  assumes "BBLOCK a = BBLOCK b" and "byte_offset_in_block a = byte_offset_in_block b"
    and "bit_offset_in_byte a = bit_offset_in_byte b"
  shows "a = b"
proof -
  have "a mod 4096 = b mod 4096"
    using assms(2,3) unfolding byte_offset_in_block_def bit_offset_in_byte_def
    by (metis bit_offset_in_block_def div_mult_mod_eq layout_values(2))
  moreover have "a div 4096 = b div 4096" using assms(1) by (simp add: BBLOCK_eq)
  ultimately show ?thesis by (metis div_mult_mod_eq)
qed

lemma and_mask_iff: "n < 8 \<Longrightarrow> ((x :: byte) AND push_bit n 1 \<noteq> 0) = bit x n"
    "n < 8 \<Longrightarrow> ((x :: byte) AND 2 ^ n \<noteq> 0) = bit x n"
  by (simp_all add: and_exp_eq_0_iff_not_bit)

lemma bit_set_mask: "n < 8 \<Longrightarrow> \<not> bit x n \<Longrightarrow> 
    bit ((x :: byte) XOR push_bit n 1) k = (if k = n then True else bit x k)"
  by (auto simp: bit_simps)

lemma bit_clear_mask: "n < 8 \<Longrightarrow> 
    bit ((x :: byte) AND NOT (push_bit n 1)) k = (if k = n then False else bit x k)"
  by (auto simp: bit_simps dest: bit_imp_le_length)

subsection \<open>Updating one bit\<close>

lemma unat_BBLOCK: "b < 2 ^ 32 \<Longrightarrow> unat (word_of_nat (BBLOCK b) :: u32) = BBLOCK b"
  by (intro unat_of_nat32) (simp add: BBLOCK_eq div_less_iff_less_mult)

lemma BBLOCK_bitmap: "b < 32768 \<Longrightarrow> BBLOCK b \<in> bitmap_blocks"
  by (simp add: BBLOCK_eq bitmap_blocks_def div_less_iff_less_mult flip: less_Suc_eq_le)

lemma used_update:
  assumes "\<And>j. j \<noteq> BBLOCK b \<Longrightarrow> blocks d' j = blocks d j"
    and "\<And>i. i < 512 \<Longrightarrow> i \<noteq> byte_offset_in_block b \<Longrightarrow>
               blocks d' (BBLOCK b) i = blocks d (BBLOCK b) i"
    and "\<And>k. bit (blocks d' (BBLOCK b) (byte_offset_in_block b)) k =
               (if k = bit_offset_in_byte b then v
                else bit (blocks d (BBLOCK b) (byte_offset_in_block b)) k)"
  shows "used d' c = (if c = b then v else used d c)"
proof (cases "BBLOCK c = BBLOCK b \<and> byte_offset_in_block c = byte_offset_in_block b")
  case True
  then have "bit_offset_in_byte c = bit_offset_in_byte b \<longleftrightarrow> c = b"
    using bit_position_inj by blast
  with True assms(3) show ?thesis by (simp add: used_def)
next
  case False
  then have "blocks d' (BBLOCK c) (byte_offset_in_block c) =
             blocks d (BBLOCK c) (byte_offset_in_block c)"
    using assms(1,2) offsets_bound(1) by metis
  moreover from False have "c \<noteq> b" by blast
  ultimately show ?thesis by (simp add: used_def)
qed

lemma bitmap_rmw:
  fixes junk :: buf
  assumes "b < 2 ^ 32" and "BBLOCK b < 32768"
    and g: "\<And>k. bit (g (blocks d (BBLOCK b) (byte_offset_in_block b))) k =
               (if k = bit_offset_in_byte b then v
                else bit (blocks d (BBLOCK b) (byte_offset_in_block b)) k)"
  shows "\<exists>d'. rbind (disk_read_array d (word_of_nat (BBLOCK b)) junk)
             (\<lambda>buf. disk_write_block d (word_of_nat (BBLOCK b))
                (Some (buf(byte_offset_in_block b := g (buf (byte_offset_in_block b)))))) = Inr d' \<and>
           (\<forall>c. used d' c = (if c = b then v else used d c)) \<and>
           (\<forall>j. j \<noteq> BBLOCK b \<longrightarrow> blocks d' j = blocks d j)"
proof -
  let ?p = "byte_offset_in_block b" and ?id = "word_of_nat (BBLOCK b) :: u32"
  have id: "unat ?id = BBLOCK b" using assms(1) by (rule unat_BBLOCK)
  from assms(2) have lt: "BBLOCK b < BLOCK_NUM" by simp
  obtain buf d' where
      run: "rbind (disk_read_array d ?id junk)
              (\<lambda>buf. disk_write_block d ?id (Some (buf(?p := g (buf ?p))))) = Inr d'"
    and rd: "eq_upto 512 buf (blocks d (BBLOCK b))"
    and wr: "eq_upto 512 (blocks d' (BBLOCK b)) (buf(?p := g (buf ?p)))"
    and frame: "\<And>j. j \<noteq> BBLOCK b \<Longrightarrow> blocks d' j = blocks d j"
    by (rule dk.read_modify_write [of ?id d junk "\<lambda>buf. buf(?p := g (buf ?p))",
          unfolded id BLOCK_SIZE_def, OF lt]) (rule that)
  have "used d' c = (if c = b then v else used d c)" for c
  proof (rule used_update)
    show "bit (blocks d' (BBLOCK b) ?p) k =
            (if k = bit_offset_in_byte b then v else bit (blocks d (BBLOCK b) ?p) k)" for k
      using g [of k] eq_uptoD [OF wr, of ?p] eq_uptoD [OF rd, of ?p] by simp
    show "blocks d' (BBLOCK b) i = blocks d (BBLOCK b) i" if "i < 512" "i \<noteq> ?p" for i
      using that eq_uptoD [OF wr, of i] eq_uptoD [OF rd, of i] by simp
  qed (use frame in auto)
  with run frame show ?thesis by blast
qed

subsection \<open>Allocation and release on the bitmap\<close>

lemma read_bitmap_byte:
  assumes "b < 32768"
  shows "\<exists>buf. disk_read_array d (word_of_nat (BBLOCK b)) junk = Inr buf \<and>
           buf (byte_offset_in_block b) = blocks d (BBLOCK b) (byte_offset_in_block b)"
proof -
  have "unat (word_of_nat (BBLOCK b) :: u32) = BBLOCK b"
    using assms by (intro unat_BBLOCK) simp
  moreover have "BBLOCK b < 32768" using BBLOCK_bitmap [OF assms] by (simp add: bitmap_blocks_def)
  ultimately show ?thesis
    using offsets_bound(1) [of b] by (simp add: disk_read_array_simps memcpy_def)
qed

lemma alloc_block_loop_found:
  assumes "b \<le> m" and "m < 32768" and "\<not> used d m" and "\<And>c. b \<le> c \<Longrightarrow> c < m \<Longrightarrow> used d c"
  shows "\<exists>d'. alloc_block_loop junk d b = Inr (word_of_nat m, d') \<and>
           (\<forall>c. used d' c = (c = m \<or> used d c)) \<and>
           (\<forall>j. j \<notin> bitmap_blocks \<longrightarrow> blocks d' j = blocks d j)"
  using assms
proof (induction junk d b rule: alloc_block_loop.induct)
  case (1 junk d b)
  let ?p = "byte_offset_in_block b" and ?m = "push_bit (bit_offset_in_byte b) (1 :: byte)"
  have lt: "b < 32768" using "1.prems" by simp
  obtain buf where rd: "disk_read_array d (word_of_nat (BBLOCK b)) junk = Inr buf"
    and byte: "buf ?p = blocks d (BBLOCK b) ?p"
    using read_bitmap_byte [OF lt] by blast
  have test: "(buf ?p AND ?m \<noteq> 0) = used d b"
    by (simp add: and_mask_iff byte used_def)
  show ?case
  proof (cases "b = m")
    case True
    then have unused: "\<not> used d b" using "1.prems" by simp
    then have nb: "\<not> bit (blocks d (BBLOCK b) ?p) (bit_offset_in_byte b)"
      by (simp add: used_def)
    have bb: "b < 2 ^ 32" "BBLOCK b < 32768" "BBLOCK b \<in> bitmap_blocks"
      using lt BBLOCK_bitmap [OF lt] by (auto simp: bitmap_blocks_def)
    obtain d' where run: "disk_write_block d (word_of_nat (BBLOCK b))
        (Some (buf(?p := buf ?p XOR ?m))) = Inr d'"
      and u: "\<forall>c. used d' c = (if c = b then True else used d c)"
      and frame: "\<forall>j. j \<noteq> BBLOCK b \<longrightarrow> blocks d' j = blocks d j"
      using bitmap_rmw [where g = "\<lambda>x. x XOR ?m", OF bb(1,2) bit_set_mask [OF offsets_bound(2) nb], of junk]
        rd by auto
    have "alloc_block_loop junk d b = Inr (word_of_nat b, d')"
      using lt unused test rd run by (subst alloc_block_loop.simps) (simp add: Let_def)
    moreover have "\<forall>j. j \<notin> bitmap_blocks \<longrightarrow> blocks d' j = blocks d j"
      using frame bb(3) by metis
    ultimately show ?thesis using True u by auto
  next
    case False
    with "1.prems" have "used d b" by simp
    then have "alloc_block_loop junk d b = alloc_block_loop junk d (b + 1)"
      using lt test rd by (subst alloc_block_loop.simps) (simp add: Let_def)
    moreover from \<open>used d b\<close> test have "buf ?p AND ?m \<noteq> 0" by simp
    ultimately show ?thesis
      using "1.IH" [OF _ rd refl refl] "1.prems" False lt by simp
  qed
qed

lemma alloc_block_loop_full:
  assumes "\<And>c. b \<le> c \<Longrightarrow> c < 32768 \<Longrightarrow> used d c"
  shows "alloc_block_loop junk d b = Inr (- 1, d)"
  using assms
proof (induction junk d b rule: alloc_block_loop.induct)
  case (1 junk d b)
  show ?case
  proof (cases "b < 32768")
    case True
    obtain buf where rd: "disk_read_array d (word_of_nat (BBLOCK b)) junk = Inr buf"
      and byte: "buf (byte_offset_in_block b) = blocks d (BBLOCK b) (byte_offset_in_block b)"
      using read_bitmap_byte [OF True] by blast
    have test: "buf (byte_offset_in_block b) AND push_bit (bit_offset_in_byte b) 1 \<noteq> 0"
      using "1.prems" [of b] True by (simp add: and_mask_iff byte used_def)
    from "1.IH" [OF _ rd refl refl test] True "1.prems"
    have "alloc_block_loop junk d (b + 1) = Inr (- 1, d)" by simp
    then show ?thesis
      using True test rd by (subst alloc_block_loop.simps) (simp add: Let_def)
  qed (subst alloc_block_loop.simps, simp)
qed

lemma first_data_block_ok: "bl_ok bl \<Longrightarrow> first_data_block bl = 123"
  by (simp add: bl_ok_def first_data_block_def IBLOCK_def)

lemma used_before_Min:
  assumes "123 \<le> c" and "c < Min (free_set bl)" and "free_set bl \<noteq> {}"
  shows "used (bl_d bl) c"
proof (rule ccontr)
  have "Min (free_set bl) \<in> data_blocks"
    using Min_in [OF finite_free_set assms(3)] free_set_data by blast
  moreover assume "\<not> used (bl_d bl) c"
  moreover from calculation(1) assms(2) have "c < 32768" by (simp add: data_blocks_def)
  ultimately have "c \<in> free_set bl" using assms(1) by (simp add: free_set_def data_blocks_def)
  then have "Min (free_set bl) \<le> c" by simp
  with assms(2) show False by simp
qed

lemma alloc_block_spec:
  assumes "bl_ok bl" and "free_set bl \<noteq> {}"
  shows "\<exists>bl'. alloc_block junk bl = Inr (word_of_nat (Min (free_set bl)), bl') \<and> bl_ok bl' \<and>
           free_set bl' = free_set bl - {Min (free_set bl)} \<and>
           (\<forall>j. j \<notin> bitmap_blocks \<longrightarrow> contents bl' j = contents bl j)"
proof -
  let ?m = "Min (free_set bl)"
  have m: "?m \<in> data_blocks" "\<not> used (bl_d bl) ?m"
    using Min_in [OF finite_free_set assms(2)] by (auto simp: free_set_def)
  then have "123 \<le> ?m" "?m < 32768" by (auto simp: data_blocks_def)
  then obtain d' where run: "alloc_block_loop junk (bl_d bl) 123 = Inr (word_of_nat ?m, d')"
    and u: "\<forall>c. used d' c = (c = ?m \<or> used (bl_d bl) c)"
    and frame: "\<forall>j. j \<notin> bitmap_blocks \<longrightarrow> blocks d' j = blocks (bl_d bl) j"
    using alloc_block_loop_found [OF _ _ m(2), of 123 junk] used_before_Min [OF _ _ assms(2)] by blast
  let ?bl' = "bl\<lparr>bl_d := d'\<rparr>"
  have "alloc_block junk bl = Inr (word_of_nat ?m, ?bl')"
    using assms(1) run first_data_block_ok [OF assms(1)]
    by (simp add: alloc_block_def bitmap_lock_def bitmap_unlock_def bl_ok_def first_data_block_def)
  moreover have "free_set ?bl' = free_set bl - {?m}"
    using u by (auto simp: free_set_def)
  ultimately show ?thesis
    using assms(1) frame by (auto simp: bl_ok_def contents_def)
qed

lemma alloc_block_full:
  assumes "bl_ok bl" and "free_set bl = {}"
  shows "alloc_block junk bl = Inr (- 1, bl)"
proof -
  have "used (bl_d bl) c" if "123 \<le> c" "c < 32768" for c
    using assms(2) that by (auto simp: free_set_def data_blocks_def)
  then have "alloc_block_loop junk (bl_d bl) 123 = Inr (- 1, bl_d bl)"
    by (rule alloc_block_loop_full)
  then show ?thesis
    using assms(1) first_data_block_ok [OF assms(1)]
    by (simp add: alloc_block_def bitmap_lock_def bitmap_unlock_def bl_ok_def first_data_block_def)
qed

lemma free_block_spec:
  assumes "bl_ok bl" and "unat b < 32768"
  shows "\<exists>bl'. free_block junk bl b = Inr bl' \<and> bl_ok bl' \<and>
           free_set bl' = free_set bl \<union> ({unat b} \<inter> data_blocks) \<and>
           (\<forall>j. j \<notin> bitmap_blocks \<longrightarrow> contents bl' j = contents bl j)"
proof -
  let ?b = "unat b"
  let ?p = "byte_offset_in_block ?b" and ?m = "push_bit (bit_offset_in_byte ?b) (1 :: byte)"
  let ?id = "word_of_nat (BBLOCK ?b) :: u32" and ?d = "bl_d bl"
  have bb: "?b < 2 ^ 32" "BBLOCK ?b < 32768" "BBLOCK ?b \<in> bitmap_blocks"
    using assms(2) BBLOCK_bitmap [OF assms(2)] by (auto simp: bitmap_blocks_def)
  obtain buf where rd: "disk_read_array ?d ?id junk = Inr buf"
    using read_bitmap_byte [OF assms(2)] by blast
  obtain d' where wr: "disk_write_block ?d ?id (Some (buf(?p := buf ?p AND NOT ?m))) = Inr d'"
    and u: "\<forall>c. used d' c = (if c = ?b then False else used ?d c)"
    and frame: "\<forall>j. j \<noteq> BBLOCK ?b \<longrightarrow> blocks d' j = blocks ?d j"
    using bitmap_rmw [where g = "\<lambda>x. x AND NOT ?m", OF bb(1,2) bit_clear_mask [OF offsets_bound(2)], of ?d junk] rd
    by auto
  let ?bl' = "bl\<lparr>bl_d := d'\<rparr>"
  have "free_block junk bl b = Inr ?bl'"
    using assms(1) rd wr by (simp add: free_block_def bitmap_lock_def bitmap_unlock_def bl_ok_def Let_def)
  moreover have "free_set ?bl' = free_set bl \<union> ({?b} \<inter> data_blocks)"
    using u by (auto simp: free_set_def)
  moreover have "\<forall>j. j \<notin> bitmap_blocks \<longrightarrow> blocks d' j = blocks ?d j"
    using frame bb(3) by metis
  ultimately show ?thesis
    using assms(1) by (auto simp: bl_ok_def contents_def)
qed

lemma used_cong: "(\<And>j. j \<in> bitmap_blocks \<Longrightarrow> blocks d' j = blocks d j) \<Longrightarrow> b < 32768 \<Longrightarrow>
    used d' b = used d b"
  using BBLOCK_bitmap [of b] by (simp add: used_def)

lemma bl_write_free_set:
  assumes "bl_ok bl" and "unat b \<notin> bitmap_blocks" and "bl_write_block bl b x = Inr bl'"
  shows "bl_ok bl' \<and> free_set bl' = free_set bl"
proof -
  obtain d' where d': "disk_write_block (bl_d bl) b (Some x) = Inr d'" "bl' = bl\<lparr>bl_d := d'\<rparr>"
    using assms(3) by (auto simp: bl_write_block_def rbind_Inr_iff)
  then have "blocks d' j = blocks (bl_d bl) j" if "j \<in> bitmap_blocks" for j
    using that assms(2) dk.write_other by metis
  then have "used d' c = used (bl_d bl) c" if "c \<in> data_blocks" for c
    using that by (intro used_cong) (auto simp: data_blocks_def)
  then show ?thesis using assms(1) d'(2) by (auto simp: free_set_def bl_ok_def)
qed

subsection \<open>The block-store contract\<close>

text \<open>
  \<open>stored cont frees s0 s A M\<close>: between \<open>s0\<close> and \<open>s\<close> the blocks \<open>A\<close>, all free at \<open>s0\<close>,
  were allocated, the blocks in the domain of \<open>M\<close> hold the bytes \<open>M\<close> gives them, and every
  other block outside the bitmap is unchanged.
\<close>

definition stored ::
    "('s \<Rightarrow> nat \<Rightarrow> buf) \<Rightarrow> ('s \<Rightarrow> nat set) \<Rightarrow> 's \<Rightarrow> 's \<Rightarrow> nat set \<Rightarrow> (nat \<rightharpoonup> buf) \<Rightarrow> bool" where
  "stored cont frees s0 s A M \<longleftrightarrow>
     A \<subseteq> frees s0 \<and> frees s = frees s0 - A \<and> dom M \<inter> bitmap_blocks = {} \<and>
     (\<forall>b c. M b = Some c \<longrightarrow> eq_upto BLOCK_SIZE (cont s b) c) \<and>
     (\<forall>b. b \<notin> dom M \<longrightarrow> b \<notin> bitmap_blocks \<longrightarrow> cont s b = cont s0 b)"

lemma storedD:
  assumes "stored cont frees s0 s A M"
  shows "A \<subseteq> frees s0" "frees s = frees s0 - A"
    "M b = Some c \<Longrightarrow> i < 512 \<Longrightarrow> cont s b i = c i"
    "b \<notin> dom M \<Longrightarrow> b \<notin> bitmap_blocks \<Longrightarrow> cont s b = cont s0 b"
  using assms by (auto simp: stored_def eq_upto_def)

lemma stored_refl [simp]: "stored cont frees s s {} Map.empty"
  by (simp add: stored_def)

locale block_store = block_device rd wr cont
  for rd :: "'s \<Rightarrow> u32 \<Rightarrow> buf \<Rightarrow> fault + buf"
    and wr :: "'s \<Rightarrow> u32 \<Rightarrow> buf \<Rightarrow> fault + 's"
    and cont :: "'s \<Rightarrow> nat \<Rightarrow> buf" +
  fixes alloc :: "buf \<Rightarrow> 's \<Rightarrow> fault + (u32 \<times> 's)"
    and release :: "buf \<Rightarrow> 's \<Rightarrow> u32 \<Rightarrow> fault + 's"
    and frees :: "'s \<Rightarrow> nat set"
    and ok :: "'s \<Rightarrow> bool"
  assumes frees_data: "frees s \<subseteq> data_blocks"
    and alloc_least: "ok s \<Longrightarrow> frees s \<noteq> {} \<Longrightarrow>
      \<exists>s'. alloc junk s = Inr (word_of_nat (Min (frees s)), s') \<and> ok s' \<and>
           frees s' = frees s - {Min (frees s)} \<and>
           (\<forall>j. j \<notin> bitmap_blocks \<longrightarrow> cont s' j = cont s j)"
    and alloc_full: "ok s \<Longrightarrow> frees s = {} \<Longrightarrow> alloc junk s = Inr (- 1, s)"
    and release_ok: "ok s \<Longrightarrow> unat b < 32768 \<Longrightarrow>
      \<exists>s'. release junk s b = Inr s' \<and> ok s' \<and>
           frees s' = frees s \<union> ({unat b} \<inter> data_blocks) \<and>
           (\<forall>j. j \<notin> bitmap_blocks \<longrightarrow> cont s' j = cont s j)"
    and wr_frees: "ok s \<Longrightarrow> unat b \<notin> bitmap_blocks \<Longrightarrow> wr s b x = Inr s' \<Longrightarrow>
      ok s' \<and> frees s' = frees s"
begin

lemma finite_frees: "finite (frees s)"
  by (rule finite_subset [OF frees_data]) simp

lemma stored_alloc:
  assumes "stored cont frees s0 s A M" and "ok s" and "frees s \<noteq> {}"
  obtains b s' where "alloc junk s = Inr (word_of_nat b, s')" and "ok s'"
    and "b \<in> data_blocks" and "b \<in> frees s" and "b = Min (frees s)"
    and "stored cont frees s0 s' (insert b A) M"
proof -
  let ?b = "Min (frees s)"
  obtain s' where a: "alloc junk s = Inr (word_of_nat ?b, s')" "ok s'"
      "frees s' = frees s - {?b}" "\<forall>j. j \<notin> bitmap_blocks \<longrightarrow> cont s' j = cont s j"
    using alloc_least [OF assms(2,3)] by blast
  have b: "?b \<in> frees s" using Min_in [OF finite_frees assms(3)] .
  then have bd: "?b \<in> data_blocks" using frees_data by blast
  have "stored cont frees s0 s' (insert ?b A) M"
    unfolding stored_def
  proof (intro conjI allI impI)
    show "insert ?b A \<subseteq> frees s0" "frees s' = frees s0 - insert ?b A"
      using storedD(1,2) [OF assms(1)] b a(3) by auto
    show "cont s' j = cont s0 j" if "j \<notin> dom M" "j \<notin> bitmap_blocks" for j
      using that a(4) storedD(4) [OF assms(1)] by simp
    show "dom M \<inter> bitmap_blocks = {}" using assms(1) by (simp add: stored_def)
    then show "eq_upto BLOCK_SIZE (cont s' j) c" if "M j = Some c" for j c
      using that a(4) assms(1) by (metis IntI domI empty_iff stored_def)
  qed
  with that a b bd show thesis by blast
qed

lemma stored_write:
  assumes "stored cont frees s0 s A M" and "ok s"
    and "unat b < 32768" and "unat b \<notin> bitmap_blocks"
  obtains s' where "wr s b x = Inr s'" and "ok s'"
    and "stored cont frees s0 s' A (M(unat b \<mapsto> x))"
proof -
  obtain s' where w: "wr s b x = Inr s'" "eq_upto BLOCK_SIZE (cont s' (unat b)) x"
      "\<forall>j. j \<noteq> unat b \<longrightarrow> cont s' j = cont s j"
    using wr_ok [of b s x] assms(3) by auto
  have "ok s'" "frees s' = frees s" using wr_frees [OF assms(2,4) w(1)] by auto
  moreover have "stored cont frees s0 s' A (M(unat b \<mapsto> x))"
    using assms(1,4) w(2,3) \<open>frees s' = frees s\<close> by (auto simp: stored_def split: if_splits)
  ultimately show thesis using that w(1) by blast
qed

lemma stored_alloc_write:
  assumes "stored cont frees s0 s A M" and "ok s" and "frees s \<noteq> {}"
  obtains b s1 s' where "alloc junk s = Inr (word_of_nat b, s1)"
    and "wr s1 (word_of_nat b) x = Inr s'" and "ok s'"
    and "b \<in> data_blocks" and "b \<in> frees s" and "b = Min (frees s)"
    and "stored cont frees s0 s' (insert b A) (M(b \<mapsto> x))"
proof -
  obtain b s1 where a: "alloc junk s = Inr (word_of_nat b, s1)" "ok s1"
      "b \<in> data_blocks" "b \<in> frees s" "b = Min (frees s)"
      "stored cont frees s0 s1 (insert b A) M"
    using stored_alloc [OF assms] by metis
  have u: "unat (word_of_nat b :: u32) = b" using a(3) by (simp add: data_blocks_def)
  obtain s' where "wr s1 (word_of_nat b) x = Inr s'" "ok s'"
      "stored cont frees s0 s' (insert b A) (M(b \<mapsto> x))"
    using stored_write [OF a(6,2), of "word_of_nat b" x] a(3) data_not_bitmap [OF a(3)]
    unfolding u by (auto simp: data_blocks_def)
  with that a show thesis by blast
qed

text \<open>A block just allocated and released again leaves the free set as it was.\<close>

lemma release_after_alloc:
  assumes "ok s" and "frees s \<noteq> {}"
  obtains b s1 s' where "alloc junk s = Inr (b, s1)" and "release junk' s1 b = Inr s'"
    and "frees s' = frees s" and "\<And>j. j \<notin> bitmap_blocks \<Longrightarrow> cont s' j = cont s j"
proof -
  let ?b = "Min (frees s)"
  obtain s1 where a: "alloc junk s = Inr (word_of_nat ?b, s1)" "ok s1"
      "frees s1 = frees s - {?b}" "\<forall>j. j \<notin> bitmap_blocks \<longrightarrow> cont s1 j = cont s j"
    using alloc_least [OF assms] by blast
  have b: "?b \<in> frees s" "?b \<in> data_blocks"
    using Min_in [OF finite_frees assms(2)] frees_data by auto
  then have u: "unat (word_of_nat ?b :: u32) = ?b" by (simp add: data_blocks_def)
  obtain s' where r: "release junk' s1 (word_of_nat ?b) = Inr s'"
      "frees s' = frees s1 \<union> ({?b} \<inter> data_blocks)"
      "\<forall>j. j \<notin> bitmap_blocks \<longrightarrow> cont s' j = cont s1 j"
    using release_ok [OF a(2), of "word_of_nat ?b" junk'] b(2) unfolding u
    by (auto simp: data_blocks_def)
  show thesis
    by (rule that [OF a(1) r(1)]) (use a(3,4) r(2,3) b in auto)
qed

end

interpretation bs: block_store bl_read_block bl_write_block contents alloc_block free_block
  free_set bl_ok
proof unfold_locales
  fix b :: u32 and bl junk x
  show "unat b < BLOCK_NUM \<Longrightarrow>
      \<exists>buf. bl_read_block bl b junk = Inr buf \<and> eq_upto BLOCK_SIZE buf (contents bl (unat b))"
    using dk.rd_ok by (simp add: bl_read_block_def contents_def)
  show "unat b < BLOCK_NUM \<Longrightarrow>
      \<exists>bl'. bl_write_block bl b x = Inr bl' \<and> eq_upto BLOCK_SIZE (contents bl' (unat b)) x \<and>
        (\<forall>j. j \<noteq> unat b \<longrightarrow> contents bl' j = contents bl j)"
    using dk.wr_ok [of b "bl_d bl" x] by (force simp: bl_write_block_def contents_def)
qed (simp_all add: bl_read_block_def bl_write_block_def dk.rd_ignored dk.wr_ignored dk.rd_past_end
       dk.wr_past_end free_set_data alloc_block_spec alloc_block_full free_block_spec
       bl_write_free_set [simplified])

text \<open>The id -1, which \<open>alloc_block\<close> returns for a full disk.\<close>

lemma no_block [simp]: "bl_write_block bl (- 1) x = Inr bl" "bl_read_block bl (- 1) x = Inr x"
proof -
  have "unat (- 1 :: u32) > BLOCK_NUM" by (simp add: unsigned_minus_1_eq_mask mask_eq_exp_minus_1)
  then show "bl_write_block bl (- 1) x = Inr bl" "bl_read_block bl (- 1) x = Inr x"
    using bs.wr_ignored bs.rd_ignored by simp_all
qed

text \<open>A new layer has all data blocks free.\<close>

lemma new_block_layer_ok: "bl_ok (new_block_layer False)" "free_set (new_block_layer m0) = data_blocks"
  "free_set (new_block_layer m0) \<noteq> {}"
  by (auto simp: bl_ok_def free_set_def used_def new_block_layer_def new_disk_def data_blocks_def intro!: exI [of _ 123])

subsection \<open>Properties\<close>

text \<open>
  C8: While a data block is free, \<open>alloc_block\<close> returns the lowest one, marks exactly that block
  used, changes nothing outside the bitmap, and leaves the mutex free.
\<close>

theorem block_alloc_least:
  assumes "bl_ok bl" and "free_set bl \<noteq> {}"
  shows "\<exists>b bl'. alloc_block junk bl = Inr (b, bl') \<and> unat b \<in> free_set bl \<and>
    (\<forall>c \<in> free_set bl. unat b \<le> c) \<and> free_set bl' = free_set bl - {unat b} \<and>
    (\<forall>j. j \<notin> bitmap_blocks \<longrightarrow> contents bl' j = contents bl j) \<and> bl_ok bl'"
proof -
  let ?m = "Min (free_set bl)"
  have m: "?m \<in> free_set bl" using assms(2) by simp
  then have "?m \<in> data_blocks" using free_set_data by blast
  then have "unat (word_of_nat ?m :: u32) = ?m" by (simp add: data_blocks_def)
  with m alloc_block_spec [OF assms, of junk] show ?thesis by (metis Min_le finite_free_set)
qed

theorem block_alloc_least_witness:
  "\<exists>b bl'. alloc_block (\<lambda>_. 0) (new_block_layer False) = Inr (b, bl') \<and> unat b = 123 \<and>
     free_set bl' = {124..<32768}"
proof -
  have "\<exists>b bl'. alloc_block (\<lambda>_. 0) (new_block_layer False) = Inr (b, bl') \<and>
      unat b \<in> data_blocks \<and> (\<forall>c \<in> data_blocks. unat b \<le> c) \<and> free_set bl' = data_blocks - {unat b} \<and>
      (\<forall>j. j \<notin> bitmap_blocks \<longrightarrow> contents bl' j = contents (new_block_layer False) j) \<and> bl_ok bl'"
    using block_alloc_least [OF new_block_layer_ok(1,3), of "\<lambda>_. 0"] unfolding new_block_layer_ok(2) by blast
  then obtain b bl' where
    r: "alloc_block (\<lambda>_. 0) (new_block_layer False) = Inr (b, bl')" "unat b \<in> data_blocks"
      "\<forall>c \<in> data_blocks. unat b \<le> c" "free_set bl' = data_blocks - {unat b}" by blast
  have "(123 :: nat) \<in> data_blocks" by (simp add: data_blocks_def)
  then have "unat b \<le> 123" using r(3) by blast
  moreover have "123 \<le> unat b" using r(2) unfolding data_blocks_def by (simp only: atLeastLessThan_iff)
  ultimately have b: "unat b = 123" by simp
  have "data_blocks - {123} = {124..<32768}" unfolding data_blocks_def by auto
  with r(1,4) b show ?thesis by metis
qed

text \<open>
  C9: Releasing the block that was just allocated restores the set of free blocks and leaves
  every block outside the bitmap as it was.
\<close>

theorem block_alloc_free_inverse:
  assumes "bl_ok bl" and "free_set bl \<noteq> {}"
  shows "\<exists>b bl1 bl'. alloc_block junk bl = Inr (b, bl1) \<and> free_block junk' bl1 b = Inr bl' \<and>
    free_set bl' = free_set bl \<and> (\<forall>j. j \<notin> bitmap_blocks \<longrightarrow> contents bl' j = contents bl j)"
  using bs.release_after_alloc [OF assms, of junk junk'] by metis

theorem block_alloc_free_inverse_witness:
  "\<exists>b bl1 bl'. alloc_block (\<lambda>_. 0) (new_block_layer False) = Inr (b, bl1) \<and>
     free_block (\<lambda>_. 0) bl1 b = Inr bl' \<and> free_set bl' = {123..<32768}"
  using block_alloc_free_inverse [OF new_block_layer_ok(1,3), of "\<lambda>_. 0" "\<lambda>_. 0"]
  unfolding new_block_layer_ok(2) unfolding data_blocks_def by blast

text \<open>
  When no data block is free, \<open>alloc_block\<close> returns the id \<open>-1\<close> (4294967295) and changes
  nothing; a read or write of that id is ignored by the disk.
\<close>

theorem block_alloc_exhausted:
  assumes "bl_ok bl" and "free_set bl = {}"
  shows "alloc_block junk bl = Inr (- 1, bl) \<and> bl_write_block bl (- 1) x = Inr bl \<and>
    bl_read_block bl (- 1) x = Inr x"
  using alloc_block_full [OF assms] by simp

theorem block_alloc_exhausted_witness:
  "\<exists>bl. bl_ok bl \<and> free_set bl = {} \<and> alloc_block (\<lambda>_. 0) bl = Inr (- 1, bl)"
proof -
  let ?bl = "(new_block_layer False)\<lparr>bl_d := \<lparr>blocks = (\<lambda>_ _. - 1)\<rparr>\<rparr>"
  have "bl_ok ?bl" by (simp add: bl_ok_def new_block_layer_def)
  moreover have "free_set ?bl = {}" by (simp add: free_set_def used_def)
  ultimately show ?thesis using block_alloc_exhausted [of ?bl "\<lambda>_. 0"] by blast
qed

end
