(* ===== verification/Rwlock.thy ===== *)
theory Rwlock
  imports Prelude
begin

text \<open>
  \<open>a4_rwlock\<close> of \<open>locks.h\<close>. The first part has the lock's fields and its four methods as
  one thread runs them; a wait that no other thread can end is the fault \<open>Would_block\<close>. The
  second part has any number of threads, interleaved at the points where the mutex changes
  hands, as an inductive step relation over the same pieces. The methods keep the mutex from
  \<open>enter\<close> to \<open>exit\<close>, and the invariant \<open>rw_inv\<close> shows what follows: every critical section
  excludes every other, readers included, and no thread ever waits on a condition variable.
\<close>

subsection \<open>State\<close>

type_synonym tid = nat

record a4_rwlock =
  waitingWriters :: int
  waitingReaders :: int
  activeWriters :: int
  activeReaders :: int
  rw_mutex :: "tid option" \<comment> \<open>\<open>lock\<close>: who holds it\<close>

definition new_a4_rwlock :: a4_rwlock where
  "new_a4_rwlock = \<lparr>waitingWriters = 0, waitingReaders = 0, activeWriters = 0,
     activeReaders = 0, rw_mutex = None\<rparr>"

definition INT_MIN :: int where [simp]: "INT_MIN = - (2 ^ 31)"
definition INT_MAX :: int where [simp]: "INT_MAX = 2 ^ 31 - 1"

definition int_inc :: "int \<Rightarrow> fault + int" where
  "int_inc x = (if x = INT_MAX then Inl Signed_overflow else Inr (x + 1))"

definition int_dec :: "int \<Rightarrow> fault + int" where
  "int_dec x = (if x = INT_MIN then Inl Signed_overflow else Inr (x - 1))"

datatype wakeup = No_wakeup | Signal_canWrite | Broadcast_canRead

subsection \<open>The pieces of the methods\<close>

definition mutex_lock :: "tid \<Rightarrow> a4_rwlock \<Rightarrow> fault + a4_rwlock" where
  "mutex_lock t l = (case rw_mutex l of None \<Rightarrow> Inr (l\<lparr>rw_mutex := Some t\<rparr>)
                                      | Some _ \<Rightarrow> Inl Would_block)"

definition reader_must_wait :: "a4_rwlock \<Rightarrow> bool" where
  "reader_must_wait l \<longleftrightarrow> activeWriters l > 0 \<or> waitingWriters l > 0"

definition reader_admit :: "a4_rwlock \<Rightarrow> fault + a4_rwlock" where
  "reader_admit l =
     rbind (int_dec (waitingReaders l)) (\<lambda>wr.
     rbind (int_inc (activeReaders l)) (\<lambda>ar.
       Inr (l\<lparr>waitingReaders := wr, activeReaders := ar\<rparr>)))"

definition reader_leave :: "a4_rwlock \<Rightarrow> fault + (wakeup \<times> a4_rwlock)" where
  "reader_leave l =
     rbind (int_dec (activeReaders l)) (\<lambda>ar.
       Inr (if ar = 0 \<and> waitingWriters l > 0 then Signal_canWrite else No_wakeup,
            l\<lparr>activeReaders := ar, rw_mutex := None\<rparr>))"

definition writer_announce :: "a4_rwlock \<Rightarrow> fault + a4_rwlock" where
  "writer_announce l =
     rbind (int_inc (waitingWriters l)) (\<lambda>ww. Inr (l\<lparr>waitingWriters := ww\<rparr>))"

definition writer_must_wait :: "a4_rwlock \<Rightarrow> bool" where
  "writer_must_wait l \<longleftrightarrow> activeWriters l > 0 \<or> activeReaders l > 0"

definition writer_admit :: "a4_rwlock \<Rightarrow> fault + a4_rwlock" where
  "writer_admit l =
     rbind (int_dec (waitingWriters l)) (\<lambda>ww.
       Inr (l\<lparr>waitingWriters := ww, activeWriters := 1\<rparr>))"

definition writer_leave :: "a4_rwlock \<Rightarrow> wakeup \<times> a4_rwlock" where
  "writer_leave l =
     (if waitingWriters l > 0 then Signal_canWrite
      else if waitingReaders l > 0 then Broadcast_canRead else No_wakeup,
      l\<lparr>activeWriters := 0, rw_mutex := None\<rparr>)"

subsection \<open>The methods, run by one thread\<close>

definition reader_enter :: "tid \<Rightarrow> a4_rwlock \<Rightarrow> fault + a4_rwlock" where
  "reader_enter t l =
     rbind (mutex_lock t l) (\<lambda>l.
       if reader_must_wait l then Inl Would_block else reader_admit l)"

definition reader_exit :: "a4_rwlock \<Rightarrow> fault + a4_rwlock" where
  "reader_exit l = rbind (reader_leave l) (\<lambda>(_, l). Inr l)"

definition writer_enter :: "tid \<Rightarrow> a4_rwlock \<Rightarrow> fault + a4_rwlock" where
  "writer_enter t l =
     rbind (mutex_lock t l) (\<lambda>l.
     rbind (writer_announce l) (\<lambda>l.
       if writer_must_wait l then Inl Would_block else writer_admit l))"

definition writer_exit :: "a4_rwlock \<Rightarrow> a4_rwlock" where
  "writer_exit l = snd (writer_leave l)"

text \<open>A lock that no thread is using, after any number of reads short of overflow.\<close>

definition rw_idle :: "a4_rwlock \<Rightarrow> bool" where
  "rw_idle l \<longleftrightarrow> waitingWriters l = 0 \<and> activeWriters l = 0 \<and> activeReaders l = 0 \<and>
     rw_mutex l = None \<and> INT_MIN < waitingReaders l \<and> waitingReaders l \<le> 0"

lemma rw_idle_new [simp]: "rw_idle new_a4_rwlock"
  by (simp add: rw_idle_def new_a4_rwlock_def)

lemma reader_section:
  assumes "rw_idle l"
  shows "reader_enter t l = Inr (l\<lparr>waitingReaders := waitingReaders l - 1, activeReaders := 1,
           rw_mutex := Some t\<rparr>)"
    and "reader_exit (l\<lparr>waitingReaders := waitingReaders l - 1, activeReaders := 1,
           rw_mutex := Some t\<rparr>) = Inr (l\<lparr>waitingReaders := waitingReaders l - 1\<rparr>)"
  using assms
  by (simp_all add: rw_idle_def reader_enter_def mutex_lock_def reader_must_wait_def
      reader_admit_def reader_exit_def reader_leave_def int_dec_def int_inc_def)

lemma writer_section:
  assumes "rw_idle l"
  shows "writer_enter t l = Inr (l\<lparr>activeWriters := 1, rw_mutex := Some t\<rparr>)"
    and "writer_exit (l\<lparr>activeWriters := 1, rw_mutex := Some t\<rparr>) = l"
  using assms
  by (simp_all add: rw_idle_def writer_enter_def mutex_lock_def writer_must_wait_def
      writer_announce_def writer_admit_def writer_exit_def writer_leave_def int_dec_def int_inc_def)

subsection \<open>Many threads\<close>

datatype pc =
    Idle
  | R_enter  \<comment> \<open>before \<open>pthread_mutex_lock\<close> of \<open>reader_enter\<close>\<close>
  | R_test   \<comment> \<open>at the \<open>while\<close> test, mutex held\<close>
  | R_wait   \<comment> \<open>in \<open>pthread_cond_wait(&canRead)\<close>, mutex released\<close>
  | R_wake   \<comment> \<open>woken, taking the mutex back\<close>
  | Reading  \<comment> \<open>between \<open>reader_enter\<close> and \<open>reader_exit\<close>\<close>
  | W_enter
  | W_test
  | W_wait
  | W_wake
  | Writing

record rw_sys =
  sys_lock :: a4_rwlock
  sys_pc :: "tid \<Rightarrow> pc"

definition init_rw_sys :: rw_sys where
  "init_rw_sys = \<lparr>sys_lock = new_a4_rwlock, sys_pc = (\<lambda>_. Idle)\<rparr>"

text \<open>Which threads a wake-up may release: one waiting writer, or all waiting readers.\<close>

inductive deliver :: "wakeup \<Rightarrow> (tid \<Rightarrow> pc) \<Rightarrow> (tid \<Rightarrow> pc) \<Rightarrow> bool" where
  none: "deliver No_wakeup p p"
| signal: "p u = W_wait \<Longrightarrow> deliver Signal_canWrite p (p(u := W_wake))"
| signal_nobody: "(\<And>u. p u \<noteq> W_wait) \<Longrightarrow> deliver Signal_canWrite p p"
| broadcast: "deliver Broadcast_canRead p (\<lambda>u. if p u = R_wait then R_wake else p u)"

inductive rw_step :: "rw_sys \<Rightarrow> rw_sys \<Rightarrow> bool" where
  r_call: "sys_pc s t = Idle \<Longrightarrow> rw_step s (s\<lparr>sys_pc := (sys_pc s)(t := R_enter)\<rparr>)"
| r_lock: "sys_pc s t = R_enter \<Longrightarrow> mutex_lock t (sys_lock s) = Inr l \<Longrightarrow>
    rw_step s \<lparr>sys_lock = l, sys_pc = (sys_pc s)(t := R_test)\<rparr>"
| r_wait: "sys_pc s t = R_test \<Longrightarrow> reader_must_wait (sys_lock s) \<Longrightarrow>
    rw_step s \<lparr>sys_lock = (sys_lock s)\<lparr>rw_mutex := None\<rparr>, sys_pc = (sys_pc s)(t := R_wait)\<rparr>"
| r_spurious: "sys_pc s t = R_wait \<Longrightarrow> rw_step s (s\<lparr>sys_pc := (sys_pc s)(t := R_wake)\<rparr>)"
| r_relock: "sys_pc s t = R_wake \<Longrightarrow> mutex_lock t (sys_lock s) = Inr l \<Longrightarrow>
    rw_step s \<lparr>sys_lock = l, sys_pc = (sys_pc s)(t := R_test)\<rparr>"
| r_admit: "sys_pc s t = R_test \<Longrightarrow> \<not> reader_must_wait (sys_lock s) \<Longrightarrow>
    reader_admit (sys_lock s) = Inr l \<Longrightarrow>
    rw_step s \<lparr>sys_lock = l, sys_pc = (sys_pc s)(t := Reading)\<rparr>"
| r_exit: "sys_pc s t = Reading \<Longrightarrow> reader_leave (sys_lock s) = Inr (w, l) \<Longrightarrow>
    deliver w ((sys_pc s)(t := Idle)) p \<Longrightarrow> rw_step s \<lparr>sys_lock = l, sys_pc = p\<rparr>"
| w_call: "sys_pc s t = Idle \<Longrightarrow> rw_step s (s\<lparr>sys_pc := (sys_pc s)(t := W_enter)\<rparr>)"
| w_lock: "sys_pc s t = W_enter \<Longrightarrow> mutex_lock t (sys_lock s) = Inr l \<Longrightarrow>
    writer_announce l = Inr l' \<Longrightarrow>
    rw_step s \<lparr>sys_lock = l', sys_pc = (sys_pc s)(t := W_test)\<rparr>"
| w_wait: "sys_pc s t = W_test \<Longrightarrow> writer_must_wait (sys_lock s) \<Longrightarrow>
    rw_step s \<lparr>sys_lock = (sys_lock s)\<lparr>rw_mutex := None\<rparr>, sys_pc = (sys_pc s)(t := W_wait)\<rparr>"
| w_spurious: "sys_pc s t = W_wait \<Longrightarrow> rw_step s (s\<lparr>sys_pc := (sys_pc s)(t := W_wake)\<rparr>)"
| w_relock: "sys_pc s t = W_wake \<Longrightarrow> mutex_lock t (sys_lock s) = Inr l \<Longrightarrow>
    rw_step s \<lparr>sys_lock = l, sys_pc = (sys_pc s)(t := W_test)\<rparr>"
| w_admit: "sys_pc s t = W_test \<Longrightarrow> \<not> writer_must_wait (sys_lock s) \<Longrightarrow>
    writer_admit (sys_lock s) = Inr l \<Longrightarrow>
    rw_step s \<lparr>sys_lock = l, sys_pc = (sys_pc s)(t := Writing)\<rparr>"
| w_exit: "sys_pc s t = Writing \<Longrightarrow> writer_leave (sys_lock s) = (w, l) \<Longrightarrow>
    deliver w ((sys_pc s)(t := Idle)) p \<Longrightarrow> rw_step s \<lparr>sys_lock = l, sys_pc = p\<rparr>"

inductive rw_reachable :: "rw_sys \<Rightarrow> bool" where
  start: "rw_reachable init_rw_sys"
| step: "rw_reachable s \<Longrightarrow> rw_step s s' \<Longrightarrow> rw_reachable s'"

inductive_simps deliver_none [simp]: "deliver No_wakeup p q"
inductive_cases rw_stepE: "rw_step s s'"

subsection \<open>The invariant\<close>

text \<open>What the counters are, given who holds the mutex and where that thread is.\<close>

fun counters :: "pc \<Rightarrow> int \<times> int \<times> int" where
  "counters Reading = (0, 0, 1)"
| "counters W_test = (1, 0, 0)"
| "counters Writing = (0, 1, 0)"
| "counters _ = (0, 0, 0)"

definition in_section :: "pc \<Rightarrow> bool" where
  "in_section p \<longleftrightarrow> p \<in> {R_test, Reading, W_test, Writing}"

definition never_waiting :: "pc \<Rightarrow> bool" where
  "never_waiting p \<longleftrightarrow> p \<notin> {R_wait, R_wake, W_wait, W_wake}"

definition rw_inv :: "rw_sys \<Rightarrow> bool" where
  "rw_inv s \<longleftrightarrow>
     (\<forall>t. never_waiting (sys_pc s t)) \<and>
     (\<forall>t. in_section (sys_pc s t) \<longleftrightarrow> rw_mutex (sys_lock s) = Some t) \<and>
     (waitingWriters (sys_lock s), activeWriters (sys_lock s), activeReaders (sys_lock s)) =
       (case rw_mutex (sys_lock s) of None \<Rightarrow> (0, 0, 0) | Some t \<Rightarrow> counters (sys_pc s t)) \<and>
     waitingReaders (sys_lock s) \<le> 0"

lemma rw_inv_init: "rw_inv init_rw_sys"
  by (simp add: rw_inv_def init_rw_sys_def new_a4_rwlock_def never_waiting_def in_section_def)

lemmas rw_piece_defs = mutex_lock_def reader_must_wait_def reader_admit_def reader_leave_def
  writer_announce_def writer_must_wait_def writer_admit_def writer_leave_def int_inc_def int_dec_def

lemma rw_invD:
  assumes "rw_inv s"
  shows "never_waiting (sys_pc s t)"
    and "in_section (sys_pc s t) \<Longrightarrow> rw_mutex (sys_lock s) = Some t"
    and "rw_mutex (sys_lock s) = None \<Longrightarrow> waitingWriters (sys_lock s) = 0 \<and>
           activeWriters (sys_lock s) = 0 \<and> activeReaders (sys_lock s) = 0"
    and "in_section (sys_pc s t) \<Longrightarrow>
           (waitingWriters (sys_lock s), activeWriters (sys_lock s), activeReaders (sys_lock s)) =
           counters (sys_pc s t)"
    and "waitingReaders (sys_lock s) \<le> 0"
  using assms by (auto simp: rw_inv_def)

text \<open>How each kind of step changes the two parts of the state the invariant relates.\<close>

lemma rw_inv_enter:
  assumes "rw_inv s" and "rw_mutex (sys_lock s) = None" and "rw_mutex l = Some t"
    and "in_section p" and "(waitingWriters l, activeWriters l, activeReaders l) = counters p"
    and "waitingReaders l \<le> 0"
  shows "rw_inv \<lparr>sys_lock = l, sys_pc = (sys_pc s)(t := p)\<rparr>"
  using assms by (auto simp: rw_inv_def in_section_def never_waiting_def)

lemma rw_inv_move:
  assumes "rw_inv s" and "rw_mutex (sys_lock s) = Some t" and "rw_mutex l = Some t"
    and "in_section p" and "(waitingWriters l, activeWriters l, activeReaders l) = counters p"
    and "waitingReaders l \<le> 0"
  shows "rw_inv \<lparr>sys_lock = l, sys_pc = (sys_pc s)(t := p)\<rparr>"
  using assms by (auto simp: rw_inv_def in_section_def never_waiting_def)

lemma rw_inv_leave:
  assumes "rw_inv s" and "rw_mutex (sys_lock s) = Some t" and "rw_mutex l = None"
    and "waitingWriters l = 0" "activeWriters l = 0" "activeReaders l = 0" "waitingReaders l \<le> 0"
  shows "rw_inv \<lparr>sys_lock = l, sys_pc = (sys_pc s)(t := Idle)\<rparr>"
  using assms by (auto simp: rw_inv_def in_section_def never_waiting_def)

lemma rw_inv_call:
  assumes "rw_inv s" and "sys_pc s t = Idle" and "p = R_enter \<or> p = W_enter"
  shows "rw_inv (s\<lparr>sys_pc := (sys_pc s)(t := p)\<rparr>)"
proof -
  have "in_section (sys_pc s t) \<longleftrightarrow> rw_mutex (sys_lock s) = Some t"
    using assms(1) by (simp add: rw_inv_def)
  then have "rw_mutex (sys_lock s) \<noteq> Some t"
    using assms(2) by (simp add: in_section_def)
  with assms show ?thesis
    by (auto simp: rw_inv_def in_section_def never_waiting_def split: option.splits)
qed

lemma section_at:
  assumes "rw_inv s" and "sys_pc s t = p" and "in_section p"
  shows "rw_mutex (sys_lock s) = Some t"
    and "(waitingWriters (sys_lock s), activeWriters (sys_lock s), activeReaders (sys_lock s)) =
         counters p"
  using rw_invD(2,4) [OF assms(1), of t] assms(2,3) by auto

lemma rw_step_inv: "rw_step s s' \<Longrightarrow> rw_inv s \<Longrightarrow> rw_inv s'"
proof (induction rule: rw_step.induct)
  case (r_call s t)
  then show ?case by (auto intro: rw_inv_call)
next
  case (r_lock s t l)
  then have "rw_mutex (sys_lock s) = None" by (auto simp: mutex_lock_def split: option.splits)
  with r_lock rw_invD(3,5) [OF r_lock.prems] show ?case
    by (intro rw_inv_enter) (auto simp: mutex_lock_def in_section_def)
next
  case (r_wait s t)
  then show ?case
    using section_at(2) [OF r_wait.prems r_wait.hyps(1)] by (auto simp: in_section_def reader_must_wait_def)
next
  case (r_admit s t l)
  note at = section_at [OF r_admit.prems r_admit.hyps(1)]
  with r_admit rw_invD(5) [OF r_admit.prems] show ?case
    by (intro rw_inv_move [where t = t])
      (auto simp: in_section_def reader_admit_def rbind_Inr_iff int_inc_def int_dec_def split: if_splits)
next
  case (r_exit s t w l p)
  note at = section_at [OF r_exit.prems r_exit.hyps(1)]
  then have "w = No_wakeup" and l: "rw_mutex l = None" "waitingWriters l = 0" "activeWriters l = 0"
      "activeReaders l = 0" "waitingReaders l \<le> 0"
    using r_exit.hyps(2) rw_invD(5) [OF r_exit.prems]
    by (auto simp: in_section_def reader_leave_def rbind_Inr_iff int_dec_def split: if_splits)
  with r_exit.hyps(3) at r_exit.prems show ?case by (auto simp: in_section_def intro: rw_inv_leave)
next
  case (w_call s t)
  then show ?case by (auto intro: rw_inv_call)
next
  case (w_lock s t l l')
  then have "rw_mutex (sys_lock s) = None" by (auto simp: mutex_lock_def split: option.splits)
  with w_lock rw_invD(3,5) [OF w_lock.prems] show ?case
    by (intro rw_inv_enter)
      (auto simp: mutex_lock_def writer_announce_def rbind_Inr_iff int_inc_def in_section_def)
next
  case (w_wait s t)
  then show ?case
    using section_at(2) [OF w_wait.prems w_wait.hyps(1)] by (auto simp: in_section_def writer_must_wait_def)
next
  case (w_admit s t l)
  note at = section_at [OF w_admit.prems w_admit.hyps(1)]
  with w_admit rw_invD(5) [OF w_admit.prems] show ?case
    by (intro rw_inv_move [where t = t])
      (auto simp: in_section_def writer_admit_def rbind_Inr_iff int_dec_def split: if_splits)
next
  case (w_exit s t w l p)
  note at = section_at [OF w_exit.prems w_exit.hyps(1)]
  then have "w = No_wakeup" and l: "rw_mutex l = None" "waitingWriters l = 0" "activeWriters l = 0"
      "activeReaders l = 0" "waitingReaders l \<le> 0"
    using w_exit.hyps(2) rw_invD(5) [OF w_exit.prems]
    by (auto simp: in_section_def writer_leave_def split: if_splits)
  with w_exit.hyps(3) at w_exit.prems show ?case by (auto simp: in_section_def intro: rw_inv_leave)
qed (use rw_invD(1) in \<open>fastforce simp: never_waiting_def\<close>)+

lemma rw_reachable_inv: "rw_reachable s \<Longrightarrow> rw_inv s"
  by (induction rule: rw_reachable.induct) (auto intro: rw_inv_init rw_step_inv)

text \<open>One reader of a new lock.\<close>

lemma reading_reachable:
  "rw_reachable \<lparr>sys_lock = new_a4_rwlock\<lparr>rw_mutex := Some t, waitingReaders := - 1, activeReaders := 1\<rparr>,
     sys_pc = (\<lambda>_. Idle)(t := Reading)\<rparr>"
proof -
  let ?l = "new_a4_rwlock\<lparr>rw_mutex := Some t\<rparr>"
  let ?s1 = "init_rw_sys\<lparr>sys_pc := (\<lambda>_. Idle)(t := R_enter)\<rparr>"
  let ?s2 = "\<lparr>sys_lock = ?l, sys_pc = (\<lambda>_. Idle)(t := R_test)\<rparr>"
  let ?l3 = "?l\<lparr>waitingReaders := - 1, activeReaders := 1\<rparr>"
  have "rw_step init_rw_sys ?s1" using rw_step.r_call [of init_rw_sys t] by (simp add: init_rw_sys_def)
  moreover have "rw_step ?s1 ?s2"
    using rw_step.r_lock [of ?s1 t ?l] by (simp add: init_rw_sys_def mutex_lock_def new_a4_rwlock_def)
  moreover have "rw_step ?s2 \<lparr>sys_lock = ?l3, sys_pc = (\<lambda>_. Idle)(t := Reading)\<rparr>"
    using rw_step.r_admit [of ?s2 t ?l3]
    by (simp add: rw_piece_defs new_a4_rwlock_def)
  ultimately show ?thesis by (meson rw_reachable.intros)
qed

subsection \<open>What the lock guarantees\<close>

text \<open>
  C13: In every reachable state of any number of threads at most one thread is between entering
  and leaving, whether it reads or writes; two readers exclude each other as well.
\<close>

theorem sections_exclusive:
  assumes "rw_reachable s" and "in_section (sys_pc s t)" and "in_section (sys_pc s u)"
  shows "t = u"
  using rw_invD(2) [OF rw_reachable_inv [OF assms(1)], of t]
    rw_invD(2) [OF rw_reachable_inv [OF assms(1)], of u] assms(2,3) by simp

theorem sections_exclusive_witness:
  "\<exists>s. rw_reachable s \<and> sys_pc s 1 = Reading \<and> (\<forall>u. in_section (sys_pc s u) \<longrightarrow> u = 1)"
proof -
  let ?s = "\<lparr>sys_lock = new_a4_rwlock\<lparr>rw_mutex := Some 1, waitingReaders := - 1, activeReaders := 1\<rparr>,
             sys_pc = (\<lambda>_. Idle)(1 := Reading)\<rparr>"
  have r: "rw_reachable ?s" using reading_reachable [of 1] .
  have "in_section (sys_pc ?s 1)" by (simp add: in_section_def)
  then have one: "u = 1" if "in_section (sys_pc ?s u)" for u
    using sections_exclusive [OF r that] by blast
  show ?thesis
  proof (intro exI [of _ ?s] conjI allI impI)
    show "u = 1" if "in_section (sys_pc ?s u)" for u using that by (rule one)
  qed (use r in simp_all)
qed

text \<open>
  No thread ever waits on \<open>canRead\<close> or \<open>canWrite\<close>: since the mutex is kept from \<open>enter\<close> to
  \<open>exit\<close>, no \<open>while\<close> test ever succeeds.
\<close>

theorem never_on_condition:
  assumes "rw_reachable s"
  shows "sys_pc s t \<notin> {R_wait, R_wake, W_wait, W_wake}"
  using rw_invD(1) [OF rw_reachable_inv [OF assms], of t] by (simp add: never_waiting_def)

theorem never_on_condition_witness:
  "\<exists>s. rw_reachable s \<and> sys_pc s 1 = Reading \<and> sys_pc s 2 \<notin> {R_wait, R_wake, W_wait, W_wake}"
proof -
  let ?s = "\<lparr>sys_lock = new_a4_rwlock\<lparr>rw_mutex := Some 1, waitingReaders := - 1, activeReaders := 1\<rparr>,
             sys_pc = (\<lambda>_. Idle)(1 := Reading)\<rparr>"
  show ?thesis
    using never_on_condition [OF reading_reachable [of 1], of 2] reading_reachable [of 1]
    by (intro exI [of _ ?s]) simp
qed

text \<open>
  The steps by which threads already in a call go on: some thread that is neither idle nor
  waiting on a condition variable moves. New calls and spurious wake-ups are not among them.
\<close>

definition running_step :: "rw_sys \<Rightarrow> rw_sys \<Rightarrow> bool" where
  "running_step s s' \<longleftrightarrow> rw_step s s' \<and>
     (\<exists>u. sys_pc s u \<notin> {Idle, R_wait, W_wait} \<and> sys_pc s' u \<noteq> sys_pc s u)"

lemma running_stepI:
  assumes "rw_step s s'" and "sys_pc s u = p" and "p \<notin> {Idle, R_wait, W_wait}" and "sys_pc s' u \<noteq> p"
  shows "running_step s s'"
  using assms by (auto simp: running_step_def)

lemma running_steps_inv: "running_step\<^sup>*\<^sup>* s s' \<Longrightarrow> rw_inv s \<Longrightarrow> rw_inv s'"
  by (induction rule: rtranclp_induct) (auto simp: running_step_def intro: rw_step_inv)

text \<open>A thread that is reading or writing leaves in one step and frees the mutex.\<close>

lemma section_leaves:
  assumes "rw_inv s" and "sys_pc s u = Reading \<or> sys_pc s u = Writing"
  shows "\<exists>s'. running_step s s' \<and> sys_pc s' = (sys_pc s)(u := Idle) \<and> rw_mutex (sys_lock s') = None \<and>
    waitingReaders (sys_lock s') = waitingReaders (sys_lock s)"
proof -
  let ?l = "sys_lock s"
  have sec: "in_section (sys_pc s u)" using assms(2) by (auto simp: in_section_def)
  note c = rw_invD(4) [OF assms(1) sec] and wr = rw_invD(5) [OF assms(1)]
  show ?thesis using assms(2)
  proof
    assume at: "sys_pc s u = Reading"
    then obtain l where l: "reader_leave ?l = Inr (No_wakeup, l)" "rw_mutex l = None"
        "waitingReaders l = waitingReaders ?l"
      using c by (auto simp: reader_leave_def int_dec_def)
    from running_stepI [OF rw_step.r_exit [OF at l(1) deliver.none] at] have
      "running_step s \<lparr>sys_lock = l, sys_pc = (sys_pc s)(u := Idle)\<rparr>" by simp
    with l(2,3) show ?thesis by fastforce
  next
    assume at: "sys_pc s u = Writing"
    then obtain l where l: "writer_leave ?l = (No_wakeup, l)" "rw_mutex l = None"
        "waitingReaders l = waitingReaders ?l"
      using c wr by (auto simp: writer_leave_def)
    from running_stepI [OF rw_step.w_exit [OF at l(1) deliver.none] at] have
      "running_step s \<lparr>sys_lock = l, sys_pc = (sys_pc s)(u := Idle)\<rparr>" by simp
    with l(2,3) show ?thesis by fastforce
  qed
qed

text \<open>At its \<open>while\<close> test a thread is admitted: no counter makes it wait.\<close>

lemma section_admits:
  assumes "rw_inv s" and "sys_pc s u = R_test \<or> sys_pc s u = W_test"
    and "INT_MIN < waitingReaders (sys_lock s)"
  shows "\<exists>s' p. running_step s s' \<and> sys_pc s' = (sys_pc s)(u := p) \<and> (p = Reading \<or> p = Writing) \<and>
    waitingReaders (sys_lock s) - 1 \<le> waitingReaders (sys_lock s')"
proof -
  let ?l = "sys_lock s"
  have sec: "in_section (sys_pc s u)" using assms(2) by (auto simp: in_section_def)
  note c = rw_invD(4) [OF assms(1) sec]
  show ?thesis using assms(2)
  proof
    assume at: "sys_pc s u = R_test"
    then obtain l where l: "\<not> reader_must_wait ?l" "reader_admit ?l = Inr l"
        "waitingReaders l = waitingReaders ?l - 1"
      using c assms(3) by (auto simp: reader_must_wait_def reader_admit_def int_inc_def int_dec_def)
    from running_stepI [OF rw_step.r_admit [OF at l(1,2)] at] have
      "running_step s \<lparr>sys_lock = l, sys_pc = (sys_pc s)(u := Reading)\<rparr>" by simp
    with l(3) show ?thesis by fastforce
  next
    assume at: "sys_pc s u = W_test"
    then obtain l where l: "\<not> writer_must_wait ?l" "writer_admit ?l = Inr l"
        "waitingReaders l = waitingReaders ?l"
      using c by (auto simp: writer_must_wait_def writer_admit_def int_dec_def)
    from running_stepI [OF rw_step.w_admit [OF at l(1,2)] at] have
      "running_step s \<lparr>sys_lock = l, sys_pc = (sys_pc s)(u := Writing)\<rparr>" by simp
    with l(3) show ?thesis by fastforce
  qed
qed

lemma section_ends:
  assumes "rw_inv s" and "in_section (sys_pc s u)" and "INT_MIN < waitingReaders (sys_lock s)"
  shows "\<exists>s'. running_step\<^sup>*\<^sup>* s s' \<and> sys_pc s' = (sys_pc s)(u := Idle) \<and> rw_mutex (sys_lock s') = None \<and>
    waitingReaders (sys_lock s) - 1 \<le> waitingReaders (sys_lock s')"
proof -
  consider (test) "sys_pc s u = R_test \<or> sys_pc s u = W_test"
    | (inside) "sys_pc s u = Reading \<or> sys_pc s u = Writing"
    using assms(2) by (auto simp: in_section_def)
  then show ?thesis
  proof cases
    case inside
    from section_leaves [OF assms(1) this] obtain s' where "running_step s s'"
        "sys_pc s' = (sys_pc s)(u := Idle)" "rw_mutex (sys_lock s') = None"
        "waitingReaders (sys_lock s') = waitingReaders (sys_lock s)" by blast
    then show ?thesis by (intro exI [of _ s']) auto
  next
    case test
    obtain s1 p where s1: "running_step s s1" "sys_pc s1 = (sys_pc s)(u := p)" "p = Reading \<or> p = Writing"
        "waitingReaders (sys_lock s) - 1 \<le> waitingReaders (sys_lock s1)"
      using section_admits [OF assms(1) test assms(3)] by blast
    have "rw_inv s1" using running_steps_inv [OF r_into_rtranclp [of running_step, OF s1(1)]] assms(1) .
    from section_leaves [OF this, of u] s1 obtain s2 where "running_step s1 s2"
        "sys_pc s2 = (sys_pc s1)(u := Idle)" "rw_mutex (sys_lock s2) = None"
        "waitingReaders (sys_lock s2) = waitingReaders (sys_lock s1)" by auto
    with s1 show ?thesis by (intro exI [of _ s2]) (auto intro: converse_rtranclp_into_rtranclp)
  qed
qed

text \<open>A thread at the start of \<open>enter\<close> takes the mutex as soon as it is free.\<close>

lemma enter_locks:
  assumes "rw_inv s" and "rw_mutex (sys_lock s) = None" and "sys_pc s t \<noteq> Idle"
  shows "\<exists>s'. running_step s s' \<and> in_section (sys_pc s' t) \<and>
    waitingReaders (sys_lock s') = waitingReaders (sys_lock s)"
proof -
  obtain l where l: "mutex_lock t (sys_lock s) = Inr l" "waitingWriters l = 0"
      "waitingReaders l = waitingReaders (sys_lock s)"
    using assms(2) rw_invD(3) [OF assms(1,2)] by (simp add: mutex_lock_def)
  then obtain l' where l': "writer_announce l = Inr l'" "waitingReaders l' = waitingReaders l"
    by (simp add: writer_announce_def int_inc_def)
  have "\<not> in_section (sys_pc s t)" using assms(1,2) by (simp add: rw_inv_def)
  then consider "sys_pc s t = R_enter" | "sys_pc s t = W_enter"
    using assms(3) rw_invD(1) [OF assms(1), of t]
    by (cases "sys_pc s t") (auto simp: in_section_def never_waiting_def)
  then show ?thesis
  proof cases
    case 1
    from running_stepI [OF rw_step.r_lock [OF 1 l(1)] 1] have
      "running_step s \<lparr>sys_lock = l, sys_pc = (sys_pc s)(t := R_test)\<rparr>" by simp
    with l(3) show ?thesis by (fastforce simp: in_section_def)
  next
    case 2
    from running_stepI [OF rw_step.w_lock [OF 2 l(1) l'(1)] 2] have
      "running_step s \<lparr>sys_lock = l', sys_pc = (sys_pc s)(t := W_test)\<rparr>" by simp
    with l(3) l'(2) show ?thesis by (fastforce simp: in_section_def)
  qed
qed

text \<open>
  C14: The lock never deadlocks. From every reachable state of any number of threads, every
  thread can finish the call or the section it is in, by steps of threads that are already in
  calls alone: no new call and no spurious wake-up of a condition variable is needed. The only
  condition is that \<open>waitingReaders\<close>, which every reader decrements and nothing increments, is
  at least two above the least \<open>int\<close>: the two sections that end may both be readers'.
\<close>

theorem rw_progress:
  assumes "rw_reachable s" and "INT_MIN + 1 < waitingReaders (sys_lock s)"
  shows "\<exists>s'. running_step\<^sup>*\<^sup>* s s' \<and> sys_pc s' t = Idle"
proof -
  have inv: "rw_inv s" using assms(1) by (rule rw_reachable_inv)
  obtain s1 where s1: "running_step\<^sup>*\<^sup>* s s1" "rw_mutex (sys_lock s1) = None"
      "waitingReaders (sys_lock s) - 1 \<le> waitingReaders (sys_lock s1)"
  proof (cases "rw_mutex (sys_lock s)")
    case (Some u)
    then have "in_section (sys_pc s u)" using inv by (simp add: rw_inv_def)
    with section_ends [OF inv] assms(2) that show ?thesis by fastforce
  qed (use that [of s] in simp)
  note inv1 = running_steps_inv [OF s1(1) inv]
  show ?thesis
  proof (cases "sys_pc s1 t = Idle")
    case False
    then obtain s2 where s2: "running_step s1 s2" "in_section (sys_pc s2 t)"
        "waitingReaders (sys_lock s2) = waitingReaders (sys_lock s1)"
      using enter_locks [OF inv1 s1(2)] by blast
    have run2: "running_step\<^sup>*\<^sup>* s s2" using s1(1) s2(1) by (rule rtranclp.rtrancl_into_rtrancl)
    obtain s3 where "running_step\<^sup>*\<^sup>* s2 s3" "sys_pc s3 = (sys_pc s2)(t := Idle)"
      using section_ends [OF running_steps_inv [OF run2 inv] s2(2)] s1(3) s2(3) assms(2) by auto
    with run2 show ?thesis by (intro exI [of _ s3]) (auto intro: rtranclp_trans)
  qed (use s1(1) in blast)
qed

theorem rw_progress_witness:
  "\<exists>s s'. rw_reachable s \<and> sys_pc s 1 = Reading \<and> sys_pc s 2 = W_enter \<and>
     running_step\<^sup>*\<^sup>* s s' \<and> sys_pc s' 2 = Idle"
proof -
  let ?r = "\<lparr>sys_lock = new_a4_rwlock\<lparr>rw_mutex := Some 1, waitingReaders := - 1, activeReaders := 1\<rparr>,
             sys_pc = (\<lambda>_. Idle)(1 := Reading)\<rparr>"
  let ?s = "?r\<lparr>sys_pc := (sys_pc ?r)(2 := W_enter)\<rparr>"
  have r: "rw_reachable ?s"
    by (rule rw_reachable.step [OF reading_reachable [of 1] rw_step.w_call]) simp
  have "\<exists>s'. running_step\<^sup>*\<^sup>* ?s s' \<and> sys_pc s' 2 = Idle"
    by (rule rw_progress [OF r]) (simp add: new_a4_rwlock_def)
  then obtain s' where "running_step\<^sup>*\<^sup>* ?s s'" "sys_pc s' 2 = Idle" by blast
  with r show ?thesis by (intro exI [of _ ?s] exI [of _ s'] conjI) simp_all
qed

text \<open>The methods of the first part are runs of the interleaving: entering is two steps.\<close>

text \<open>
  A call of \<open>reader_enter\<close> that one thread completes is a run of the interleaved system
  that ends with this thread reading, with the same counters.
\<close>

theorem reader_enter_steps:
  assumes "sys_pc s t = R_enter" and "reader_enter t (sys_lock s) = Inr l"
  shows "rw_step\<^sup>*\<^sup>* s \<lparr>sys_lock = l, sys_pc = (sys_pc s)(t := Reading)\<rparr>"
proof -
  obtain l1 where l1: "mutex_lock t (sys_lock s) = Inr l1" "\<not> reader_must_wait l1"
      "reader_admit l1 = Inr l"
    using assms(2) by (auto simp: reader_enter_def rbind_Inr_iff split: if_splits)
  let ?s1 = "\<lparr>sys_lock = l1, sys_pc = (sys_pc s)(t := R_test)\<rparr>"
  have "rw_step s ?s1" using assms(1) l1(1) by (rule rw_step.r_lock)
  moreover have "rw_step ?s1 \<lparr>sys_lock = l, sys_pc = (sys_pc s)(t := Reading)\<rparr>"
    using rw_step.r_admit [of ?s1 t l] l1(2,3) by simp
  ultimately show ?thesis by (meson rtranclp.rtrancl_into_rtrancl rtranclp.rtrancl_refl)
qed

theorem reader_enter_steps_witness:
  "rw_step\<^sup>*\<^sup>* \<lparr>sys_lock = new_a4_rwlock, sys_pc = (\<lambda>_. R_enter)\<rparr>
     \<lparr>sys_lock = new_a4_rwlock\<lparr>waitingReaders := - 1, activeReaders := 1, rw_mutex := Some 1\<rparr>,
      sys_pc = (\<lambda>_. R_enter)(1 := Reading)\<rparr>"
  using reader_enter_steps [of "\<lparr>sys_lock = new_a4_rwlock, sys_pc = (\<lambda>_. R_enter)\<rparr>" 1]
    reader_section(1) [OF rw_idle_new, of 1] by (simp add: new_a4_rwlock_def)

lemma writer_enter_steps:
  assumes "sys_pc s t = W_enter" and "writer_enter t (sys_lock s) = Inr l"
  shows "rw_step\<^sup>*\<^sup>* s \<lparr>sys_lock = l, sys_pc = (sys_pc s)(t := Writing)\<rparr>"
proof -
  obtain l1 l2 where l: "mutex_lock t (sys_lock s) = Inr l1" "writer_announce l1 = Inr l2"
      "\<not> writer_must_wait l2" "writer_admit l2 = Inr l"
    using assms(2) by (auto simp: writer_enter_def rbind_Inr_iff split: if_splits)
  let ?s1 = "\<lparr>sys_lock = l2, sys_pc = (sys_pc s)(t := W_test)\<rparr>"
  have "rw_step s ?s1" using assms(1) l(1,2) by (rule rw_step.w_lock)
  moreover have "rw_step ?s1 \<lparr>sys_lock = l, sys_pc = (sys_pc s)(t := Writing)\<rparr>"
    using rw_step.w_admit [of ?s1 t l] l(3,4) by simp
  ultimately show ?thesis by (meson rtranclp.rtrancl_into_rtrancl rtranclp.rtrancl_refl)
qed

subsection \<open>The counter of waiting readers\<close>

text \<open>One thread that reads \<open>n\<close> times in a row.\<close>

primrec read_sections :: "nat \<Rightarrow> tid \<Rightarrow> a4_rwlock \<Rightarrow> fault + a4_rwlock" where
  "read_sections 0 t l = Inr l"
| "read_sections (Suc n) t l =
     rbind (reader_enter t l) (\<lambda>l. rbind (reader_exit l) (read_sections n t))"

lemma read_sections_count:
  assumes "rw_idle l" and "INT_MIN + int n \<le> waitingReaders l"
  shows "read_sections n t l = Inr (l\<lparr>waitingReaders := waitingReaders l - int n\<rparr>)"
  using assms
proof (induction n arbitrary: l)
  case (Suc n)
  let ?l = "l\<lparr>waitingReaders := waitingReaders l - 1\<rparr>"
  have "read_sections (Suc n) t l = read_sections n t ?l"
    using reader_section [OF Suc.prems(1), of t] by simp
  also have "\<dots> = Inr (?l\<lparr>waitingReaders := waitingReaders ?l - int n\<rparr>)"
  proof (cases n)
    case (Suc m)
    with Suc.prems show ?thesis by (intro Suc.IH) (auto simp: rw_idle_def)
  qed simp
  finally show ?case by (simp add: algebra_simps)
qed simp

text \<open>
  C25: \<open>waitingReaders\<close> is decremented by every reader and never incremented, so it counts the
  reads so far downwards: after \<open>2\<^sup>3\<^sup>1\<close> of them on one lock the next \<open>reader_enter\<close> overflows it.
\<close>

theorem reader_count_overflow:
  "\<exists>l. read_sections (2 ^ 31) t new_a4_rwlock = Inr l \<and> waitingReaders l = - (2 ^ 31) \<and>
     reader_enter u l = Inl Signed_overflow"
proof -
  let ?l = "new_a4_rwlock\<lparr>waitingReaders := - (2 ^ 31)\<rparr>"
  have "read_sections (2 ^ 31) t new_a4_rwlock = Inr ?l"
    using read_sections_count [OF rw_idle_new, of "2 ^ 31" t] by (simp add: new_a4_rwlock_def)
  moreover have "reader_enter u ?l = Inl Signed_overflow"
    by (simp add: reader_enter_def mutex_lock_def reader_must_wait_def reader_admit_def int_dec_def
        new_a4_rwlock_def)
  ultimately show ?thesis by (intro exI [of _ ?l]) simp
qed

end
