(* ===== verification/Fs_Protocol.thy ===== *)
theory Fs_Protocol
  imports Prelude
begin

text \<open>
  \<open>fs_protocol.h\<close>: the status codes, the RPC numbers, the file types and the attribute
  structure that the client, the server and the inode layer exchange.
\<close>

datatype xxstatus = OK | RPCERR | NOENT | IOERR

fun xxstatus_code :: "xxstatus \<Rightarrow> int" where
  "xxstatus_code OK = 0"
| "xxstatus_code RPCERR = 1"
| "xxstatus_code NOENT = 2"
| "xxstatus_code IOERR = 3"

datatype rpc_number = Rpc_put | Rpc_get | Rpc_getattr | Rpc_remove

fun rpc_code :: "rpc_number \<Rightarrow> u32" where
  "rpc_code Rpc_put = 0x6001"
| "rpc_code Rpc_get = 0x6002"
| "rpc_code Rpc_getattr = 0x6003"
| "rpc_code Rpc_remove = 0x6004"

datatype ftype = T_DIR | T_FILE | T_SYM

fun ftype_code :: "ftype \<Rightarrow> u32" where
  "ftype_code T_DIR = 1"
| "ftype_code T_FILE = 2"
| "ftype_code T_SYM = 3"

type_synonym fsid_t = u64

record attr =
  a_type :: u32
  a_atime :: u32
  a_mtime :: u32
  a_ctime :: u32
  a_size :: u32

text \<open>\<open>memset(&attr, 0, sizeof(attr))\<close>.\<close>

definition zero_attr :: attr where
  "zero_attr = \<lparr>a_type = 0, a_atime = 0, a_mtime = 0, a_ctime = 0, a_size = 0\<rparr>"

end
