(* ===== verification/Inode.thy ===== *)
theory Inode
  imports Block_Layer Rwlock Fs_Protocol
begin

text \<open>
  The inode table of \<open>inode_layer.cc\<close>: \<open>struct inode\<close> and its byte layout inside a block,
  \<open>get_inode\<close>, \<open>put_inode\<close>, \<open>alloc_inode\<close>, \<open>free_inode\<close>, \<open>getattr\<close> and the constructor.
  \<open>inode_at\<close> reads the table as a function of the inode number; the contract of the table is
  the locale \<open>inode_table\<close>.
\<close>

subsection \<open>State\<close>

record inode =
  i_type :: u16
  i_size :: u32
  i_atime :: u32
  i_mtime :: u32
  i_ctime :: u32
  i_blocks :: "u32 list"

record inode_layer =
  il_bm :: block_layer
  il_rwlocks :: "nat \<Rightarrow> a4_rwlock"

text \<open>The array \<open>blocks[NDIRECT+1]\<close> has nine entries.\<close>

definition inode_ok :: "inode \<Rightarrow> bool" where
  "inode_ok ino \<longleftrightarrow> length (i_blocks ino) = NDIRECT + 1"

definition decode_inode :: "buf \<Rightarrow> nat \<Rightarrow> inode" where
  "decode_inode b p =
     \<lparr>i_type = get16 b p, i_size = get32 b (p + 4), i_atime = get32 b (p + 8),
      i_mtime = get32 b (p + 12), i_ctime = get32 b (p + 16),
      i_blocks = map (\<lambda>k. get32 b (p + 20 + 4 * k)) [0..<NDIRECT + 1]\<rparr>"

primrec put_words :: "buf \<Rightarrow> nat \<Rightarrow> u32 list \<Rightarrow> buf" where
  "put_words b p [] = b"
| "put_words b p (w # ws) = put_words (put32 b p w) (p + 4) ws"

text \<open>The two padding bytes after \<open>type\<close> keep their value; nothing reads them.\<close>

definition encode_inode :: "buf \<Rightarrow> nat \<Rightarrow> inode \<Rightarrow> buf" where
  "encode_inode b p ino =
     put_words (put16 b p (i_type ino)) (p + 4)
       (i_size ino # i_atime ino # i_mtime ino # i_ctime ino # i_blocks ino)"

definition inode_slot :: "nat \<Rightarrow> nat" where
  "inode_slot i = sizeof_inode * (i mod IPB)"

subsection \<open>Operations\<close>

definition get_inode :: "stack \<Rightarrow> block_layer \<Rightarrow> u32 \<Rightarrow> fault + inode option" where
  "get_inode stk bl inum =
     (if unat inum \<ge> INODE_NUM then Inr None
      else
        rbind (bl_read_block bl (word_of_nat (IBLOCK (unat inum) (unat (sb_nblocks (bl_sb bl)))))
                (stk Scratch)) (\<lambda>buf.
          let ino_disk = decode_inode buf (inode_slot (unat inum))
          in Inr (if i_type ino_disk = 0 then None else Some ino_disk)))"

definition put_inode :: "stack \<Rightarrow> block_layer \<Rightarrow> u32 \<Rightarrow> inode option \<Rightarrow> fault + block_layer" where
  "put_inode stk bl inum inop =
     (case inop of
        None \<Rightarrow> Inr bl
      | Some ino \<Rightarrow>
          if unat inum \<ge> INODE_NUM then Inr bl
          else
            let ib = word_of_nat (IBLOCK (unat inum) (unat (sb_nblocks (bl_sb bl))))
            in rbind (bl_read_block bl ib (stk Scratch)) (\<lambda>buf.
                 bl_write_block bl ib (encode_inode buf (inode_slot (unat inum)) ino)))"

function find_free_inode :: "stack \<Rightarrow> block_layer \<Rightarrow> nat \<Rightarrow> fault + nat" where
  "find_free_inode stk bl x =
     (if x < INODE_NUM then
        rbind (get_inode stk bl (word_of_nat x)) (\<lambda>this_one.
          if this_one = None then Inr x else find_free_inode stk bl (x + 1))
      else Inr 0)"
  by pat_completeness auto
termination
  by (relation "measure (\<lambda>(stk, bl, x). INODE_NUM - x)") auto

declare find_free_inode.simps [simp del]

text \<open>\<open>new inode()\<close> zeroes every field; the three \<open>time(0)\<close> calls return \<open>ta\<close>, \<open>tc\<close>, \<open>tm\<close>.\<close>

definition new_inode :: "u64 \<times> u64 \<times> u64 \<Rightarrow> u32 \<Rightarrow> inode" where
  "new_inode ts ty =
     (case ts of (ta, tc, tm) \<Rightarrow>
       \<lparr>i_type = ucast ty, i_size = 0, i_atime = ucast ta, i_mtime = ucast tm,
        i_ctime = ucast tc, i_blocks = replicate (NDIRECT + 1) 0\<rparr>)"

definition alloc_inode ::
    "stack \<Rightarrow> u64 \<times> u64 \<times> u64 \<Rightarrow> block_layer \<Rightarrow> u32 \<Rightarrow> fault + (u32 \<times> block_layer)" where
  "alloc_inode stk ts bl ty =
     rbind (find_free_inode stk bl 0) (\<lambda>where_to_alloc.
     rbind (put_inode stk bl (word_of_nat where_to_alloc) (Some (new_inode ts ty))) (\<lambda>bl.
       Inr (word_of_nat where_to_alloc, bl)))"

definition free_inode :: "stack \<Rightarrow> block_layer \<Rightarrow> u32 \<Rightarrow> fault + block_layer" where
  "free_inode stk bl inum =
     rbind (get_inode stk bl inum) (\<lambda>r.
       case r of
         None \<Rightarrow> Inl Null_deref
       | Some ino \<Rightarrow> put_inode stk bl inum (Some (ino\<lparr>i_type := 0\<rparr>)))"

definition il_getattr :: "stack \<Rightarrow> block_layer \<Rightarrow> u32 \<Rightarrow> attr \<Rightarrow> fault + attr" where
  "il_getattr stk bl inum a =
     rbind (get_inode stk bl inum) (\<lambda>r.
       case r of
         None \<Rightarrow> Inr a
       | Some ino \<Rightarrow> Inr (a\<lparr>a_type := scast (i_type ino), a_size := i_size ino,
           a_atime := i_atime ino, a_mtime := i_mtime ino, a_ctime := i_ctime ino\<rparr>))"

definition new_inode_layer :: "stack \<Rightarrow> u64 \<times> u64 \<times> u64 \<Rightarrow> bool \<Rightarrow> fault + inode_layer" where
  "new_inode_layer stk ts m0 =
     rbind (alloc_inode stk ts (new_block_layer m0) (ftype_code T_DIR)) (\<lambda>(root_dir, bl).
       if root_dir \<noteq> 0 then Inl Exit_called
       else Inr \<lparr>il_bm = bl, il_rwlocks = (\<lambda>_. new_a4_rwlock)\<rparr>)"

subsection \<open>The byte layout\<close>

lemma get32_put_words_other [buf_simps]:
  "q + 4 \<le> p \<or> p + 4 * length ws \<le> q \<Longrightarrow> get32 (put_words b p ws) q = get32 b q"
  by (induction ws arbitrary: b p) (auto simp: buf_simps)

lemma get16_put_words_other [buf_simps]:
  "q + 2 \<le> p \<or> p + 4 * length ws \<le> q \<Longrightarrow> get16 (put_words b p ws) q = get16 b q"
  by (induction ws arbitrary: b p) (auto simp: buf_simps)

lemma put_words_out [buf_simps]:
  "i < p \<or> p + 4 * length ws \<le> i \<Longrightarrow> put_words b p ws i = b i"
  by (induction ws arbitrary: b p) (auto simp: buf_simps)

lemma get32_put_words:
  "k < length ws \<Longrightarrow> get32 (put_words b p ws) (p + 4 * k) = ws ! k"
proof (induction ws arbitrary: b p k)
  case (Cons w ws)
  show ?case
  proof (cases k)
    case 0
    then show ?thesis by (simp add: buf_simps)
  next
    case (Suc j)
    then show ?thesis using Cons.IH [of j "put32 b p w" "p + 4"] Cons.prems
      by (simp add: algebra_simps)
  qed
qed simp

lemma decode_encode_same:
  assumes "inode_ok ino"
  shows "decode_inode (encode_inode b p ino) p = ino"
proof -
  let ?ws = "i_size ino # i_atime ino # i_mtime ino # i_ctime ino # i_blocks ino"
  have len: "length (i_blocks ino) = 9" using assms by (simp add: inode_ok_def)
  have w: "get32 (encode_inode b p ino) (p + 4 + 4 * k) = ?ws ! k" if "k < 13" for k
    unfolding encode_inode_def using that len by (intro get32_put_words) simp
  have "map (\<lambda>k. get32 (encode_inode b p ino) (p + 20 + 4 * k)) [0..<9] = i_blocks ino"
  proof (rule nth_equalityI)
    show "map (\<lambda>k. get32 (encode_inode b p ino) (p + 20 + 4 * k)) [0..<9] ! k = i_blocks ino ! k"
      if "k < length (map (\<lambda>k. get32 (encode_inode b p ino) (p + 20 + 4 * k)) [0..<9])" for k
      using that w [of "k + 4"] by (simp add: algebra_simps)
  qed (simp add: len)
  moreover have "get16 (encode_inode b p ino) p = i_type ino"
    by (simp add: encode_inode_def buf_simps)
  ultimately show ?thesis
    using w [of 0] w [of 1] w [of 2] w [of 3] by (simp add: decode_inode_def add.assoc)
qed

lemma decode_encode_other:
  assumes "inode_ok ino" and "p + 56 \<le> q \<or> q + 56 \<le> p"
  shows "decode_inode (encode_inode b p ino) q = decode_inode b q"
proof -
  have "length (i_blocks ino) = 9" using assms(1) by (simp add: inode_ok_def)
  with assms(2) show ?thesis
    by (auto simp: decode_inode_def encode_inode_def buf_simps)
qed

lemma decode_inode_cong:
  "(\<And>i. p \<le> i \<Longrightarrow> i < p + 56 \<Longrightarrow> a i = b i) \<Longrightarrow> decode_inode a p = decode_inode b p"
  unfolding decode_inode_def by (auto intro!: get32_cong get16_cong)

lemma decode_inode_ok [simp]: "inode_ok (decode_inode b p)"
  by (simp add: inode_ok_def decode_inode_def)

lemma inode_slot_fits: "inode_slot i + 56 \<le> 512"
proof -
  have "i mod 9 < 9" by simp
  then show ?thesis by (simp add: inode_slot_def)
qed

lemma inode_slots_apart:
  "i div 9 = j div 9 \<Longrightarrow> i \<noteq> j \<Longrightarrow> inode_slot i + 56 \<le> inode_slot j \<or> inode_slot j + 56 \<le> inode_slot i"
proof -
  assume "i div 9 = j div 9" "i \<noteq> j"
  then have "i mod 9 \<noteq> j mod 9" by (metis div_mult_mod_eq)
  then have "i mod 9 < j mod 9 \<or> j mod 9 < i mod 9" by arith
  then show ?thesis by (auto simp: inode_slot_def)
qed

subsection \<open>The table as a function of the inode number\<close>

definition inode_blocks :: "nat set" where
  "inode_blocks = {9..<123}"

definition inode_at :: "block_layer \<Rightarrow> nat \<Rightarrow> inode" where
  "inode_at bl i = decode_inode (contents bl (IBLOCK i BLOCK_NUM)) (inode_slot i)"

definition in_use :: "block_layer \<Rightarrow> nat \<Rightarrow> bool" where
  "in_use bl i \<longleftrightarrow> i < INODE_NUM \<and> i_type (inode_at bl i) \<noteq> 0"

lemma inode_at_ok [simp]: "inode_ok (inode_at bl i)"
  by (simp add: inode_at_def)

lemma IBLOCK_range: "i < 1024 \<Longrightarrow> 9 + i div 9 \<in> inode_blocks"
  by (simp add: inode_blocks_def div_less_iff_less_mult)

lemma inode_blocks_apart:
  "b \<in> inode_blocks \<Longrightarrow> b \<notin> bitmap_blocks" "b \<in> inode_blocks \<Longrightarrow> b \<notin> data_blocks"
  by (auto simp: inode_blocks_def bitmap_blocks_def data_blocks_def)

lemma unat_IBLOCK: "i < 1024 \<Longrightarrow> unat (word_of_nat (9 + i div 9) :: u32) = 9 + i div 9"
  using IBLOCK_range [of i] by (intro unat_of_nat32) (simp add: inode_blocks_def)

lemma bl_ok_nblocks: "bl_ok bl \<Longrightarrow> unat (sb_nblocks (bl_sb bl)) = 32768"
  by (simp add: bl_ok_def)

lemma inode_at_cong:
  assumes "\<And>b. b \<in> inode_blocks \<Longrightarrow> contents bl' b = contents bl b" and "i < 1024"
  shows "inode_at bl' i = inode_at bl i"
  using assms(1) [OF IBLOCK_range [OF assms(2)]] by (simp add: inode_at_def)

lemma get_inode_spec:
  assumes "bl_ok bl"
  shows "get_inode stk bl inum =
           Inr (if in_use bl (unat inum) then Some (inode_at bl (unat inum)) else None)"
proof (cases "unat inum < 1024")
  case True
  let ?i = "unat inum" and ?id = "word_of_nat (9 + unat inum div 9) :: u32"
  have "unat ?id < BLOCK_NUM"
    using unat_IBLOCK [OF True] IBLOCK_range [OF True] by (simp add: inode_blocks_def)
  then obtain buf where rd: "bl_read_block bl ?id (stk Scratch) = Inr buf"
    and eq: "eq_upto 512 buf (contents bl (unat ?id))"
    using bs.rd_ok [of ?id bl "stk Scratch"] by auto
  have "decode_inode buf (inode_slot ?i) = decode_inode (contents bl (9 + ?i div 9)) (inode_slot ?i)"
    using eq_uptoD [OF eq] inode_slot_fits [of ?i] unat_IBLOCK [OF True]
    by (intro decode_inode_cong) auto
  with True rd show ?thesis
    using bl_ok_nblocks [OF assms]
    by (simp add: get_inode_def inode_at_def in_use_def)
qed (simp add: get_inode_def in_use_def)

lemma put_inode_spec:
  assumes "bl_ok bl" and "unat inum < 1024" and "inode_ok ino"
  shows "\<exists>bl'. put_inode stk bl inum (Some ino) = Inr bl' \<and> bl_ok bl' \<and>
           (\<forall>j<1024. inode_at bl' j = (if j = unat inum then ino else inode_at bl j)) \<and>
           free_set bl' = free_set bl \<and>
           (\<forall>b. b \<notin> inode_blocks \<longrightarrow> contents bl' b = contents bl b)"
proof -
  let ?i = "unat inum" and ?id = "word_of_nat (9 + unat inum div 9) :: u32"
  let ?p = "inode_slot ?i"
  note id = unat_IBLOCK [OF assms(2)] and rng = IBLOCK_range [OF assms(2)]
  have lt: "unat ?id < BLOCK_NUM" using id rng by (simp add: inode_blocks_def)
  obtain buf where rd: "bl_read_block bl ?id (stk Scratch) = Inr buf"
    and eq: "eq_upto 512 buf (contents bl (9 + ?i div 9))"
    using bs.rd_ok [OF lt, of bl "stk Scratch"] id by auto
  obtain bl' where wr: "bl_write_block bl ?id (encode_inode buf ?p ino) = Inr bl'"
    and new: "eq_upto 512 (contents bl' (9 + ?i div 9)) (encode_inode buf ?p ino)"
    and frame: "\<forall>j. j \<noteq> 9 + ?i div 9 \<longrightarrow> contents bl' j = contents bl j"
    using bs.wr_ok [OF lt, of bl "encode_inode buf ?p ino"] id by auto
  have at: "inode_at bl' j = (if j = ?i then ino else inode_at bl j)" if "j < 1024" for j
  proof (cases "j div 9 = ?i div 9")
    case True
    have "inode_at bl' j = decode_inode (encode_inode buf ?p ino) (inode_slot j)"
      using eq_uptoD [OF new] inode_slot_fits [of j] True
      by (auto simp: inode_at_def intro!: decode_inode_cong)
    moreover have "decode_inode buf (inode_slot j) = inode_at bl j"
      using eq_uptoD [OF eq] inode_slot_fits [of j] True
      by (auto simp: inode_at_def intro!: decode_inode_cong)
    ultimately show ?thesis
      using decode_encode_same [OF assms(3)] decode_encode_other [OF assms(3)]
        inode_slots_apart [OF True] by metis
  next
    case False
    with frame show ?thesis by (auto simp: inode_at_def)
  qed
  have "unat ?id \<notin> bitmap_blocks" using id inode_blocks_apart(1) [OF rng] by simp
  from bs.wr_frees [OF assms(1) this wr] have "bl_ok bl'" "free_set bl' = free_set bl" by auto
  moreover have "contents bl' b = contents bl b" if "b \<notin> inode_blocks" for b
    using frame rng that by metis
  moreover have "put_inode stk bl inum (Some ino) = Inr bl'"
    using assms(2) rd wr bl_ok_nblocks [OF assms(1)] by (simp add: put_inode_def)
  ultimately show ?thesis using at by blast
qed

subsection \<open>The inode-table contract\<close>

locale inode_table =
  fixes get :: "'s \<Rightarrow> u32 \<Rightarrow> fault + inode option"
    and put :: "'s \<Rightarrow> u32 \<Rightarrow> inode option \<Rightarrow> fault + 's"
    and at :: "'s \<Rightarrow> nat \<Rightarrow> inode"
    and ok :: "'s \<Rightarrow> bool"
  assumes get_at: "ok s \<Longrightarrow> get s i =
      Inr (if unat i < INODE_NUM \<and> i_type (at s (unat i)) \<noteq> 0 then Some (at s (unat i)) else None)"
    and put_at: "ok s \<Longrightarrow> unat i < INODE_NUM \<Longrightarrow> inode_ok ino \<Longrightarrow>
      \<exists>s'. put s i (Some ino) = Inr s' \<and> ok s' \<and>
           (\<forall>j<INODE_NUM. at s' j = (if j = unat i then ino else at s j))"
    and put_null: "put s i None = Inr s"
    and put_out: "unat i \<ge> INODE_NUM \<Longrightarrow> put s i (Some ino) = Inr s"
begin

text \<open>What a lookup returns after a store, for the same and for another inode.\<close>

lemma get_after_put:
  assumes "ok s" and "unat i < INODE_NUM" and "inode_ok ino"
  obtains s' where "put s i (Some ino) = Inr s'" and "ok s'"
    and "get s' i = Inr (if i_type ino \<noteq> 0 then Some ino else None)"
    and "\<And>j. j \<noteq> i \<Longrightarrow> get s' j = get s j"
proof -
  obtain s' where p: "put s i (Some ino) = Inr s'" "ok s'"
    "\<forall>j<INODE_NUM. at s' j = (if j = unat i then ino else at s j)"
    using put_at [OF assms] by blast
  have "get s' i = Inr (if i_type ino \<noteq> 0 then Some ino else None)"
    using get_at [OF p(2), of i] p(3) assms(2) by simp
  moreover have "get s' j = get s j" if "j \<noteq> i" for j
  proof -
    have "unat j \<noteq> unat i" using that by (simp add: word_unat_eq_iff)
    then show ?thesis
      using get_at [OF p(2), of j] get_at [OF assms(1), of j] p(3)
      by (cases "unat j < INODE_NUM") auto
  qed
  ultimately show thesis using that p(1,2) by blast
qed

end

interpretation it: inode_table "get_inode stk" "put_inode stk" inode_at bl_ok
  for stk
proof unfold_locales
  fix bl :: block_layer and i :: u32 and ino
  show "bl_ok bl \<Longrightarrow> get_inode stk bl i =
      Inr (if unat i < INODE_NUM \<and> i_type (inode_at bl (unat i)) \<noteq> 0
           then Some (inode_at bl (unat i)) else None)"
    by (simp add: get_inode_spec in_use_def)
  show "bl_ok bl \<Longrightarrow> unat i < INODE_NUM \<Longrightarrow> inode_ok ino \<Longrightarrow>
      \<exists>bl'. put_inode stk bl i (Some ino) = Inr bl' \<and> bl_ok bl' \<and>
        (\<forall>j<INODE_NUM. inode_at bl' j = (if j = unat i then ino else inode_at bl j))"
    using put_inode_spec [of bl i ino stk] by auto
qed (simp_all add: put_inode_def)

subsection \<open>Allocating, freeing and inspecting inodes\<close>

lemma get_inode_nat:
  assumes "bl_ok bl" and "x < 1024"
  shows "get_inode stk bl (word_of_nat x) = Inr (if in_use bl x then Some (inode_at bl x) else None)"
  using get_inode_spec [OF assms(1), of stk "word_of_nat x"] assms(2) by simp

lemma find_free_inode_found:
  assumes "bl_ok bl" and "x \<le> m" and "m < 1024" and "\<not> in_use bl m"
    and "\<And>y. x \<le> y \<Longrightarrow> y < m \<Longrightarrow> in_use bl y"
  shows "find_free_inode stk bl x = Inr m"
  using assms
proof (induction stk bl x rule: find_free_inode.induct)
  case (1 stk bl x)
  note g = get_inode_nat [OF "1.prems"(1), of x stk]
  show ?case
  proof (cases "x = m")
    case True
    with "1.prems" g show ?thesis by (subst find_free_inode.simps) simp
  next
    case False
    with "1.prems" g have "find_free_inode stk bl x = find_free_inode stk bl (x + 1)"
      by (subst find_free_inode.simps) simp
    moreover have "find_free_inode stk bl (x + 1) = Inr m"
      using "1.IH" [of "Some (inode_at bl x)"] "1.prems" False g by simp
    ultimately show ?thesis by simp
  qed
qed

lemma find_free_inode_full:
  assumes "bl_ok bl" and "\<And>y. x \<le> y \<Longrightarrow> y < 1024 \<Longrightarrow> in_use bl y"
  shows "find_free_inode stk bl x = Inr 0"
  using assms
proof (induction stk bl x rule: find_free_inode.induct)
  case (1 stk bl x)
  show ?case
  proof (cases "x < 1024")
    case True
    note g = get_inode_nat [OF "1.prems"(1) True, of stk]
    from g True "1.prems" have "find_free_inode stk bl x = find_free_inode stk bl (x + 1)"
      by (subst find_free_inode.simps) simp
    moreover have "find_free_inode stk bl (x + 1) = Inr 0"
      using "1.IH" [of "Some (inode_at bl x)"] "1.prems" True g by simp
    ultimately show ?thesis by simp
  qed (subst find_free_inode.simps, simp)
qed

lemma new_inode_ok [simp]: "inode_ok (new_inode ts ty)"
  by (cases ts) (simp add: inode_ok_def new_inode_def)

lemma find_free_inode_bound:
  assumes "bl_ok bl"
  obtains m where "find_free_inode stk bl 0 = Inr m" and "m < 1024"
    and "\<exists>y<1024. \<not> in_use bl y \<Longrightarrow> \<not> in_use bl m \<and> (\<forall>y<m. in_use bl y)"
proof (cases "\<exists>y<1024. \<not> in_use bl y")
  case True
  define m where "m = (LEAST y. \<not> in_use bl y)"
  from True obtain y where y: "y < 1024" "\<not> in_use bl y" by blast
  have m: "\<not> in_use bl m" unfolding m_def using y(2) by (rule LeastI)
  have "m \<le> y" unfolding m_def using y(2) by (rule Least_le)
  with y(1) have lt: "m < 1024" by simp
  have least: "in_use bl z" if "z < m" for z
    using not_less_Least [of z "\<lambda>y. \<not> in_use bl y"] that unfolding m_def by blast
  have "find_free_inode stk bl 0 = Inr m"
    by (rule find_free_inode_found [OF assms _ lt m]) (simp_all add: least)
  from that [OF this lt] m least show thesis by blast
next
  case False
  then have "find_free_inode stk bl 0 = Inr 0"
    using find_free_inode_full [OF assms, of 0 stk] by blast
  with that [of 0] False show thesis by auto
qed

lemma alloc_inode_at:
  assumes "bl_ok bl" and "find_free_inode stk bl 0 = Inr m" and "m < 1024"
  shows "\<exists>bl'. alloc_inode stk ts bl ty = Inr (word_of_nat m, bl') \<and> bl_ok bl' \<and>
           (\<forall>j<1024. inode_at bl' j = (if j = m then new_inode ts ty else inode_at bl j)) \<and>
           free_set bl' = free_set bl \<and>
           (\<forall>b. b \<notin> inode_blocks \<longrightarrow> contents bl' b = contents bl b)"
proof -
  have u: "unat (word_of_nat m :: u32) = m" using assms(3) by simp
  with put_inode_spec [OF assms(1), of "word_of_nat m" "new_inode ts ty" stk] assms(2,3)
  show ?thesis unfolding alloc_inode_def u by auto
qed

lemma free_inode_spec:
  assumes "bl_ok bl" and "in_use bl (unat inum)"
  shows "\<exists>bl'. free_inode stk bl inum = Inr bl' \<and> bl_ok bl' \<and>
           (\<forall>j<1024. inode_at bl' j =
              (if j = unat inum then (inode_at bl j)\<lparr>i_type := 0\<rparr> else inode_at bl j)) \<and>
           free_set bl' = free_set bl \<and>
           (\<forall>b. b \<notin> inode_blocks \<longrightarrow> contents bl' b = contents bl b)"
proof -
  have "unat inum < 1024" using assms(2) by (simp add: in_use_def)
  moreover have "inode_ok ((inode_at bl (unat inum))\<lparr>i_type := 0\<rparr>)"
    using inode_at_ok [of bl "unat inum"] by (simp add: inode_ok_def)
  ultimately have "\<exists>bl'. put_inode stk bl inum (Some ((inode_at bl (unat inum))\<lparr>i_type := 0\<rparr>)) = Inr bl' \<and>
      bl_ok bl' \<and>
      (\<forall>j<1024. inode_at bl' j =
         (if j = unat inum then (inode_at bl (unat inum))\<lparr>i_type := 0\<rparr> else inode_at bl j)) \<and>
      free_set bl' = free_set bl \<and> (\<forall>b. b \<notin> inode_blocks \<longrightarrow> contents bl' b = contents bl b)"
    by (rule put_inode_spec [OF assms(1)])
  then show ?thesis
    using get_inode_spec [OF assms(1), of stk inum] assms(2) by (fastforce simp: free_inode_def)
qed

lemma free_inode_absent:
  assumes "bl_ok bl" and "\<not> in_use bl (unat inum)"
  shows "free_inode stk bl inum = Inl Null_deref"
  using get_inode_spec [OF assms(1), of stk inum] assms(2) by (simp add: free_inode_def)

definition attr_of :: "inode \<Rightarrow> attr" where
  "attr_of ino = \<lparr>a_type = scast (i_type ino), a_atime = i_atime ino, a_mtime = i_mtime ino,
     a_ctime = i_ctime ino, a_size = i_size ino\<rparr>"

lemma il_getattr_spec:
  assumes "bl_ok bl"
  shows "il_getattr stk bl inum a =
           Inr (if in_use bl (unat inum) then attr_of (inode_at bl (unat inum)) else a)"
  using get_inode_spec [OF assms, of stk inum]
  by (cases a) (simp add: il_getattr_def attr_of_def)

subsection \<open>A fresh file system\<close>

lemma new_block_layer_facts:
  "bl_ok (new_block_layer False)" "free_set (new_block_layer m0) = data_blocks"
  "contents (new_block_layer m0) b = (\<lambda>_. 0)" "\<not> in_use (new_block_layer m0) i"
  by (auto simp: new_block_layer_def bl_ok_def free_set_def used_def new_disk_def contents_def
      in_use_def inode_at_def decode_inode_def)

lemma new_inode_layer_spec:
  "\<exists>bl. new_inode_layer stk ts False = Inr \<lparr>il_bm = bl, il_rwlocks = (\<lambda>_. new_a4_rwlock)\<rparr> \<and>
     bl_ok bl \<and> free_set bl = data_blocks \<and>
     (\<forall>j<1024. inode_at bl j = (if j = 0 then new_inode ts 1 else decode_inode (\<lambda>_. 0) 0))"
proof -
  let ?b = "new_block_layer False"
  have "find_free_inode stk ?b 0 = Inr 0"
    using new_block_layer_facts by (intro find_free_inode_found) simp_all
  from alloc_inode_at [OF new_block_layer_facts(1) this, of ts 1]
  obtain bl where "alloc_inode stk ts ?b 1 = Inr (0, bl)" "bl_ok bl"
    "\<forall>j<1024. inode_at bl j = (if j = 0 then new_inode ts 1 else inode_at ?b j)"
    "free_set bl = free_set ?b" by auto
  moreover have "inode_at ?b j = decode_inode (\<lambda>_. 0) 0" for j
    by (simp add: inode_at_def new_block_layer_facts(3) decode_inode_def)
  ultimately show ?thesis
    by (simp add: new_inode_layer_def new_block_layer_facts(2))
qed

subsection \<open>Properties\<close>

text \<open>
  C10: A stored inode is what the next lookup of its number returns (nothing, if its type is
  zero), and lookups of every other number, in the same block or not, return what they did.
\<close>

theorem inode_table_roundtrip:
  assumes "bl_ok bl" and "unat i < INODE_NUM" and "inode_ok ino"
  shows "\<exists>bl'. put_inode stk bl i (Some ino) = Inr bl' \<and>
    get_inode stk' bl' i = Inr (if i_type ino \<noteq> 0 then Some ino else None) \<and>
    (\<forall>j. j \<noteq> i \<longrightarrow> get_inode stk' bl' j = get_inode stk' bl j)"
proof -
  obtain bl' where p: "put_inode stk bl i (Some ino) = Inr bl'" "bl_ok bl'"
    and "get_inode stk bl' i = Inr (if i_type ino \<noteq> 0 then Some ino else None)"
    and "\<And>j. j \<noteq> i \<Longrightarrow> get_inode stk bl' j = get_inode stk bl j"
    by (rule it.get_after_put [OF assms]) (rule that)
  then show ?thesis
    using get_inode_spec [OF p(2), of stk] get_inode_spec [OF p(2), of stk']
      get_inode_spec [OF assms(1), of stk] get_inode_spec [OF assms(1), of stk'] by metis
qed

theorem inode_table_roundtrip_witness:
  "\<exists>bl'. put_inode (\<lambda>_ _. 1) (new_block_layer False) 1023 (Some (new_inode (1, 2, 3) 2)) = Inr bl' \<and>
     get_inode (\<lambda>_ _. 2) bl' 1023 = Inr (Some (new_inode (1, 2, 3) 2)) \<and>
     get_inode (\<lambda>_ _. 2) bl' 1022 = Inr None"
proof -
  have "unat (1023 :: u32) < INODE_NUM" by simp
  moreover have "get_inode (\<lambda>_ _. 2) (new_block_layer False) 1022 = Inr None"
    using get_inode_spec [OF new_block_layer_facts(1)] new_block_layer_facts(4) by simp
  moreover have "i_type (new_inode (1, 2, 3) 2) \<noteq> 0" by (simp add: new_inode_def)
  ultimately show ?thesis
    using inode_table_roundtrip [OF new_block_layer_facts(1) _ new_inode_ok, of 1023 "\<lambda>_ _. 1" "(1, 2, 3)" 2 "\<lambda>_ _. 2"]
    by auto
qed

text \<open>
  The 56 bytes of an inode structure decode to the inode that was encoded, and encoding one
  slot of a block leaves the other slots readable as before.
\<close>

theorem inode_codec_roundtrip:
  assumes "inode_ok ino"
  shows "decode_inode (encode_inode b (inode_slot i) ino) (inode_slot j) =
    (if inode_slot i = inode_slot j then ino else decode_inode b (inode_slot j))"
proof (cases "inode_slot i = inode_slot j")
  case True
  with decode_encode_same [OF assms] show ?thesis by simp
next
  case False
  then have "i mod 9 < j mod 9 \<or> j mod 9 < i mod 9" by (auto simp: inode_slot_def)
  then have "inode_slot i + 56 \<le> inode_slot j \<or> inode_slot j + 56 \<le> inode_slot i"
    by (auto simp: inode_slot_def)
  with decode_encode_other [OF assms] False show ?thesis by simp
qed

theorem inode_codec_roundtrip_witness:
  "decode_inode (encode_inode (\<lambda>_. 9) (inode_slot 4) (new_inode (1, 2, 3) 2)) (inode_slot 4) = new_inode (1, 2, 3) 2"
  using inode_codec_roundtrip [OF new_inode_ok, of "\<lambda>_. 9" 4 "(1, 2, 3)" 2 4] by simp

text \<open>
  C12: While an inode is unused, \<open>alloc_inode\<close> returns the lowest unused number, stores a fresh
  inode of the given type with size zero there, and changes no other inode and no data block.
\<close>

theorem alloc_inode_fresh:
  assumes "bl_ok bl" and "y < 1024" and "\<not> in_use bl y"
  shows "\<exists>m bl'. alloc_inode stk ts bl ty = Inr (m, bl') \<and> \<not> in_use bl (unat m) \<and>
    (\<forall>z < unat m. in_use bl z) \<and> unat m < 1024 \<and> inode_at bl' (unat m) = new_inode ts ty \<and>
    (\<forall>j<1024. j \<noteq> unat m \<longrightarrow> inode_at bl' j = inode_at bl j) \<and> free_set bl' = free_set bl \<and>
    (\<forall>b \<in> data_blocks. contents bl' b = contents bl b)"
proof -
  have "\<exists>y<1024. \<not> in_use bl y" using assms(2,3) by blast
  then obtain m where m: "find_free_inode stk bl 0 = Inr m" "m < 1024" "\<not> in_use bl m" "\<forall>z<m. in_use bl z"
    using find_free_inode_bound [OF assms(1), of stk] by metis
  have u: "unat (word_of_nat m :: u32) = m" using m(2) by simp
  obtain bl' where al: "alloc_inode stk ts bl ty = Inr (word_of_nat m, bl')"
      "\<forall>j<1024. inode_at bl' j = (if j = m then new_inode ts ty else inode_at bl j)"
      "free_set bl' = free_set bl" "\<forall>b. b \<notin> inode_blocks \<longrightarrow> contents bl' b = contents bl b"
    using alloc_inode_at [OF assms(1) m(1,2), of ts ty] by blast
  have "\<forall>b \<in> data_blocks. contents bl' b = contents bl b" using al(4) inode_blocks_apart(2) by blast
  with al m show ?thesis by (intro exI [of _ "word_of_nat m"] exI [of _ bl']) (simp add: u)
qed

theorem alloc_inode_fresh_witness:
  "\<exists>m bl'. alloc_inode (\<lambda>_ _. 0) (1, 2, 3) (new_block_layer False) 2 = Inr (m, bl') \<and> unat m = 0 \<and>
     inode_at bl' 0 = new_inode (1, 2, 3) 2"
proof -
  obtain m bl' where r: "alloc_inode (\<lambda>_ _. 0) (1, 2, 3) (new_block_layer False) 2 = Inr (m, bl')"
      "\<forall>z < unat m. in_use (new_block_layer False) z" "inode_at bl' (unat m) = new_inode (1, 2, 3) 2"
    using alloc_inode_fresh [OF new_block_layer_facts(1), of 0 "\<lambda>_ _. 0" "(1, 2, 3)" 2]
      new_block_layer_facts(4) by auto
  from r(2) new_block_layer_facts(4) have "unat m = 0" by blast
  with r show ?thesis by auto
qed

text \<open>
  C24: With all 1024 inodes in use \<open>alloc_inode\<close> does not fail: it returns 0 and replaces inode 0,
  the root directory, by an empty inode of the new type.
\<close>

theorem alloc_inode_full_overwrites_root:
  assumes "bl_ok bl" and "\<And>y. y < 1024 \<Longrightarrow> in_use bl y"
  shows "\<exists>bl'. alloc_inode stk ts bl ty = Inr (0, bl') \<and> inode_at bl' 0 = new_inode ts ty"
proof -
  have "find_free_inode stk bl 0 = Inr 0" using assms by (intro find_free_inode_full) auto
  from alloc_inode_at [OF assms(1) this, of ts ty] show ?thesis by auto
qed

theorem alloc_inode_full_overwrites_root_witness:
  "\<exists>bl bl'. (\<forall>y<1024. in_use bl y) \<and> alloc_inode (\<lambda>_ _. 0) (1, 2, 3) bl 2 = Inr (0, bl') \<and>
     i_size (inode_at bl 0) \<noteq> 0 \<and> inode_at bl' 0 = new_inode (1, 2, 3) 2"
proof -
  let ?bl = "(new_block_layer False)\<lparr>bl_d := \<lparr>blocks = (\<lambda>_ _. 1)\<rparr>\<rparr>"
  have ok: "bl_ok ?bl" by (simp add: bl_ok_def new_block_layer_def)
  have "i_type (inode_at ?bl y) = get16 (\<lambda>_. 1) 0" for y
    by (simp add: inode_at_def decode_inode_def contents_def get16_def)
  moreover have "get16 (\<lambda>_. 1) 0 \<noteq> 0" by (simp add: get16_def)
  ultimately have use: "in_use ?bl y" if "y < 1024" for y using that by (simp add: in_use_def)
  moreover have "i_size (inode_at ?bl 0) \<noteq> 0"
    by (simp add: inode_at_def decode_inode_def contents_def get32_def)
  ultimately show ?thesis
    using alloc_inode_full_overwrites_root [OF ok, of "\<lambda>_ _. 0" "(1, 2, 3)" 2] by blast
qed

end
