(* ===== verification/File_IO.thy ===== *)
theory File_IO
  imports Inode
begin

text \<open>
  The file operations of \<open>inode_layer.cc\<close>: \<open>read_file\<close>, \<open>write_file\<close> and \<open>remove_file\<close>,
  loop by loop. This theory has the definitions; \<open>File_Read\<close>, \<open>File_Write\<close> and
  \<open>File_Remove\<close> have their properties.
\<close>

subsection \<open>The per-inode locks\<close>

definition il_reader_enter :: "tid \<Rightarrow> inode_layer \<Rightarrow> u32 \<Rightarrow> fault + inode_layer" where
  "il_reader_enter t il inum =
     (if unat inum \<ge> INODE_NUM then Inl Array_bounds
      else rbind (reader_enter t (il_rwlocks il (unat inum))) (\<lambda>l.
             Inr (il\<lparr>il_rwlocks := (il_rwlocks il)(unat inum := l)\<rparr>)))"

definition il_reader_exit :: "inode_layer \<Rightarrow> u32 \<Rightarrow> fault + inode_layer" where
  "il_reader_exit il inum =
     rbind (reader_exit (il_rwlocks il (unat inum))) (\<lambda>l.
       Inr (il\<lparr>il_rwlocks := (il_rwlocks il)(unat inum := l)\<rparr>))"

definition il_writer_enter :: "tid \<Rightarrow> inode_layer \<Rightarrow> u32 \<Rightarrow> fault + inode_layer" where
  "il_writer_enter t il inum =
     (if unat inum \<ge> INODE_NUM then Inl Array_bounds
      else rbind (writer_enter t (il_rwlocks il (unat inum))) (\<lambda>l.
             Inr (il\<lparr>il_rwlocks := (il_rwlocks il)(unat inum := l)\<rparr>)))"

definition il_writer_exit :: "inode_layer \<Rightarrow> u32 \<Rightarrow> inode_layer" where
  "il_writer_exit il inum =
     il\<lparr>il_rwlocks := (il_rwlocks il)(unat inum := writer_exit (il_rwlocks il (unat inum)))\<rparr>"

subsection \<open>Reading\<close>

text \<open>
  The loop of \<open>read_file\<close>: \<open>ind\<close> is the local \<open>indirect_block\<close> behind \<open>ptr\<close>, and the
  counters are \<open>remaining_bytes_to_be_read\<close>, \<open>num_bytes_already_read\<close>, \<open>index\<close> and
  \<open>indirect_index\<close>.
\<close>

function read_loop ::
    "stack \<Rightarrow> block_layer \<Rightarrow> inode \<Rightarrow> buf \<Rightarrow> int \<Rightarrow> int \<Rightarrow> nat \<Rightarrow> nat \<Rightarrow> buf \<Rightarrow> fault + buf" where
  "read_loop stk bl ino ind remaining already index indirect_index buf =
     (if remaining > 0 then
        let m = min (int BLOCK_SIZE) remaining in
        if already < int (8 * BLOCK_SIZE) then
          if index < length (i_blocks ino) then
            rbind (bl_read_block bl (i_blocks ino ! index) (stk (Full_direct_buffer index))) (\<lambda>full.
              read_loop stk bl ino ind (remaining - m) (already + m) (index + 1) indirect_index
                (memcpy buf (index * BLOCK_SIZE) full 0 (nat m)))
          else Inl Array_bounds
        else
          if indirect_index < NINDIRECT then
            rbind (bl_read_block bl (get32 ind (4 * indirect_index))
                    (stk (Full_indirect_buffer index))) (\<lambda>full.
              read_loop stk bl ino ind (remaining - m) (already + m) (index + 1) (indirect_index + 1)
                (memcpy buf (index * BLOCK_SIZE) full 0 (nat m)))
          else Inl Array_bounds
      else Inr buf)"
  by pat_completeness auto
termination
  by (relation "measure (\<lambda>(stk, bl, ino, ind, remaining, _). nat remaining)") auto

declare read_loop.simps [simp del]

text \<open>
  The out-parameters \<open>char **buf_out\<close> and \<open>int *size\<close> are options, \<open>None\<close> for a null
  pointer; inside, \<open>buf option\<close> is the \<open>char *\<close> they point to. The result is what the
  caller's variables hold afterwards, with the new state. \<open>now\<close> is what \<open>time(NULL)\<close> returns.
\<close>

type_synonym read_result = "buf option option \<times> int option \<times> inode_layer"

definition read_file ::
    "stack \<Rightarrow> tid \<Rightarrow> u64 \<Rightarrow> inode_layer \<Rightarrow> u32 \<Rightarrow> buf option option \<Rightarrow> int option \<Rightarrow>
     fault + read_result" where
  "read_file stk t now il inum buf_out sz =
     rbind (il_reader_enter t il inum) (\<lambda>il.
     if buf_out = None \<or> sz = None then
       rbind (il_reader_exit il inum) (\<lambda>il. Inr (buf_out, sz, il))
     else
       rbind (get_inode stk (il_bm il) inum) (\<lambda>r.
       case r of
         None \<Rightarrow> rbind (il_reader_exit il inum) (\<lambda>il. Inr (buf_out, sz, il))
       | Some ino0 \<Rightarrow>
           let ino = ino0\<lparr>i_atime := ucast now\<rparr> in
           rbind (put_inode stk (il_bm il) inum (Some ino)) (\<lambda>bl.
           let n = sint (i_size ino) in
           rbind (bl_read_block bl (i_blocks ino ! 8) (stk Indirect_block)) (\<lambda>ind.
           rbind (read_loop stk bl ino ind n 0 0 0 (stk Malloc_buf)) (\<lambda>buf.
           rbind (il_reader_exit (il\<lparr>il_bm := bl\<rparr>) inum) (\<lambda>il.
             Inr (Some (Some buf), Some n, il)))))))"

subsection \<open>Writing\<close>

text \<open>The local variables of \<open>write_file\<close>, and with them the block layer it works on.\<close>

record write_locals =
  w_ino :: inode
  remaining_bytes_to_write :: int
  num_bytes_already_written :: int
  need_to_overwrite_indirect :: bool
  final_indirect_block :: buf
  already_allocated_indirect :: bool
  w_index :: nat
  indirect_index :: nat

record write_state = write_locals +
  w_bl :: block_layer

definition free_direct_blocks :: "stack \<Rightarrow> block_layer \<Rightarrow> u32 list \<Rightarrow> fault + block_layer" where
  "free_direct_blocks stk bl ids =
     foldl (\<lambda>r b. rbind r (\<lambda>bl. free_block (stk Scratch) bl b)) (Inr bl) ids"

text \<open>\<open>MIN(BLOCK_SIZE, remaining_bytes_to_write)\<close>.\<close>

definition chunk :: "'a write_locals_scheme \<Rightarrow> int" where
  "chunk w = min (int BLOCK_SIZE) (remaining_bytes_to_write w)"

text \<open>A local 512-byte array after \<open>memcpy(a, buf + index * BLOCK_SIZE, MIN(...))\<close>.\<close>

definition fill_buffer :: "buf \<Rightarrow> buf \<Rightarrow> 'a write_locals_scheme \<Rightarrow> buf" where
  "fill_buffer a buf w = memcpy a 0 buf (w_index w * BLOCK_SIZE) (nat (chunk w))"

definition write_direct :: "stack \<Rightarrow> buf \<Rightarrow> write_state \<Rightarrow> fault + write_state" where
  "write_direct stk buf w =
     (let direct_buffer = fill_buffer (stk (Direct_buffer (w_index w))) buf w in
      rbind (alloc_block (stk Scratch) (w_bl w)) (\<lambda>(block_id, bl).
        if w_index w < length (i_blocks (w_ino w)) then
          rbind (bl_write_block bl block_id direct_buffer) (\<lambda>bl.
            Inr (w\<lparr>w_bl := bl,
                   w_ino := (w_ino w)\<lparr>i_blocks := (i_blocks (w_ino w))[w_index w := block_id]\<rparr>\<rparr>))
        else Inl Array_bounds))"

text \<open>A new data block, its id stored in \<open>final_indirect_block\<close> (lines 317-322 and 329-334).\<close>

definition write_new_indirect :: "stack \<Rightarrow> buf \<Rightarrow> write_state \<Rightarrow> fault + write_state" where
  "write_new_indirect stk buf w =
     (let indirect_buffer = fill_buffer (stk (Indirect_buffer (w_index w))) buf w in
      rbind (alloc_block (stk Scratch) (w_bl w)) (\<lambda>(block_id, bl).
      rbind (bl_write_block bl block_id indirect_buffer) (\<lambda>bl.
        if indirect_index w < NINDIRECT then
          Inr (w\<lparr>w_bl := bl,
                 final_indirect_block := put32 (final_indirect_block w) (4 * indirect_index w) block_id\<rparr>)
        else Inl Array_bounds)))"

text \<open>The old data block is written again (lines 340-348 and 356-363).\<close>

definition write_old_indirect :: "stack \<Rightarrow> buf \<Rightarrow> write_state \<Rightarrow> fault + write_state" where
  "write_old_indirect stk buf w =
     rbind (bl_read_block (w_bl w) (i_blocks (w_ino w) ! 8) (stk (Indirect_block_at (w_index w)))) (\<lambda>ind.
       let temp_buffer = fill_buffer (stk (Temp_buffer (w_index w))) buf w in
       if indirect_index w < NINDIRECT then
         let ptr = get32 ind (4 * indirect_index w) in
         rbind (bl_write_block (w_bl w) ptr temp_buffer) (\<lambda>bl.
           Inr (w\<lparr>w_bl := bl,
                  final_indirect_block := put32 (final_indirect_block w) (4 * indirect_index w) ptr\<rparr>))
       else Inl Array_bounds)"

definition alloc_indirect :: "stack \<Rightarrow> write_state \<Rightarrow> fault + write_state" where
  "alloc_indirect stk w =
     (if already_allocated_indirect w then Inr w
      else rbind (alloc_block (stk Scratch) (w_bl w)) (\<lambda>(indirect_block_id, bl).
             Inr (w\<lparr>w_bl := bl,
                    w_ino := (w_ino w)\<lparr>i_blocks := (i_blocks (w_ino w))[8 := indirect_block_id]\<rparr>,
                    already_allocated_indirect := True\<rparr>)))"

definition write_indirect :: "stack \<Rightarrow> buf \<Rightarrow> int \<Rightarrow> int \<Rightarrow> write_state \<Rightarrow> fault + write_state" where
  "write_indirect stk buf sz old_inode_size w0 =
     (let w = w0\<lparr>need_to_overwrite_indirect := True\<rparr> in
      rbind
        (if sz \<ge> old_inode_size then
           if old_inode_size \<le> int (8 * BLOCK_SIZE) then
             rbind (alloc_indirect stk w) (write_new_indirect stk buf)
           else if num_bytes_already_written w \<ge> old_inode_size then
             write_new_indirect stk buf w
           else write_old_indirect stk buf w
         else write_old_indirect stk buf w)
        (\<lambda>w. Inr (w\<lparr>indirect_index := indirect_index w + 1\<rparr>)))"

text \<open>
  The end of the loop body. The source lowers \<open>remaining_bytes_to_write\<close> first and then adds
  \<open>MIN(BLOCK_SIZE, remaining_bytes_to_write)\<close>, with the new value, to the bytes written.
\<close>

definition advance :: "'a write_locals_scheme \<Rightarrow> 'a write_locals_scheme" where
  "advance w =
     (let w1 = w\<lparr>remaining_bytes_to_write := remaining_bytes_to_write w - chunk w\<rparr> in
      w1\<lparr>num_bytes_already_written := num_bytes_already_written w1 + chunk w1,
         w_index := w_index w1 + 1\<rparr>)"

definition write_body :: "stack \<Rightarrow> buf \<Rightarrow> int \<Rightarrow> int \<Rightarrow> write_state \<Rightarrow> fault + write_state" where
  "write_body stk buf sz old_inode_size w =
     rbind (if num_bytes_already_written w < int (8 * BLOCK_SIZE) then write_direct stk buf w
            else write_indirect stk buf sz old_inode_size w)
       (\<lambda>w. Inr (advance w))"

lemma write_direct_rem:
  "write_direct stk buf w = Inr w' \<Longrightarrow> remaining_bytes_to_write w' = remaining_bytes_to_write w"
  by (auto simp: write_direct_def rbind_Inr_iff split: if_splits)

lemma write_indirect_rem:
  "write_indirect stk buf sz old w = Inr w' \<Longrightarrow>
     remaining_bytes_to_write w' = remaining_bytes_to_write w"
  by (auto simp: write_indirect_def write_new_indirect_def write_old_indirect_def alloc_indirect_def
      rbind_Inr_iff Let_def split: if_splits)

lemma write_body_rem:
  assumes "write_body stk buf sz old w = Inr w'"
  shows "remaining_bytes_to_write w' =
    remaining_bytes_to_write w - min 512 (remaining_bytes_to_write w)"
  using assms
  by (auto simp: write_body_def rbind_Inr_iff advance_def chunk_def Let_def
      dest!: write_direct_rem write_indirect_rem split: if_splits)

function write_loop :: "stack \<Rightarrow> buf \<Rightarrow> int \<Rightarrow> int \<Rightarrow> write_state \<Rightarrow> fault + write_state" where
  "write_loop stk buf sz old w =
     (if remaining_bytes_to_write w > 0
      then rbind (write_body stk buf sz old w) (write_loop stk buf sz old)
      else Inr w)"
  by pat_completeness auto
termination
proof (relation "measure (\<lambda>(stk, buf, sz, old, w). nat (remaining_bytes_to_write w))")
  fix stk buf sz old w w'
  assume "0 < remaining_bytes_to_write w" "write_body stk buf sz old w = Inr w'"
  then show "((stk, buf, sz, old, w'), stk, buf, sz, old, w)
      \<in> measure (\<lambda>(stk, buf, sz, old, w). nat (remaining_bytes_to_write w))"
    by (simp add: write_body_rem)
qed simp

declare write_loop.simps [simp del]

text \<open>\<open>while (number_to_free > 0)\<close> over the old pointers, from \<open>indirect_index\<close> on.\<close>

function free_indirect_tail :: "stack \<Rightarrow> block_layer \<Rightarrow> buf \<Rightarrow> nat \<Rightarrow> int \<Rightarrow> fault + block_layer" where
  "free_indirect_tail stk bl ind k number_to_free =
     (if number_to_free > 0 then
        if k < NINDIRECT then
          rbind (free_block (stk Scratch) bl (get32 ind (4 * k))) (\<lambda>bl.
            free_indirect_tail stk bl ind (k + 1) (number_to_free - int BLOCK_SIZE))
        else Inl Array_bounds
      else Inr bl)"
  by pat_completeness auto
termination
  by (relation "measure (\<lambda>(stk, bl, ind, k, n). nat n)") auto

declare free_indirect_tail.simps [simp del]

definition start_write :: "stack \<Rightarrow> block_layer \<Rightarrow> inode \<Rightarrow> int \<Rightarrow> write_state" where
  "start_write stk bl ino sz =
     \<lparr>w_ino = ino, remaining_bytes_to_write = sz, num_bytes_already_written = 0,
      need_to_overwrite_indirect = False, final_indirect_block = stk Final_indirect_block,
      already_allocated_indirect = False, w_index = 0, indirect_index = 0, w_bl = bl\<rparr>"

text \<open>What follows the loop, lines 375 to 401: the block layer and the inode to store.\<close>

definition finish_write ::
    "stack \<Rightarrow> int \<Rightarrow> int \<Rightarrow> write_state \<Rightarrow> fault + (block_layer \<times> inode)" where
  "finish_write stk sz old w =
     rbind
       (if need_to_overwrite_indirect w \<and> sz < old then
          rbind (bl_read_block (w_bl w) (i_blocks (w_ino w) ! 8) (stk Indirect_block_free)) (\<lambda>ind.
            free_indirect_tail stk (w_bl w) ind (indirect_index w) (old - sz))
        else Inr (w_bl w)) (\<lambda>bl.
     rbind
       (if need_to_overwrite_indirect w then
          bl_write_block bl (i_blocks (w_ino w) ! 8) (final_indirect_block w)
        else Inr bl) (\<lambda>bl.
     rbind
       (if sz \<le> int (8 * BLOCK_SIZE) then free_block (stk Scratch) bl (i_blocks (w_ino w) ! 8)
        else Inr bl) (\<lambda>bl.
       Inr (bl, (w_ino w)\<lparr>i_size := word_of_int sz\<rparr>))))"

text \<open>The body of \<open>write_file\<close> between taking and releasing the writer lock.\<close>

definition write_inode :: "stack \<Rightarrow> block_layer \<Rightarrow> u32 \<Rightarrow> inode \<Rightarrow> buf \<Rightarrow> int \<Rightarrow> fault + block_layer" where
  "write_inode stk bl inum ino buf sz =
     rbind (free_direct_blocks stk bl (take 8 (i_blocks ino))) (\<lambda>bl.
     let old = sint (i_size ino) in
     rbind (write_loop stk buf sz old (start_write stk bl ino sz)) (\<lambda>w.
     rbind (finish_write stk sz old w) (\<lambda>(bl, ino).
       put_inode stk bl inum (Some ino))))"

definition write_file ::
    "stack \<Rightarrow> tid \<Rightarrow> inode_layer \<Rightarrow> u32 \<Rightarrow> buf \<Rightarrow> int \<Rightarrow> fault + inode_layer" where
  "write_file stk t il inum buf sz =
     rbind (il_writer_enter t il inum) (\<lambda>il.
     if sz < 0 \<or> nat sz > BLOCK_SIZE * MAXFILE then Inr (il_writer_exit il inum)
     else
       rbind (get_inode stk (il_bm il) inum) (\<lambda>r.
       case r of
         None \<Rightarrow> Inr (il_writer_exit il inum)
       | Some ino \<Rightarrow>
           rbind (write_inode stk (il_bm il) inum ino buf sz) (\<lambda>bl.
             Inr (il_writer_exit (il\<lparr>il_bm := bl\<rparr>) inum))))"

subsection \<open>Removing\<close>

function remove_direct :: "stack \<Rightarrow> block_layer \<Rightarrow> inode \<Rightarrow> nat \<Rightarrow> int \<Rightarrow> fault + (block_layer \<times> int)" where
  "remove_direct stk bl ino x current_size =
     (if x < 8 then
        rbind (free_block (stk Scratch) bl (i_blocks ino ! x)) (\<lambda>bl.
          if current_size - int BLOCK_SIZE < INT_MIN then Inl Signed_overflow
          else remove_direct stk bl ino (x + 1) (current_size - int BLOCK_SIZE))
      else Inr (bl, current_size))"
  by pat_completeness auto
termination
  by (relation "measure (\<lambda>(stk, bl, ino, x, c). 8 - x)") auto

declare remove_direct.simps [simp del]

function remove_indirect :: "stack \<Rightarrow> block_layer \<Rightarrow> buf \<Rightarrow> nat \<Rightarrow> nat \<Rightarrow> fault + block_layer" where
  "remove_indirect stk bl ind x num_indirect_blocks =
     (if x < num_indirect_blocks then
        if x < NINDIRECT then
          rbind (free_block (stk Scratch) bl (get32 ind (4 * x))) (\<lambda>bl.
            remove_indirect stk bl ind (x + 1) num_indirect_blocks)
        else Inl Array_bounds
      else Inr bl)"
  by pat_completeness auto
termination
  by (relation "measure (\<lambda>(stk, bl, ind, x, n). n - x)") auto

declare remove_indirect.simps [simp del]

text \<open>\<open>num_indirect_blocks\<close> is used only where \<open>current_size\<close> is positive.\<close>

text \<open>From the size to the last \<open>free_block\<close>.\<close>

definition remove_blocks :: "stack \<Rightarrow> block_layer \<Rightarrow> inode \<Rightarrow> fault + block_layer" where
  "remove_blocks stk bl ino =
     rbind (remove_direct stk bl ino 0 (sint (i_size ino))) (\<lambda>(bl, current_size).
       if current_size > 0 then
         rbind (bl_read_block bl (i_blocks ino ! 8) (stk Indirect_block)) (\<lambda>ind.
         rbind (remove_indirect stk bl ind 0 (nat (current_size div int BLOCK_SIZE + 1))) (\<lambda>bl.
           free_block (stk Scratch) bl (i_blocks ino ! 8)))
       else Inr bl)"

definition remove_file :: "stack \<Rightarrow> block_layer \<Rightarrow> u32 \<Rightarrow> fault + block_layer" where
  "remove_file stk bl inum =
     rbind (get_inode stk bl inum) (\<lambda>r.
     case r of
       None \<Rightarrow> Inr bl
     | Some ino \<Rightarrow> rbind (remove_blocks stk bl ino) (\<lambda>bl. free_inode stk bl inum))"

end
