(* ===== verification/File_Read.thy ===== *)
theory File_Read
  imports File_IO
begin

text \<open>
  What \<open>read_file\<close> returns. \<open>file_data\<close> is the byte sequence an inode stands for on a disk,
  through its direct pointers and its indirect block; \<open>read_file\<close> computes exactly its first
  \<open>size\<close> bytes, changes only the access time, and leaves the lock free on every path.
\<close>

subsection \<open>The bytes of a file\<close>

definition nblk :: "nat \<Rightarrow> nat" where
  "nblk n = (n + 511) div 512"

definition file_size :: "inode \<Rightarrow> nat" where
  "file_size ino = unat (i_size ino)"

definition file_block :: "block_layer \<Rightarrow> inode \<Rightarrow> nat \<Rightarrow> u32" where
  "file_block bl ino k =
     (if k < 8 then i_blocks ino ! k
      else get32 (contents bl (unat (i_blocks ino ! 8))) (4 * (k - 8)))"

definition file_data :: "block_layer \<Rightarrow> inode \<Rightarrow> buf" where
  "file_data bl ino i = contents bl (unat (file_block bl ino (i div 512))) (i mod 512)"

text \<open>
  An inode \<open>read_file\<close> can follow: nine pointers, a legal size, ids of data blocks for all
  blocks in use, and a ninth pointer that is not the id one past the end of the disk.
\<close>

definition readable :: "block_layer \<Rightarrow> inode \<Rightarrow> bool" where
  "readable bl ino \<longleftrightarrow>
     inode_ok ino \<and> file_size ino \<le> BLOCK_SIZE * MAXFILE \<and>
     (\<forall>k < nblk (file_size ino). unat (file_block bl ino k) \<in> data_blocks) \<and>
     unat (i_blocks ino ! 8) \<noteq> BLOCK_NUM \<and>
     (file_size ino > 8 * BLOCK_SIZE \<longrightarrow> unat (i_blocks ino ! 8) \<in> data_blocks)"

lemma nblk_less_iff: "k < nblk n \<longleftrightarrow> 512 * k < n"
  by (auto simp: nblk_def)

lemma nblk_le: "n \<le> 512 * m \<Longrightarrow> nblk n \<le> m"
  by (auto simp: nblk_def)

lemma file_size_sint: "file_size ino \<le> 69632 \<Longrightarrow> sint (i_size ino) = int (file_size ino)"
  by (simp add: file_size_def sint_small)

subsection \<open>The loop\<close>

lemma read_array_byte:
  assumes "unat b < 32768"
  obtains full where "bl_read_block bl b junk = Inr full"
    and "\<And>i. i < 512 \<Longrightarrow> full i = contents bl (unat b) i"
  using bs.rd_ok [of b bl junk] assms by (auto simp: eq_upto_def)

lemma read_loop_step:
  assumes "512 * k < n" and "n \<le> 69632" and "inode_ok ino"
    and ind: "n > 4096 \<Longrightarrow> \<forall>j<128. get32 ind (4 * j) = get32 (contents bl (unat (i_blocks ino ! 8))) (4 * j)"
  shows "\<exists>junk. read_loop stk bl ino ind (int n - 512 * int k) (512 * int k) k (k - 8) buf =
     rbind (bl_read_block bl (file_block bl ino k) junk) (\<lambda>full.
       read_loop stk bl ino ind (int n - 512 * int k - min 512 (int n - 512 * int k))
         (512 * int k + min 512 (int n - 512 * int k)) (k + 1) (k + 1 - 8)
         (memcpy buf (512 * k) full 0 (min 512 (n - 512 * k))))"
proof -
  let ?r = "int n - 512 * int k"
  have pos: "?r > 0" using assms(1) by linarith
  have m: "nat (min 512 ?r) = min 512 (n - 512 * k)" using assms(1) by auto
  show ?thesis
  proof (cases "k < 8")
    case True
    then show ?thesis
      using pos m assms(3)
      by (subst read_loop.simps)
        (auto simp: file_block_def inode_ok_def Let_def mult.commute intro!: exI [of _ "stk (Full_direct_buffer k)"])
  next
    case False
    then have "k - 8 < 128" "n > 4096" "Suc (k - 8) = k - 7" using assms(1,2) by linarith+
    then show ?thesis
      using pos m False ind
      by (subst read_loop.simps)
        (auto simp: file_block_def Let_def mult.commute intro!: exI [of _ "stk (Full_indirect_buffer k)"])
  qed
qed

lemma read_loop_done: "rem \<le> 0 \<Longrightarrow> read_loop stk bl ino ind rem already k j buf = Inr buf"
  by (subst read_loop.simps) simp

text \<open>Copying block \<open>k\<close> extends the correct prefix of the result by that block.\<close>

lemma copy_block_prefix:
  assumes "\<And>i. i < 512 * k \<Longrightarrow> i < n \<Longrightarrow> buf i = data i"
    and "\<And>i. i < 512 \<Longrightarrow> full i = data (512 * k + i)"
    and "i < 512 * (k + 1)" and "i < n"
  shows "memcpy buf (512 * k) full 0 (min 512 (n - 512 * k)) i = data i"
proof (cases "i < 512 * k")
  case True
  with assms show ?thesis by (simp add: memcpy_def)
next
  case False
  with assms have "full (i - 512 * k) = data i" by simp
  with False assms show ?thesis by (simp add: memcpy_def)
qed

lemma read_loop_spec:
  assumes "readable bl ino"
    and ind: "file_size ino > 4096 \<Longrightarrow>
      \<forall>j<128. get32 ind (4 * j) = get32 (contents bl (unat (i_blocks ino ! 8))) (4 * j)"
    and "\<And>i. i < 512 * k \<Longrightarrow> i < file_size ino \<Longrightarrow> buf i = file_data bl ino i"
  shows "\<exists>buf'. read_loop stk bl ino ind (int (file_size ino) - 512 * int k) (512 * int k) k (k - 8) buf = Inr buf' \<and>
           (\<forall>i < file_size ino. buf' i = file_data bl ino i)"
  using assms(3)
proof (induction "nblk (file_size ino) - k" arbitrary: k buf)
  case 0
  then have "file_size ino \<le> 512 * k" using nblk_less_iff [of k "file_size ino"] by linarith
  with 0 show ?case by (simp add: read_loop_done)
next
  case (Suc d)
  let ?n = "file_size ino"
  have k: "512 * k < ?n" using Suc(2) nblk_less_iff [of k ?n] by linarith
  have n: "?n \<le> 69632" "inode_ok ino" using assms(1) by (auto simp: readable_def)
  obtain junk where step: "read_loop stk bl ino ind (int ?n - 512 * int k) (512 * int k) k (k - 8) buf =
     rbind (bl_read_block bl (file_block bl ino k) junk) (\<lambda>full.
       read_loop stk bl ino ind (int ?n - 512 * int k - min 512 (int ?n - 512 * int k))
         (512 * int k + min 512 (int ?n - 512 * int k)) (k + 1) (k + 1 - 8)
         (memcpy buf (512 * k) full 0 (min 512 (?n - 512 * k))))"
    using read_loop_step [OF k n ind] by blast
  have "unat (file_block bl ino k) < 32768"
    using assms(1) k nblk_less_iff [of k ?n] by (simp add: readable_def data_blocks_def)
  then obtain full where full: "bl_read_block bl (file_block bl ino k) junk = Inr full"
      "\<And>i. i < 512 \<Longrightarrow> full i = contents bl (unat (file_block bl ino k)) i"
    by (rule read_array_byte [of _ bl junk]) (rule that)
  let ?buf = "memcpy buf (512 * k) full 0 (min 512 (?n - 512 * k))"
  have pre: "?buf i = file_data bl ino i" if "i < 512 * (k + 1)" "i < ?n" for i
    using Suc(3) full(2) that by (intro copy_block_prefix) (auto simp: file_data_def)
  show ?case
  proof (cases "512 * (k + 1) < ?n")
    case True
    then have "min 512 (int ?n - 512 * int k) = 512" by simp
    then have "read_loop stk bl ino ind (int ?n - 512 * int k) (512 * int k) k (k - 8) buf =
        read_loop stk bl ino ind (int ?n - 512 * int (k + 1)) (512 * int (k + 1)) (k + 1) (k + 1 - 8) ?buf"
      using step full(1) by (simp add: algebra_simps)
    with Suc(1) [of "k + 1" ?buf] Suc(2) pre show ?thesis by simp
  next
    case False
    then have "int ?n - 512 * int k - min 512 (int ?n - 512 * int k) \<le> 0" by simp
    then have "read_loop stk bl ino ind (int ?n - 512 * int k) (512 * int k) k (k - 8) buf = Inr ?buf"
      using step full(1) by (simp add: read_loop_done)
    with pre False show ?thesis by auto
  qed
qed

subsection \<open>The whole operation\<close>

definition il_ok :: "inode_layer \<Rightarrow> bool" where
  "il_ok il \<longleftrightarrow> bl_ok (il_bm il) \<and> (\<forall>i<INODE_NUM. rw_idle (il_rwlocks il i))"

text \<open>One read of inode \<open>i\<close> lowers \<open>waitingReaders\<close> of its lock and changes no other lock.\<close>

definition after_read :: "(nat \<Rightarrow> a4_rwlock) \<Rightarrow> nat \<Rightarrow> nat \<Rightarrow> a4_rwlock" where
  "after_read ls i = ls(i := (ls i)\<lparr>waitingReaders := waitingReaders (ls i) - 1\<rparr>)"

lemma il_reader_section:
  assumes "rw_idle (il_rwlocks il (unat inum))" and "unat inum < 1024"
  obtains il1 where "il_reader_enter t il inum = Inr il1" and "il_bm il1 = il_bm il"
    and "\<And>bl. il_reader_exit (il1\<lparr>il_bm := bl\<rparr>) inum =
           Inr (il\<lparr>il_bm := bl, il_rwlocks := after_read (il_rwlocks il) (unat inum)\<rparr>)"
    and "il_reader_exit il1 inum =
           Inr (il\<lparr>il_rwlocks := after_read (il_rwlocks il) (unat inum)\<rparr>)"
proof -
  note sec = reader_section [OF assms(1), of t]
  let ?il1 = "il\<lparr>il_rwlocks := (il_rwlocks il)(unat inum := (il_rwlocks il (unat inum))
    \<lparr>waitingReaders := waitingReaders (il_rwlocks il (unat inum)) - 1, activeReaders := 1,
     rw_mutex := Some t\<rparr>)\<rparr>"
  show thesis
    by (rule that [of ?il1]) (use assms(2) sec in
      \<open>simp_all add: il_reader_enter_def il_reader_exit_def after_read_def\<close>)
qed

lemma file_data_atime [simp]:
  "file_block bl (ino\<lparr>i_atime := x\<rparr>) = file_block bl ino"
  "file_data bl (ino\<lparr>i_atime := x\<rparr>) = file_data bl ino"
  "file_size (ino\<lparr>i_atime := x\<rparr>) = file_size ino"
  by (auto simp: file_block_def file_data_def file_size_def fun_eq_iff)

lemma file_data_cong:
  assumes "\<And>b. b \<in> data_blocks \<Longrightarrow> contents bl' b = contents bl b" and "readable bl ino"
  shows "k < nblk (file_size ino) \<Longrightarrow> file_block bl' ino k = file_block bl ino k"
    and "i < file_size ino \<Longrightarrow> file_data bl' ino i = file_data bl ino i"
    and "readable bl' ino"
proof -
  have blk: "file_block bl' ino k = file_block bl ino k" if "k < nblk (file_size ino)" for k
  proof (cases "k < 8")
    case False
    with that have "file_size ino > 4096" using nblk_less_iff [of k "file_size ino"] by linarith
    with assms show ?thesis by (simp add: file_block_def readable_def)
  qed (simp add: file_block_def)
  then show "k < nblk (file_size ino) \<Longrightarrow> file_block bl' ino k = file_block bl ino k" .
  from blk assms(2) show "readable bl' ino" by (simp add: readable_def)
  show "file_data bl' ino i = file_data bl ino i" if "i < file_size ino"
  proof -
    have "512 * (i div 512) \<le> i" by simp
    with that have "i div 512 < nblk (file_size ino)" by (simp add: nblk_less_iff)
    with blk assms show ?thesis by (simp add: file_data_def readable_def)
  qed
qed

lemma readable_atime [simp]: "readable bl (ino\<lparr>i_atime := x\<rparr>) = readable bl ino"
  by (simp add: readable_def inode_ok_def)

lemma read_indirect_block:
  assumes "readable bl ino"
  obtains ind where "bl_read_block bl (i_blocks ino ! 8) junk = Inr ind"
    and "file_size ino > 4096 \<Longrightarrow>
      \<forall>j<128. get32 ind (4 * j) = get32 (contents bl (unat (i_blocks ino ! 8))) (4 * j)"
proof -
  let ?b = "i_blocks ino ! 8"
  consider "unat ?b < 32768" | "unat ?b > 32768" "\<not> file_size ino > 4096"
    using assms by (fastforce simp: readable_def data_blocks_def)
  then show thesis
  proof cases
    case 1
    then obtain ind where ind: "bl_read_block bl ?b junk = Inr ind"
        "\<And>i. i < 512 \<Longrightarrow> ind i = contents bl (unat ?b) i"
      by (rule read_array_byte [of _ bl junk]) (rule that)
    then show thesis by (intro that) (auto intro!: get32_cong)
  next
    case 2
    then show thesis using that [of junk] bs.rd_ignored [of ?b bl junk] by simp
  qed
qed

lemma read_file_spec:
  assumes "il_ok il" and "in_use (il_bm il) (unat inum)"
    and "readable (il_bm il) (inode_at (il_bm il) (unat inum))"
  shows "\<exists>buf bl'. read_file stk t now il inum (Some b0) (Some n0) =
      Inr (Some (Some buf), Some (int (file_size (inode_at (il_bm il) (unat inum)))),
           il\<lparr>il_bm := bl', il_rwlocks := after_read (il_rwlocks il) (unat inum)\<rparr>) \<and>
    (\<forall>i < file_size (inode_at (il_bm il) (unat inum)).
       buf i = file_data (il_bm il) (inode_at (il_bm il) (unat inum)) i) \<and>
    bl_ok bl' \<and> free_set bl' = free_set (il_bm il) \<and>
    (\<forall>j<1024. inode_at bl' j =
       (if j = unat inum then (inode_at (il_bm il) j)\<lparr>i_atime := ucast now\<rparr> else inode_at (il_bm il) j)) \<and>
    (\<forall>b. b \<notin> inode_blocks \<longrightarrow> contents bl' b = contents (il_bm il) b)"
proof -
  let ?bl = "il_bm il" and ?i = "unat inum"
  let ?ino0 = "inode_at ?bl ?i"
  let ?ino = "?ino0\<lparr>i_atime := ucast now\<rparr>"
  have i: "?i < 1024" and ok: "bl_ok ?bl" "rw_idle (il_rwlocks il ?i)"
    using assms(1,2) by (auto simp: in_use_def il_ok_def)
  obtain il1 where enter: "il_reader_enter t il inum = Inr il1" "il_bm il1 = ?bl"
    and exit: "\<And>bl. il_reader_exit (il1\<lparr>il_bm := bl\<rparr>) inum =
      Inr (il\<lparr>il_bm := bl, il_rwlocks := after_read (il_rwlocks il) ?i\<rparr>)"
    using il_reader_section [OF ok(2) i, of t] by metis
  have "inode_ok ?ino" using inode_at_ok [of ?bl ?i] by (simp add: inode_ok_def)
  then obtain bl' where put: "put_inode stk ?bl inum (Some ?ino) = Inr bl'" "bl_ok bl'"
      "\<forall>j<1024. inode_at bl' j = (if j = ?i then ?ino else inode_at ?bl j)"
      "free_set bl' = free_set ?bl" "\<forall>b. b \<notin> inode_blocks \<longrightarrow> contents bl' b = contents ?bl b"
    using put_inode_spec [OF ok(1) i] by blast
  have same: "contents bl' b = contents ?bl b" if "b \<in> data_blocks" for b
    using put(5) that inode_blocks_apart(2) by blast
  note cong = file_data_cong [OF same assms(3)]
  have rd: "readable bl' ?ino" using cong(3) by simp
  have sz: "sint (i_size ?ino0) = int (file_size ?ino0)"
    using assms(3) by (intro file_size_sint) (simp add: readable_def)
  obtain ind where ind: "bl_read_block bl' (i_blocks ?ino ! 8) (stk Indirect_block) = Inr ind"
      "file_size ?ino > 4096 \<Longrightarrow>
        \<forall>j<128. get32 ind (4 * j) = get32 (contents bl' (unat (i_blocks ?ino ! 8))) (4 * j)"
    by (rule read_indirect_block [OF rd]) (rule that)
  obtain buf where loop: "read_loop stk bl' ?ino ind (int (file_size ?ino0)) 0 0 0 (stk Malloc_buf) = Inr buf"
      "\<forall>i < file_size ?ino0. buf i = file_data bl' ?ino0 i"
    using read_loop_spec [OF rd ind(2), of 0 "stk Malloc_buf" stk] by auto
  have "read_file stk t now il inum (Some b0) (Some n0) =
      Inr (Some (Some buf), Some (int (file_size ?ino0)),
           il\<lparr>il_bm := bl', il_rwlocks := after_read (il_rwlocks il) ?i\<rparr>)"
    using enter exit put(1) ind(1) loop(1) assms(2) sz get_inode_spec [OF ok(1), of stk inum]
    by (simp add: read_file_def)
  with put loop(2) cong(2) show ?thesis by auto
qed

text \<open>Reading an inode that is not in use changes nothing but the reader count.\<close>

lemma read_file_absent:
  assumes "il_ok il" and "unat inum < 1024" and "\<not> in_use (il_bm il) (unat inum)"
  shows "read_file stk t now il inum b n =
     Inr (b, n, il\<lparr>il_rwlocks := after_read (il_rwlocks il) (unat inum)\<rparr>)"
proof -
  have ok: "bl_ok (il_bm il)" "rw_idle (il_rwlocks il (unat inum))"
    using assms(1,2) by (auto simp: il_ok_def)
  obtain il1 where enter: "il_reader_enter t il inum = Inr il1" "il_bm il1 = il_bm il"
    "il_reader_exit il1 inum = Inr (il\<lparr>il_rwlocks := after_read (il_rwlocks il) (unat inum)\<rparr>)"
    using il_reader_section [OF ok(2) assms(2), of t] by metis
  with get_inode_spec [OF ok(1), of stk inum] assms(3) show ?thesis
    by (simp add: read_file_def)
qed

lemma read_file_out_of_range:
  "unat inum \<ge> 1024 \<Longrightarrow> read_file stk t now il inum b n = Inl Array_bounds"
  by (simp add: read_file_def il_reader_enter_def)

end
