(* ===== verification/File_Write.thy ===== *)
theory File_Write
  imports File_Read
begin

text \<open>
  What \<open>write_file\<close> does: the counters of its loop in closed form, the blocks the loop
  allocates and what it stores in them, and the three outcomes by size. Up to 4096 bytes, and
  from 4608 bytes on when the old file had no indirect block, the bytes read back are the bytes
  written. Between 4097 and 4607 bytes the ninth block goes into the pointer slot of the
  indirect block.
\<close>

subsection \<open>The loop counters\<close>

definition wcount :: "nat \<Rightarrow> nat \<Rightarrow> write_state \<Rightarrow> bool" where
  "wcount s k w \<longleftrightarrow>
     remaining_bytes_to_write w = max 0 (int s - 512 * int k) \<and>
     num_bytes_already_written w = int (min (512 * k) (s - 512)) \<and> w_index w = k"

lemma wcount_start: "wcount s 0 (start_write stk bl ino (int s))"
  by (simp add: wcount_def start_write_def)

lemma wcount_advance: "wcount s k w \<Longrightarrow> 512 * k < s \<Longrightarrow> wcount s (Suc k) (advance w)"
  by (auto simp: wcount_def advance_def chunk_def Let_def)

lemma wcount_running: "wcount s k w \<Longrightarrow> remaining_bytes_to_write w > 0 \<longleftrightarrow> k < nblk s"
  by (auto simp: wcount_def nblk_less_iff)

lemma wcount_chunk: "wcount s k w \<Longrightarrow> nat (chunk w) = min 512 (s - 512 * k)"
  by (auto simp: wcount_def chunk_def)

text \<open>The test for the direct section: it is late by one block for sizes under 4608.\<close>

lemma wcount_direct:
  "wcount s k w \<Longrightarrow> num_bytes_already_written w < int (8 * BLOCK_SIZE) \<longleftrightarrow> k < 8 \<or> s < 4608"
  by (auto simp: wcount_def)

lemma wcount_cong:
  assumes "wcount s k w" and "remaining_bytes_to_write w' = remaining_bytes_to_write w"
    and "num_bytes_already_written w' = num_bytes_already_written w" and "w_index w' = w_index w"
  shows "wcount s k w'"
  using assms by (simp add: wcount_def)

text \<open>The bytes of chunk \<open>k\<close> in a block; the rest of a last, partial block is arbitrary.\<close>

definition holds_chunk :: "nat \<Rightarrow> buf \<Rightarrow> nat \<Rightarrow> buf \<Rightarrow> bool" where
  "holds_chunk s buf k c \<longleftrightarrow> (\<forall>i<512. 512 * k + i < s \<longrightarrow> c i = buf (512 * k + i))"

lemma fill_buffer_holds: "wcount s k w \<Longrightarrow> holds_chunk s buf k (fill_buffer a buf w)"
  by (auto simp: holds_chunk_def fill_buffer_def wcount_chunk memcpy_def wcount_def mult.commute)

lemma write_loop_invariant:
  assumes step: "\<And>k w. k < n \<Longrightarrow> I k w \<Longrightarrow> \<exists>w'. write_body stk buf sz old w = Inr w' \<and> I (Suc k) w'"
    and run: "\<And>k w. I k w \<Longrightarrow> remaining_bytes_to_write w > 0 \<longleftrightarrow> k < n"
    and "I k w" and "k \<le> n"
  shows "\<exists>w'. write_loop stk buf sz old w = Inr w' \<and> I n w'"
  using assms(3,4)
proof (induction "n - k" arbitrary: k w)
  case 0
  then have "k = n" by simp
  with 0 run [of k w] show ?case by (subst write_loop.simps) auto
next
  case (Suc d)
  then have k: "k < n" by simp
  then obtain w' where w': "write_body stk buf sz old w = Inr w'" "I (Suc k) w'"
    using step Suc by blast
  have "\<exists>v. write_loop stk buf sz old w' = Inr v \<and> I n v"
    using Suc(1) [of "Suc k" w'] Suc(2) w'(2) k by simp
  with Suc k w' run [of k w] show ?case by (subst write_loop.simps) auto
qed

subsection \<open>The blocks the loop has written\<close>

definition wrote ::
    "block_layer \<Rightarrow> nat \<Rightarrow> buf \<Rightarrow> block_layer \<Rightarrow> nat list \<Rightarrow> nat set \<Rightarrow> (nat \<rightharpoonup> buf) \<Rightarrow> bool" where
  "wrote bl0 s buf bl ids A M \<longleftrightarrow>
     bl_ok bl \<and> stored contents free_set bl0 bl A M \<and>
     distinct ids \<and> set ids \<subseteq> data_blocks \<and> set ids \<inter> free_set bl = {} \<and> dom M = set ids \<and>
     (\<forall>j<length ids. holds_chunk s buf j (the (M (ids ! j))))"

lemma wrote_refl: "bl_ok bl \<Longrightarrow> wrote bl s buf bl [] {} Map.empty"
  by (simp add: wrote_def)

lemma wrote_free:
  assumes "wrote bl0 s buf bl ids A M"
  shows "free_set bl = free_set bl0 - A" and "A \<subseteq> free_set bl0"
    and "card (free_set bl) = card (free_set bl0) - card A"
proof -
  have "stored contents free_set bl0 bl A M" using assms by (simp add: wrote_def)
  from storedD(1,2) [OF this] show "A \<subseteq> free_set bl0" "free_set bl = free_set bl0 - A" by auto
  then show "card (free_set bl) = card (free_set bl0) - card A"
    by (simp add: card_Diff_subset finite_subset)
qed

lemma wrote_frame:
  assumes "wrote bl0 s buf bl ids A M" and "b \<notin> set ids" and "b \<notin> bitmap_blocks"
  shows "contents bl b = contents bl0 b"
proof -
  have "stored contents free_set bl0 bl A M" "dom M = set ids" using assms(1) by (auto simp: wrote_def)
  with storedD(4) [OF this(1), of b] assms(2,3) show ?thesis by auto
qed

lemma wrote_byte:
  assumes "wrote bl0 s buf bl ids A M" and "k < length ids" and "i < 512" and "512 * k + i < s"
  shows "contents bl (ids ! k) i = buf (512 * k + i)"
proof -
  have st: "stored contents free_set bl0 bl A M" and "ids ! k \<in> dom M"
    and h: "holds_chunk s buf k (the (M (ids ! k)))"
    using assms(1,2) by (auto simp: wrote_def)
  then obtain c where "M (ids ! k) = Some c" by blast
  with storedD(3) [OF st this assms(3)] h assms(3,4) show ?thesis by (simp add: holds_chunk_def)
qed

lemma holds_chunk_snoc:
  assumes "\<forall>j<length ids. holds_chunk s buf j (the (M (ids ! j)))" and "b \<notin> set ids"
    and "holds_chunk s buf (length ids) x"
  shows "\<forall>j<length (ids @ [b]). holds_chunk s buf j (the ((M(b \<mapsto> x)) ((ids @ [b]) ! j)))"
proof (intro allI impI)
  fix j assume "j < length (ids @ [b])"
  then consider "j < length ids" | "j = length ids" by fastforce
  then show "holds_chunk s buf j (the ((M(b \<mapsto> x)) ((ids @ [b]) ! j)))"
  proof cases
    case 1
    with assms(2) have "ids ! j \<noteq> b" by auto
    with 1 assms(1) show ?thesis by (simp add: nth_append)
  next
    case 2
    with assms(3) show ?thesis by (simp add: nth_append)
  qed
qed

text \<open>A chunk stored in a newly allocated block.\<close>

lemma wrote_new:
  assumes "wrote bl0 s buf bl ids A M" and "free_set bl \<noteq> {}" and "holds_chunk s buf (length ids) x"
  obtains b bla bl' where "alloc_block junk bl = Inr (word_of_nat b, bla)"
    and "bl_write_block bla (word_of_nat b) x = Inr bl'" and "b \<in> data_blocks"
    and "b \<in> free_set bl" and "wrote bl0 s buf bl' (ids @ [b]) (insert b A) (M(b \<mapsto> x))"
proof -
  have w: "stored contents free_set bl0 bl A M" "bl_ok bl" using assms(1) by (auto simp: wrote_def)
  obtain b bla bl' where r: "alloc_block junk bl = Inr (word_of_nat b, bla)"
      "bl_write_block bla (word_of_nat b) x = Inr bl'" "bl_ok bl'" "b \<in> data_blocks" "b \<in> free_set bl"
      "stored contents free_set bl0 bl' (insert b A) (M(b \<mapsto> x))"
    by (rule bs.stored_alloc_write [OF w assms(2), of junk x]) (rule that)
  have b: "b \<notin> set ids" using assms(1) r(5) by (auto simp: wrote_def)
  have "free_set bl' = free_set bl - {b}"
    using storedD(2) [OF r(6)] wrote_free(1) [OF assms(1)] by auto
  then have "wrote bl0 s buf bl' (ids @ [b]) (insert b A) (M(b \<mapsto> x))"
    using assms(1) r b holds_chunk_snoc [OF _ b assms(3), of M]
    by (auto simp: wrote_def)
  with that r show thesis by blast
qed

text \<open>A block allocated and not yet written: the indirect block.\<close>

lemma wrote_alloc:
  assumes "wrote bl0 s buf bl ids A M" and "free_set bl \<noteq> {}"
  obtains b bl' where "alloc_block junk bl = Inr (word_of_nat b, bl')" and "b \<in> data_blocks"
    and "b \<in> free_set bl" and "wrote bl0 s buf bl' ids (insert b A) M" and "b \<notin> set ids"
proof -
  have w: "stored contents free_set bl0 bl A M" "bl_ok bl" using assms(1) by (auto simp: wrote_def)
  obtain b bl' where r: "alloc_block junk bl = Inr (word_of_nat b, bl')" "bl_ok bl'"
      "b \<in> data_blocks" "b \<in> free_set bl" "stored contents free_set bl0 bl' (insert b A) M"
    by (rule bs.stored_alloc [OF w assms(2), of junk]) (rule that)
  have "free_set bl' = free_set bl - {b}"
    using storedD(2) [OF r(5)] wrote_free(1) [OF assms(1)] by auto
  then have "wrote bl0 s buf bl' ids (insert b A) M" "b \<notin> set ids"
    using assms(1) r by (auto simp: wrote_def)
  with that r show thesis by blast
qed

subsection \<open>The direct section\<close>

text \<open>
  The state after \<open>k\<close> blocks of the direct section: \<open>bl0\<close> is the block layer after the old
  direct blocks were freed and \<open>ino0\<close> the inode as it was read.
\<close>

definition direct_inv ::
    "stack \<Rightarrow> block_layer \<Rightarrow> inode \<Rightarrow> nat \<Rightarrow> buf \<Rightarrow> nat \<Rightarrow> write_state \<Rightarrow> bool" where
  "direct_inv stk bl0 ino0 s buf k w \<longleftrightarrow>
     wcount s k w \<and> \<not> need_to_overwrite_indirect w \<and> \<not> already_allocated_indirect w \<and>
     indirect_index w = 0 \<and>
     (\<exists>ids M. length ids = k \<and> wrote bl0 s buf (w_bl w) ids (set ids) M \<and>
        w_ino w = ino0\<lparr>i_blocks := map word_of_nat ids @ drop k (i_blocks ino0)\<rparr>)"

lemma direct_inv_start:
  assumes "bl_ok bl0"
  shows "direct_inv stk bl0 ino0 s buf 0 (start_write stk bl0 ino0 (int s))"
proof -
  have "wrote bl0 s buf (w_bl (start_write stk bl0 ino0 (int s))) [] (set []) Map.empty"
    using wrote_refl [OF assms] by (simp add: start_write_def)
  then show ?thesis
    using wcount_start [of s stk bl0 ino0]
    by (auto simp: direct_inv_def start_write_def intro!: exI [of _ "[]"])
qed

lemma direct_inv_step:
  assumes inv: "direct_inv stk bl0 ino0 s buf k w" and "k < nblk s" and "k < 8 \<or> s < 4608"
    and "length (i_blocks ino0) = 9" and "k < card (free_set bl0)"
  shows "\<exists>w'. write_body stk buf sz old w = Inr w' \<and> direct_inv stk bl0 ino0 s buf (Suc k) w'"
proof -
  obtain ids M where ids: "length ids = k" "wrote bl0 s buf (w_bl w) ids (set ids) M"
      "w_ino w = ino0\<lparr>i_blocks := map word_of_nat ids @ drop k (i_blocks ino0)\<rparr>"
    and c: "wcount s k w" "\<not> need_to_overwrite_indirect w" "\<not> already_allocated_indirect w"
      "indirect_index w = 0"
    using inv by (auto simp: direct_inv_def)
  have k9: "k < 9" using assms(2,3) nblk_less_iff [of k s] by linarith
  have "card (set ids) = k" using ids(1,2) distinct_card by (auto simp: wrote_def)
  then have "card (free_set (w_bl w)) \<noteq> 0" using wrote_free(3) [OF ids(2)] assms(5) by simp
  then have ne: "free_set (w_bl w) \<noteq> {}" by auto
  let ?x = "fill_buffer (stk (Direct_buffer k)) buf w"
  have "holds_chunk s buf (length ids) ?x" using fill_buffer_holds [OF c(1)] ids(1) by simp
  then obtain b bla bl' where b: "alloc_block (stk Scratch) (w_bl w) = Inr (word_of_nat b, bla)"
      "bl_write_block bla (word_of_nat b) ?x = Inr bl'"
      "wrote bl0 s buf bl' (ids @ [b]) (insert b (set ids)) (M(b \<mapsto> ?x))"
    using wrote_new [OF ids(2) ne, of ?x "stk Scratch"] by metis
  let ?w = "w\<lparr>w_bl := bl', w_ino := (w_ino w)\<lparr>i_blocks := (i_blocks (w_ino w))[k := word_of_nat b]\<rparr>\<rparr>"
  have idx: "w_index w = k" using c(1) by (simp add: wcount_def)
  have "write_direct stk buf w = Inr ?w"
    using b ids(1,3) idx k9 assms(4) by (simp add: write_direct_def)
  moreover have "num_bytes_already_written w < int (8 * BLOCK_SIZE)"
    using wcount_direct [OF c(1)] assms(3) by blast
  ultimately have "write_body stk buf sz old w = Inr (advance ?w)" by (simp add: write_body_def)
  moreover have "wcount s (Suc k) (advance ?w)"
    using assms(2) nblk_less_iff [of k s] by (intro wcount_advance wcount_cong [OF c(1)]) simp_all
  moreover have "(map word_of_nat ids @ drop k (i_blocks ino0))[k := word_of_nat b] =
      map word_of_nat (ids @ [b]) @ drop (Suc k) (i_blocks ino0)"
    using ids(1) k9 assms(4) by (simp add: list_update_append upd_conv_take_nth_drop)
  ultimately show ?thesis
    using c b(3) ids
    by (auto simp: direct_inv_def advance_def Let_def intro!: exI [of _ "ids @ [b]"])
qed

lemma write_loop_direct:
  assumes "s < 4608" and "bl_ok bl0" and "length (i_blocks ino0) = 9" and "nblk s \<le> card (free_set bl0)"
  shows "\<exists>w. write_loop stk buf (int s) old (start_write stk bl0 ino0 (int s)) = Inr w \<and>
           direct_inv stk bl0 ino0 s buf (nblk s) w"
proof (rule write_loop_invariant [where I = "direct_inv stk bl0 ino0 s buf" and k = 0])
  show "\<exists>w'. write_body stk buf (int s) old w = Inr w' \<and> direct_inv stk bl0 ino0 s buf (Suc k) w'"
    if "k < nblk s" "direct_inv stk bl0 ino0 s buf k w" for k w
    using that assms by (intro direct_inv_step) auto
  show "remaining_bytes_to_write w > 0 \<longleftrightarrow> k < nblk s" if "direct_inv stk bl0 ino0 s buf k w" for k w
    using that wcount_running by (auto simp: direct_inv_def)
qed (simp_all add: direct_inv_start assms(2))

subsection \<open>The indirect section of a file that had none\<close>

definition indirect_inv ::
    "block_layer \<Rightarrow> inode \<Rightarrow> nat \<Rightarrow> buf \<Rightarrow> nat \<Rightarrow> write_state \<Rightarrow> bool" where
  "indirect_inv bl0 ino0 s buf k w \<longleftrightarrow>
     wcount s k w \<and> need_to_overwrite_indirect w \<and> already_allocated_indirect w \<and>
     indirect_index w = k - 8 \<and> 8 \<le> k \<and>
     (\<exists>ids iid M. length ids = k \<and> wrote bl0 s buf (w_bl w) ids (insert iid (set ids)) M \<and>
        iid \<notin> set ids \<and> iid \<in> data_blocks \<and>
        w_ino w = ino0\<lparr>i_blocks := map word_of_nat (take 8 ids) @ [word_of_nat iid]\<rparr> \<and>
        (\<forall>j<k - 8. get32 (final_indirect_block w) (4 * j) = word_of_nat (ids ! (8 + j))))"

lemma alloc_indirect_step:
  assumes inv: "direct_inv stk bl0 ino0 s buf 8 w" and "length (i_blocks ino0) = 9"
    and "8 < card (free_set bl0)"
  shows "\<exists>w'. alloc_indirect stk (w\<lparr>need_to_overwrite_indirect := True\<rparr>) = Inr w' \<and>
           indirect_inv bl0 ino0 s buf 8 w'"
proof -
  obtain ids M where ids: "length ids = 8" "wrote bl0 s buf (w_bl w) ids (set ids) M"
      "w_ino w = ino0\<lparr>i_blocks := map word_of_nat ids @ drop 8 (i_blocks ino0)\<rparr>"
    and c: "wcount s 8 w" "\<not> already_allocated_indirect w" "indirect_index w = 0"
    using inv by (auto simp: direct_inv_def)
  have "card (set ids) = 8" using ids(1,2) distinct_card [of ids] by (simp add: wrote_def)
  then have "card (free_set (w_bl w)) \<noteq> 0" using wrote_free(3) [OF ids(2)] assms(3) by simp
  then have ne: "free_set (w_bl w) \<noteq> {}" by auto
  obtain b bl' where b: "alloc_block (stk Scratch) (w_bl w) = Inr (word_of_nat b, bl')"
      "b \<in> data_blocks" "wrote bl0 s buf bl' ids (insert b (set ids)) M" "b \<notin> set ids"
    using wrote_alloc [OF ids(2) ne, of "stk Scratch"] by metis
  obtain p where p: "drop 8 (i_blocks ino0) = [p]"
    using assms(2) by (cases "drop 8 (i_blocks ino0)") (auto dest: arg_cong [of _ _ length])
  let ?w = "w\<lparr>need_to_overwrite_indirect := True, w_bl := bl',
    w_ino := (w_ino w)\<lparr>i_blocks := (i_blocks (w_ino w))[8 := word_of_nat b]\<rparr>,
    already_allocated_indirect := True\<rparr>"
  have "alloc_indirect stk (w\<lparr>need_to_overwrite_indirect := True\<rparr>) = Inr ?w"
    using b(1) c(2) by (simp add: alloc_indirect_def)
  moreover have "wcount s 8 ?w" by (rule wcount_cong [OF c(1)]) simp_all
  moreover have "(map word_of_nat ids @ [p])[8 := word_of_nat b] = map word_of_nat ids @ [word_of_nat b]"
    using ids(1) by (simp add: list_update_append)
  ultimately show ?thesis
    using b ids c(3) p
    by (auto simp: indirect_inv_def intro!: exI [of _ ids] exI [of _ b] exI [of _ M])
qed

lemma new_indirect_step:
  assumes inv: "indirect_inv bl0 ino0 s buf k w" and "k < nblk s" and "s \<le> 69632"
    and "Suc k < card (free_set bl0)"
  shows "\<exists>w'. write_new_indirect stk buf w = Inr w' \<and>
           indirect_inv bl0 ino0 s buf (Suc k) (advance (w'\<lparr>indirect_index := indirect_index w' + 1\<rparr>))"
proof -
  obtain ids iid M where ids: "length ids = k" "wrote bl0 s buf (w_bl w) ids (insert iid (set ids)) M"
      "iid \<notin> set ids" "iid \<in> data_blocks"
      "w_ino w = ino0\<lparr>i_blocks := map word_of_nat (take 8 ids) @ [word_of_nat iid]\<rparr>"
    and fin: "\<forall>j<k - 8. get32 (final_indirect_block w) (4 * j) = word_of_nat (ids ! (8 + j))"
    and c: "wcount s k w" "need_to_overwrite_indirect w" "already_allocated_indirect w"
      "indirect_index w = k - 8" "8 \<le> k"
    using inv by (auto simp: indirect_inv_def)
  have k: "k - 8 < 128" "512 * k < s" using assms(2,3) nblk_less_iff [of k s] by linarith+
  have "card (set ids) = k" using ids(1,2) distinct_card by (auto simp: wrote_def)
  then have "card (insert iid (set ids)) = Suc k" using ids(3) by simp
  then have "card (free_set (w_bl w)) \<noteq> 0" using wrote_free(3) [OF ids(2)] assms(4) by simp
  then have ne: "free_set (w_bl w) \<noteq> {}" by auto
  let ?x = "fill_buffer (stk (Indirect_buffer k)) buf w"
  have "holds_chunk s buf (length ids) ?x" using fill_buffer_holds [OF c(1)] ids(1) by simp
  then obtain b bla bl' where b: "alloc_block (stk Scratch) (w_bl w) = Inr (word_of_nat b, bla)"
      "bl_write_block bla (word_of_nat b) ?x = Inr bl'" "b \<in> free_set (w_bl w)"
      "wrote bl0 s buf bl' (ids @ [b]) (insert b (insert iid (set ids))) (M(b \<mapsto> ?x))"
    using wrote_new [OF ids(2) ne, of ?x "stk Scratch"] by metis
  have bi: "iid \<noteq> b" using b(3) wrote_free(1) [OF ids(2)] by auto
  let ?f = "put32 (final_indirect_block w) (4 * (k - 8)) (word_of_nat b)"
  let ?w = "w\<lparr>w_bl := bl', final_indirect_block := ?f\<rparr>"
  have idx: "w_index w = k" using c(1) by (simp add: wcount_def)
  have "write_new_indirect stk buf w = Inr ?w"
    using b idx c(4) k(1) by (simp add: write_new_indirect_def)
  moreover have "wcount s (Suc k) (advance (?w\<lparr>indirect_index := indirect_index ?w + 1\<rparr>))"
    using k(2) by (intro wcount_advance wcount_cong [OF c(1)]) simp_all
  moreover have "\<forall>j<Suc k - 8. get32 ?f (4 * j) = word_of_nat ((ids @ [b]) ! (8 + j))"
  proof (intro allI impI)
    fix j assume "j < Suc k - 8"
    then consider "j < k - 8" | "j = k - 8" by linarith
    then show "get32 ?f (4 * j) = word_of_nat ((ids @ [b]) ! (8 + j))"
      using fin ids(1) c(5) by cases (auto simp: buf_simps nth_append)
  qed
  moreover have "insert b (insert iid (set ids)) = insert iid (set (ids @ [b]))" by auto
  ultimately show ?thesis
    using c b(4) ids bi
    by (auto simp: indirect_inv_def advance_def Let_def intro!: exI [of _ "ids @ [b]"] exI [of _ iid])
qed

lemma write_loop_fresh_indirect:
  assumes "4608 \<le> s" and "s \<le> 69632" and "old \<le> 4096" and "bl_ok bl0"
    and "length (i_blocks ino0) = 9" and "nblk s < card (free_set bl0)"
  shows "\<exists>w. write_loop stk buf (int s) old (start_write stk bl0 ino0 (int s)) = Inr w \<and>
           indirect_inv bl0 ino0 s buf (nblk s) w"
proof -
  let ?I = "\<lambda>k w. if k \<le> 8 then direct_inv stk bl0 ino0 s buf k w else indirect_inv bl0 ino0 s buf k w"
  have n: "8 < nblk s" using assms(1) by (simp add: nblk_less_iff)
  have "\<exists>w. write_loop stk buf (int s) old (start_write stk bl0 ino0 (int s)) = Inr w \<and> ?I (nblk s) w"
  proof (rule write_loop_invariant [where I = ?I and k = 0])
    fix k w assume k: "k < nblk s" and inv: "?I k w"
    show "\<exists>w'. write_body stk buf (int s) old w = Inr w' \<and> ?I (Suc k) w'"
    proof (cases "k < 8")
      case True
      with inv have "direct_inv stk bl0 ino0 s buf k w" by simp
      then show ?thesis using direct_inv_step [of stk bl0 ino0 s buf k w] True k assms(5,6) by auto
    next
      case False
      have c: "wcount s k w" using inv by (auto simp: direct_inv_def indirect_inv_def split: if_splits)
      have "\<not> num_bytes_already_written w < int (8 * BLOCK_SIZE)"
        using wcount_direct [OF c] False assms(1) by simp
      moreover obtain w1 where w1: "alloc_indirect stk (w\<lparr>need_to_overwrite_indirect := True\<rparr>) = Inr w1"
          "indirect_inv bl0 ino0 s buf k w1"
      proof (cases "k = 8")
        case True
        with inv have "direct_inv stk bl0 ino0 s buf 8 w" by simp
        with alloc_indirect_step [OF this assms(5)] n assms(6) True that show thesis by force
      next
        case False
        with \<open>\<not> k < 8\<close> inv have i: "indirect_inv bl0 ino0 s buf k w" by simp
        then have "w\<lparr>need_to_overwrite_indirect := True\<rparr> = w" "already_allocated_indirect w"
          by (auto simp: indirect_inv_def)
        with i that [of w] show thesis by (simp add: alloc_indirect_def)
      qed
      moreover obtain w' where "write_new_indirect stk buf w1 = Inr w'"
          "indirect_inv bl0 ino0 s buf (Suc k) (advance (w'\<lparr>indirect_index := indirect_index w' + 1\<rparr>))"
        using new_indirect_step [OF w1(2) k assms(2)] k assms(6) by auto
      ultimately show ?thesis
        using False assms(1,3) by (simp add: write_body_def write_indirect_def)
    qed
  next
    show "remaining_bytes_to_write w > 0 \<longleftrightarrow> k < nblk s" if "?I k w" for k w
      using that wcount_running by (auto simp: direct_inv_def indirect_inv_def split: if_splits)
  qed (simp_all add: direct_inv_start assms(4))
  with n show ?thesis by simp
qed

subsection \<open>After the loop\<close>

text \<open>
  \<open>written bl0 s buf bl ino\<close>: on \<open>bl\<close>, the inode \<open>ino\<close> is a file of \<open>s\<close> bytes that reads as
  \<open>buf\<close>, and every block that was not free at \<open>bl0\<close> still holds what it held.
\<close>

definition written :: "block_layer \<Rightarrow> nat \<Rightarrow> buf \<Rightarrow> block_layer \<Rightarrow> inode \<Rightarrow> bool" where
  "written bl0 s buf bl ino \<longleftrightarrow>
     bl_ok bl \<and> readable bl ino \<and> file_size ino = s \<and> (\<forall>i. i < s \<longrightarrow> file_data bl ino i = buf i) \<and>
     (\<forall>b. b \<notin> free_set bl0 \<longrightarrow> b \<notin> bitmap_blocks \<longrightarrow> contents bl b = contents bl0 b)"

lemma word_of_nat_data: "b \<in> data_blocks \<Longrightarrow> unat (word_of_nat b :: u32) = b"
  by (simp add: data_blocks_def)

lemma writtenI:
  assumes "bl_ok bl" and "inode_ok ino" and "file_size ino = s" and "s \<le> 69632"
    and blk: "\<And>k. k < nblk s \<Longrightarrow> file_block bl ino k = word_of_nat (ids ! k) \<and> ids ! k \<in> data_blocks"
    and byte: "\<And>k i. k < nblk s \<Longrightarrow> i < 512 \<Longrightarrow> 512 * k + i < s \<Longrightarrow>
                 contents bl (ids ! k) i = buf (512 * k + i)"
    and "unat (i_blocks ino ! 8) \<noteq> 32768" and "s > 4096 \<Longrightarrow> unat (i_blocks ino ! 8) \<in> data_blocks"
    and "\<And>b. b \<notin> free_set bl0 \<Longrightarrow> b \<notin> bitmap_blocks \<Longrightarrow> contents bl b = contents bl0 b"
  shows "written bl0 s buf bl ino"
proof -
  have "file_data bl ino i = buf i" if "i < s" for i
  proof -
    have "512 * (i div 512) \<le> i" by simp
    with that have k: "i div 512 < nblk s" by (simp add: nblk_less_iff)
    then show ?thesis
      using blk [OF k] byte [OF k, of "i mod 512"] that by (simp add: file_data_def word_of_nat_data)
  qed
  moreover have "unat (file_block bl ino k) \<in> data_blocks" if "k < nblk s" for k
    using blk [OF that] by (simp add: word_of_nat_data)
  ultimately show ?thesis using assms by (auto simp: written_def readable_def)
qed

lemma file_size_set: "s \<le> 69632 \<Longrightarrow> file_size (ino\<lparr>i_size := word_of_int (int s)\<rparr>) = s"
  by (simp add: file_size_def)

text \<open>The pointers of a file whose indirect block holds the ids from the ninth on.\<close>

lemma final_pointers:
  assumes "i_blocks ino = map word_of_nat (take 8 ids) @ [p]" and "eq_upto 512 (contents bl (unat p)) f"
    and "\<forall>j<length ids - 8. get32 f (4 * j) = word_of_nat (ids ! (8 + j))"
    and "8 < length ids" and "length ids \<le> 136" and "k < length ids"
  shows "file_block bl ino k = word_of_nat (ids ! k)"
proof (cases "k < 8")
  case True
  then show ?thesis using assms(1,4) by (simp add: file_block_def nth_append)
next
  case False
  then have "get32 (contents bl (unat p)) (4 * (k - 8)) = get32 f (4 * (k - 8))"
    using assms(5,6) by (intro get32_cong eq_uptoD [OF assms(2)]) linarith
  moreover have "i_blocks ino ! 8 = p" using assms(1,4) by (simp add: nth_append)
  ultimately show ?thesis using assms(3,6) False by (simp add: file_block_def)
qed

lemma finish_direct:
  assumes inv: "direct_inv stk bl0 ino0 s buf (nblk s) w" and "s \<le> 4096"
    and "length (i_blocks ino0) = 9" and "unat (i_blocks ino0 ! 8) < 32768"
  obtains bl ids ino where "finish_write stk (int s) old w = Inr (bl, ino)"
    and "ino = ino0\<lparr>i_blocks := map word_of_nat ids @ drop (nblk s) (i_blocks ino0),
                     i_size := word_of_int (int s)\<rparr>"
    and "length ids = nblk s" and "distinct ids" and "set ids \<subseteq> free_set bl0"
    and "free_set bl = free_set bl0 - set ids \<union> ({unat (i_blocks ino0 ! 8)} \<inter> data_blocks)"
    and "written bl0 s buf bl ino"
proof -
  obtain ids M where ids: "length ids = nblk s" "wrote bl0 s buf (w_bl w) ids (set ids) M"
      "w_ino w = ino0\<lparr>i_blocks := map word_of_nat ids @ drop (nblk s) (i_blocks ino0)\<rparr>"
    and c: "\<not> need_to_overwrite_indirect w"
    using inv by (auto simp: direct_inv_def)
  let ?ino = "ino0\<lparr>i_blocks := map word_of_nat ids @ drop (nblk s) (i_blocks ino0),
                    i_size := word_of_int (int s)\<rparr>"
  have n: "nblk s \<le> 8" using assms(2) nblk_le [of s 8] by simp
  then have b8: "i_blocks ?ino ! 8 = i_blocks ino0 ! 8"
    using ids(1) assms(3) by (simp add: nth_append)
  have ok: "bl_ok (w_bl w)" "distinct ids" "set ids \<subseteq> data_blocks" using ids(2) by (auto simp: wrote_def)
  obtain bl where f: "free_block (stk Scratch) (w_bl w) (i_blocks ino0 ! 8) = Inr bl" "bl_ok bl"
      "free_set bl = free_set (w_bl w) \<union> ({unat (i_blocks ino0 ! 8)} \<inter> data_blocks)"
      "\<forall>j. j \<notin> bitmap_blocks \<longrightarrow> contents bl j = contents (w_bl w) j"
    using free_block_spec [OF ok(1) assms(4)] by blast
  have fin: "finish_write stk (int s) old w = Inr (bl, ?ino)"
    using c assms(2) f(1) ids(3) b8 by (simp add: finish_write_def)
  have sub: "set ids \<subseteq> free_set bl0" using wrote_free(2) [OF ids(2)] .
  have "written bl0 s buf bl ?ino"
  proof (rule writtenI [where ids = ids])
    show "file_block bl ?ino k = word_of_nat (ids ! k) \<and> ids ! k \<in> data_blocks" if "k < nblk s" for k
      using that n ids(1) ok(3) by (auto simp: file_block_def nth_append)
    show "contents bl (ids ! k) i = buf (512 * k + i)"
      if "k < nblk s" "i < 512" "512 * k + i < s" for k i
    proof -
      have "ids ! k \<notin> bitmap_blocks" using that(1) ids(1) ok(3) data_not_bitmap by (metis nth_mem subsetD)
      with f(4) wrote_byte [OF ids(2)] that ids(1) show ?thesis by simp
    qed
    show "contents bl b = contents bl0 b" if "b \<notin> free_set bl0" "b \<notin> bitmap_blocks" for b
      using that sub f(4) wrote_frame [OF ids(2), of b] by auto
    show "inode_ok ?ino" using ids(1) n assms(3) by (simp add: inode_ok_def)
    show "unat (i_blocks ?ino ! 8) \<noteq> 32768" using assms(4) b8 by simp
  qed (use f(2) assms(2) file_size_set [of s] in auto)
  with that fin ids(1) ok(2) sub f(3) wrote_free(1) [OF ids(2)] show thesis by blast
qed

lemma data_write:
  assumes "bl_ok bl" and "unat p \<in> data_blocks"
  obtains bl' where "bl_write_block bl p buf = Inr bl'" and "bl_ok bl'" and "free_set bl' = free_set bl"
    and "eq_upto 512 (contents bl' (unat p)) buf"
    and "\<And>j. j \<noteq> unat p \<Longrightarrow> contents bl' j = contents bl j"
proof -
  have p: "unat p < 32768" "unat p \<notin> bitmap_blocks"
    using assms(2) data_not_bitmap by (auto simp: data_blocks_def)
  obtain bl' where "bl_write_block bl p buf = Inr bl'" "eq_upto 512 (contents bl' (unat p)) buf"
      "\<forall>j. j \<noteq> unat p \<longrightarrow> contents bl' j = contents bl j"
    using bs.wr_ok [of p bl buf] p(1) by auto
  with bs.wr_frees [OF assms(1) p(2)] show thesis by (intro that [of bl']) auto
qed

lemma finish_indirect:
  assumes inv: "indirect_inv bl0 ino0 s buf (nblk s) w" and "4608 \<le> s" and "s \<le> 69632"
    and "old \<le> 4096" and "length (i_blocks ino0) = 9"
  obtains bl ids iid ino where "finish_write stk (int s) old w = Inr (bl, ino)"
    and "ino = ino0\<lparr>i_blocks := map word_of_nat (take 8 ids) @ [word_of_nat iid],
                     i_size := word_of_int (int s)\<rparr>"
    and "length ids = nblk s" and "distinct ids" and "iid \<notin> set ids"
    and "insert iid (set ids) \<subseteq> free_set bl0"
    and "free_set bl = free_set bl0 - insert iid (set ids)"
    and "\<And>k. k < nblk s \<Longrightarrow> file_block bl ino k = word_of_nat (ids ! k)"
    and "written bl0 s buf bl ino"
proof -
  obtain ids iid M where ids: "length ids = nblk s"
      "wrote bl0 s buf (w_bl w) ids (insert iid (set ids)) M" "iid \<notin> set ids" "iid \<in> data_blocks"
      "w_ino w = ino0\<lparr>i_blocks := map word_of_nat (take 8 ids) @ [word_of_nat iid]\<rparr>"
    and fin: "\<forall>j<nblk s - 8. get32 (final_indirect_block w) (4 * j) = word_of_nat (ids ! (8 + j))"
    and c: "need_to_overwrite_indirect w"
    using inv by (auto simp: indirect_inv_def)
  let ?ino = "ino0\<lparr>i_blocks := map word_of_nat (take 8 ids) @ [word_of_nat iid],
                    i_size := word_of_int (int s)\<rparr>"
  have n: "8 < nblk s" "nblk s \<le> 136" using assms(2,3) nblk_le [of s 136] by (simp_all add: nblk_less_iff)
  have b8: "i_blocks ?ino ! 8 = word_of_nat iid" using ids(1) n by (simp add: nth_append)
  have ok: "bl_ok (w_bl w)" "distinct ids" "set ids \<subseteq> data_blocks"
    and st: "stored contents free_set bl0 (w_bl w) (insert iid (set ids)) M"
    using ids(2) by (auto simp: wrote_def)
  have u: "unat (word_of_nat iid :: u32) = iid" using ids(4) by (rule word_of_nat_data)
  have iid: "iid < 32768" "iid \<notin> bitmap_blocks"
    using ids(4) data_not_bitmap by (auto simp: data_blocks_def)
  obtain bl where wr: "bl_write_block (w_bl w) (word_of_nat iid) (final_indirect_block w) = Inr bl"
    and ok': "bl_ok bl" "free_set bl = free_set (w_bl w)"
    and new: "eq_upto 512 (contents bl iid) (final_indirect_block w)"
    and frame: "\<And>j. j \<noteq> iid \<Longrightarrow> contents bl j = contents (w_bl w) j"
    by (rule data_write [OF ok(1), of "word_of_nat iid" "final_indirect_block w"]) (use ids(4) u in auto)
  have run: "finish_write stk (int s) old w = Inr (bl, ?ino)"
    using c assms(2,4) wr ids(5) b8 by (simp add: finish_write_def)
  have sub: "insert iid (set ids) \<subseteq> free_set bl0" using wrote_free(2) [OF ids(2)] .
  have blk: "file_block bl ?ino k = word_of_nat (ids ! k)" if "k < nblk s" for k
    using that n fin ids(1) new u by (intro final_pointers [where p = "word_of_nat iid"]) auto
  have "written bl0 s buf bl ?ino"
  proof (rule writtenI [where ids = ids])
    show "file_block bl ?ino k = word_of_nat (ids ! k) \<and> ids ! k \<in> data_blocks" if "k < nblk s" for k
      using blk [OF that] that ids(1) ok(3) by auto
    show "contents bl (ids ! k) i = buf (512 * k + i)"
      if "k < nblk s" "i < 512" "512 * k + i < s" for k i
    proof -
      have "ids ! k \<noteq> iid" using that(1) ids(1,3) by auto
      with frame wrote_byte [OF ids(2)] that ids(1) show ?thesis by simp
    qed
    show "contents bl b = contents bl0 b" if "b \<notin> free_set bl0" "b \<notin> bitmap_blocks" for b
    proof -
      from that(1) sub have "b \<noteq> iid" "b \<notin> set ids" by auto
      with frame wrote_frame [OF ids(2)] that(2) show ?thesis by simp
    qed
    show "inode_ok ?ino" using ids(1) n by (simp add: inode_ok_def)
  qed (use ok' assms(2,3) file_size_set [of s] b8 u ids(4) iid in auto)
  with that [OF run refl ids(1) ok(2) ids(3) sub _ blk] ok'(2) wrote_free(1) [OF ids(2)] show thesis
    by simp
qed

subsection \<open>The whole operation\<close>

text \<open>The direct pointers released at the start, as block numbers.\<close>

definition direct_blocks :: "inode \<Rightarrow> nat set" where
  "direct_blocks ino = unat ` set (take 8 (i_blocks ino)) \<inter> data_blocks"

definition pointers_ok :: "inode \<Rightarrow> bool" where
  "pointers_ok ino \<longleftrightarrow> inode_ok ino \<and> (\<forall>p \<in> set (i_blocks ino). unat p < BLOCK_NUM)"

lemma free_direct_blocks_spec:
  assumes "bl_ok bl" and "\<And>b. b \<in> set ids \<Longrightarrow> unat b < 32768"
  shows "\<exists>bl'. free_direct_blocks stk bl ids = Inr bl' \<and> bl_ok bl' \<and>
           free_set bl' = free_set bl \<union> (unat ` set ids \<inter> data_blocks) \<and>
           (\<forall>j. j \<notin> bitmap_blocks \<longrightarrow> contents bl' j = contents bl j)"
  using assms
proof (induction ids arbitrary: bl)
  case Nil
  then show ?case by (simp add: free_direct_blocks_def)
next
  case (Cons b ids)
  obtain bl1 where f: "free_block (stk Scratch) bl b = Inr bl1" "bl_ok bl1"
      "free_set bl1 = free_set bl \<union> ({unat b} \<inter> data_blocks)"
      "\<forall>j. j \<notin> bitmap_blocks \<longrightarrow> contents bl1 j = contents bl j"
    using free_block_spec [OF Cons.prems(1), of b "stk Scratch"] Cons.prems(2) by auto
  obtain bl' where r: "free_direct_blocks stk bl1 ids = Inr bl'" "bl_ok bl'"
      "free_set bl' = free_set bl1 \<union> (unat ` set ids \<inter> data_blocks)"
      "\<forall>j. j \<notin> bitmap_blocks \<longrightarrow> contents bl' j = contents bl1 j"
    using Cons.IH [OF f(2)] Cons.prems(2) by auto
  have "free_direct_blocks stk bl (b # ids) = Inr bl'"
    using f(1) r(1) by (simp add: free_direct_blocks_def)
  with f r show ?case by auto
qed

text \<open>
  The store of the new inode, shared by every outcome: the file written is the one read back
  through the table, and the other inodes are as they were.
\<close>

lemma store_written:
  assumes "written bl0 s buf bl ino" and "unat inum < 1024"
    and "\<forall>j. j \<notin> bitmap_blocks \<longrightarrow> contents bl0 j = contents bl00 j"
  obtains bl' where "put_inode stk bl inum (Some ino) = Inr bl'" and "bl_ok bl'"
    and "inode_at bl' (unat inum) = ino" and "readable bl' ino" and "file_size ino = s"
    and "\<And>i. i < s \<Longrightarrow> file_data bl' ino i = buf i"
    and "\<And>j. j < 1024 \<Longrightarrow> j \<noteq> unat inum \<Longrightarrow> inode_at bl' j = inode_at bl00 j"
    and "\<And>b. b \<in> data_blocks \<Longrightarrow> b \<notin> free_set bl0 \<Longrightarrow> contents bl' b = contents bl00 b"
    and "free_set bl' = free_set bl"
    and "\<And>k. k < nblk s \<Longrightarrow> file_block bl' ino k = file_block bl ino k"
proof -
  have w: "bl_ok bl" "readable bl ino" "file_size ino = s" "\<forall>i. i < s \<longrightarrow> file_data bl ino i = buf i"
    "\<forall>b. b \<notin> free_set bl0 \<longrightarrow> b \<notin> bitmap_blocks \<longrightarrow> contents bl b = contents bl0 b"
    using assms(1) by (auto simp: written_def)
  have "inode_ok ino" using w(2) by (simp add: readable_def)
  then obtain bl' where p: "put_inode stk bl inum (Some ino) = Inr bl'" "bl_ok bl'"
      "\<forall>j<1024. inode_at bl' j = (if j = unat inum then ino else inode_at bl j)"
      "free_set bl' = free_set bl" "\<forall>b. b \<notin> inode_blocks \<longrightarrow> contents bl' b = contents bl b"
    using put_inode_spec [OF w(1) assms(2)] by blast
  have data: "contents bl' b = contents bl b" if "b \<in> data_blocks" for b
    using p(5) that inode_blocks_apart(2) by blast
  note cong = file_data_cong [OF data w(2)]
  have "contents bl b = contents bl00 b" if "b \<in> inode_blocks" for b
  proof -
    have "b \<notin> free_set bl0" using that inode_blocks_apart(2) free_set_data by blast
    with w(5) that inode_blocks_apart(1) assms(3) show ?thesis by simp
  qed
  then have others: "inode_at bl j = inode_at bl00 j" if "j < 1024" for j
    using that by (intro inode_at_cong)
  show thesis
  proof (rule that [OF p(1,2)])
    show "inode_at bl' (unat inum) = ino" using p(3) assms(2) by simp
    show "contents bl' b = contents bl00 b" if "b \<in> data_blocks" "b \<notin> free_set bl0" for b
      using that data w(5) data_not_bitmap assms(3) by simp
  qed (use cong w p(3,4) others in auto)
qed

end
