(* ===== verification/File_Roundtrip.thy ===== *)
theory File_Roundtrip
  imports File_Write
begin

text \<open>
  \<open>write_file\<close> as a whole, and \<open>read_file\<close> after it: the sizes for which the bytes come back,
  the frame (other inodes and other blocks), the refused calls, and the sizes for which the
  ninth block lands in the slot of the indirect block.
\<close>

subsection \<open>The lock around a write\<close>

lemma il_writer_section:
  assumes "rw_idle (il_rwlocks il (unat inum))" and "unat inum < 1024"
  obtains il1 where "il_writer_enter t il inum = Inr il1" and "il_bm il1 = il_bm il"
    and "\<And>bl. il_writer_exit (il1\<lparr>il_bm := bl\<rparr>) inum = il\<lparr>il_bm := bl\<rparr>"
    and "il_writer_exit il1 inum = il"
proof -
  note sec = writer_section [OF assms(1), of t]
  let ?il1 = "il\<lparr>il_rwlocks := (il_rwlocks il)(unat inum := (il_rwlocks il (unat inum))
    \<lparr>activeWriters := 1, rw_mutex := Some t\<rparr>)\<rparr>"
  show thesis
    by (rule that [of ?il1]) (use assms(2) sec in
      \<open>simp_all add: il_writer_enter_def il_writer_exit_def\<close>)
qed

lemma write_file_run:
  assumes "il_ok il" and "in_use (il_bm il) (unat inum)" and "s \<le> 69632"
    and "write_inode stk (il_bm il) inum (inode_at (il_bm il) (unat inum)) buf (int s) = Inr bl'"
  shows "write_file stk t il inum buf (int s) = Inr (il\<lparr>il_bm := bl'\<rparr>)"
proof -
  have ok: "bl_ok (il_bm il)" "rw_idle (il_rwlocks il (unat inum))" "unat inum < 1024"
    using assms(1,2) by (auto simp: il_ok_def in_use_def)
  obtain il1 where "il_writer_enter t il inum = Inr il1" "il_bm il1 = il_bm il"
    "\<And>bl. il_writer_exit (il1\<lparr>il_bm := bl\<rparr>) inum = il\<lparr>il_bm := bl\<rparr>"
    using il_writer_section [OF ok(2,3), of t] by metis
  with get_inode_spec [OF ok(1), of stk inum] assms(2,3,4) show ?thesis
    by (simp add: write_file_def)
qed

subsection \<open>Sizes that are stored correctly\<close>

definition blocks_needed :: "nat \<Rightarrow> nat" where
  "blocks_needed s = nblk s + (if s > 4096 then 1 else 0)"

definition fresh_write_ok :: "nat \<Rightarrow> nat \<Rightarrow> bool" where
  "fresh_write_ok old s \<longleftrightarrow> s \<le> 4096 \<or> 4608 \<le> s \<and> s \<le> 69632 \<and> old \<le> 4096"

text \<open>The data blocks a file occupies: those of its bytes, and its indirect block.\<close>

definition owned :: "block_layer \<Rightarrow> inode \<Rightarrow> nat set" where
  "owned bl ino =
     (\<lambda>k. unat (file_block bl ino k)) ` {..<nblk (file_size ino)} \<union>
     (if file_size ino > 4096 then {unat (i_blocks ino ! 8)} else {})"

text \<open>
  \<open>rewritten bl i s buf bl'\<close>: inode \<open>i\<close> now is a file of \<open>s\<close> bytes that reads as \<open>buf\<close>; its
  type and times are kept; other inodes are untouched; so is every data block that was neither
  free nor one of the file's own direct blocks.
\<close>

definition rewritten :: "block_layer \<Rightarrow> nat \<Rightarrow> nat \<Rightarrow> buf \<Rightarrow> block_layer \<Rightarrow> bool" where
  "rewritten bl i s buf bl' \<longleftrightarrow>
     bl_ok bl' \<and> readable bl' (inode_at bl' i) \<and> file_size (inode_at bl' i) = s \<and>
     (\<forall>k. k < s \<longrightarrow> file_data bl' (inode_at bl' i) k = buf k) \<and>
     attr_of (inode_at bl' i) = (attr_of (inode_at bl i))\<lparr>a_size := word_of_nat s\<rparr> \<and>
     (\<forall>j<1024. j \<noteq> i \<longrightarrow> inode_at bl' j = inode_at bl j) \<and>
     (\<forall>b \<in> data_blocks. b \<notin> free_set bl \<longrightarrow> b \<notin> direct_blocks (inode_at bl i) \<longrightarrow>
        contents bl' b = contents bl b)"

text \<open>
  \<open>reowned bl i s bl'\<close>: the blocks of the new file were free or direct blocks of the old one,
  they are no longer free, and the pointer slots the file does not use keep their old values.
  A file of at most 4096 bytes also releases the block its ninth pointer names.
\<close>

definition reowned :: "block_layer \<Rightarrow> nat \<Rightarrow> nat \<Rightarrow> block_layer \<Rightarrow> bool" where
  "reowned bl i s bl' \<longleftrightarrow>
     (let ino = inode_at bl i; ino' = inode_at bl' i in
      card (owned bl' ino') = blocks_needed s \<and>
      owned bl' ino' \<subseteq> free_set bl \<union> direct_blocks ino \<and>
      free_set bl' = (free_set bl \<union> direct_blocks ino - owned bl' ino') \<union>
        (if s \<le> 4096 then {unat (i_blocks ino ! 8)} \<inter> data_blocks else {}) \<and>
      (\<forall>k<9. nblk s \<le> k \<longrightarrow> i_blocks ino' ! k = i_blocks ino ! k))"

text \<open>The loop and what follows it, for both kinds of size.\<close>

lemma write_finish_fresh:
  assumes ok: "bl_ok bl0" and ptrs: "pointers_ok ino" and sz: "fresh_write_ok (file_size ino) s"
    and space: "blocks_needed s \<le> card (free_set bl0)"
  obtains w bl1 ino' ids where
    "write_loop stk buf (int s) (int (file_size ino)) (start_write stk bl0 ino (int s)) = Inr w"
    and "finish_write stk (int s) (int (file_size ino)) w = Inr (bl1, ino')"
    and "written bl0 s buf bl1 ino'"
    and "attr_of ino' = (attr_of ino)\<lparr>a_size := word_of_nat s\<rparr>"
    and "\<And>k. k < nblk s \<Longrightarrow> file_block bl1 ino' k = word_of_nat (ids ! k)"
    and "length ids = nblk s" and "distinct ids" and "set ids \<subseteq> free_set bl0"
    and "s > 4096 \<Longrightarrow> unat (i_blocks ino' ! 8) \<in> free_set bl0 - set ids"
    and "free_set bl1 = (free_set bl0 - (set ids \<union> (if s > 4096 then {unat (i_blocks ino' ! 8)} else {}))) \<union>
           (if s \<le> 4096 then {unat (i_blocks ino ! 8)} \<inter> data_blocks else {})"
    and "\<And>k. k < 9 \<Longrightarrow> nblk s \<le> k \<Longrightarrow> i_blocks ino' ! k = i_blocks ino ! k"
proof (cases "s \<le> 4096")
  case True
  have len: "length (i_blocks ino) = 9" using ptrs by (simp add: pointers_ok_def inode_ok_def)
  have p8: "unat (i_blocks ino ! 8) < 32768" using ptrs len by (simp add: pointers_ok_def)
  have n: "nblk s \<le> 8" using True nblk_le [of s 8] by simp
  have "nblk s \<le> card (free_set bl0)" using space True by (simp add: blocks_needed_def)
  then obtain w where w: "write_loop stk buf (int s) (int (file_size ino))
      (start_write stk bl0 ino (int s)) = Inr w" "direct_inv stk bl0 ino s buf (nblk s) w"
    using write_loop_direct [OF _ ok len, of s stk buf] True by auto
  show thesis
  proof (rule finish_direct [OF w(2) True len p8, of "int (file_size ino)"])
    fix bl ids ino'
    assume f: "finish_write stk (int s) (int (file_size ino)) w = Inr (bl, ino')"
      and ino': "ino' = ino\<lparr>i_blocks := map word_of_nat ids @ drop (nblk s) (i_blocks ino),
                     i_size := word_of_int (int s)\<rparr>"
      and ids: "length ids = nblk s" "distinct ids" "set ids \<subseteq> free_set bl0"
        "free_set bl = free_set bl0 - set ids \<union> ({unat (i_blocks ino ! 8)} \<inter> data_blocks)"
      and wr: "written bl0 s buf bl ino'"
    show thesis
      by (rule that [OF w(1) f wr, of ids])
        (use ino' ids True n len in \<open>auto simp: attr_of_def file_block_def nth_append\<close>)
  qed
next
  case False
  have len: "length (i_blocks ino) = 9" using ptrs by (simp add: pointers_ok_def inode_ok_def)
  have big: "4608 \<le> s" "s \<le> 69632" "int (file_size ino) \<le> 4096"
    using sz False by (auto simp: fresh_write_ok_def)
  have n: "9 \<le> nblk s" using big(1) nblk_less_iff [of 8 s] by simp
  have "nblk s < card (free_set bl0)" using space False by (simp add: blocks_needed_def)
  then obtain w where w: "write_loop stk buf (int s) (int (file_size ino))
      (start_write stk bl0 ino (int s)) = Inr w" "indirect_inv bl0 ino s buf (nblk s) w"
    using write_loop_fresh_indirect [OF big ok len] by blast
  show thesis
  proof (rule finish_indirect [OF w(2) big len, of stk])
    fix bl ids iid ino'
    assume f: "finish_write stk (int s) (int (file_size ino)) w = Inr (bl, ino')"
      and ino': "ino' = ino\<lparr>i_blocks := map word_of_nat (take 8 ids) @ [word_of_nat iid],
                     i_size := word_of_int (int s)\<rparr>"
      and ids: "length ids = nblk s" "distinct ids" "iid \<notin> set ids"
        "insert iid (set ids) \<subseteq> free_set bl0" "free_set bl = free_set bl0 - insert iid (set ids)"
        "\<And>k. k < nblk s \<Longrightarrow> file_block bl ino' k = word_of_nat (ids ! k)"
      and wr: "written bl0 s buf bl ino'"
    have "iid \<in> data_blocks" using ids(4) free_set_data by blast
    then have "unat (i_blocks ino' ! 8) = iid"
      using ino' ids(1) n by (simp add: nth_append word_of_nat_data)
    with f ino' ids wr False n show thesis
      by (intro that [OF w(1) f wr, of ids]) (auto simp: attr_of_def)
  qed
qed

lemma owned_list:
  assumes "file_size ino = s" and "\<And>k. k < nblk s \<Longrightarrow> file_block bl ino k = word_of_nat (ids ! k)"
    and "length ids = nblk s" and "distinct ids" and "set ids \<subseteq> data_blocks"
    and "s > 4096 \<Longrightarrow> unat (i_blocks ino ! 8) \<notin> set ids"
  shows "owned bl ino = set ids \<union> (if s > 4096 then {unat (i_blocks ino ! 8)} else {})"
    and "card (owned bl ino) = blocks_needed s"
proof -
  have "unat (file_block bl ino k) = ids ! k" if "k < nblk s" for k
    using assms(2,3,5) that by (metis nth_mem subsetD word_of_nat_data)
  then have "(\<lambda>k. unat (file_block bl ino k)) ` {..<nblk s} = set ids"
    using assms(3) by (auto simp: set_conv_nth image_iff)
  then show own: "owned bl ino = set ids \<union> (if s > 4096 then {unat (i_blocks ino ! 8)} else {})"
    using assms(1) by (simp add: owned_def)
  show "card (owned bl ino) = blocks_needed s"
    unfolding own using assms(3,4,6) by (simp add: blocks_needed_def distinct_card)
qed

lemma write_inode_fresh:
  assumes ok: "bl_ok bl" "unat inum < 1024" and ino: "ino = inode_at bl (unat inum)"
    and ptrs: "pointers_ok ino" and sz: "fresh_write_ok (file_size ino) s"
    and old: "file_size ino \<le> 69632"
    and space: "blocks_needed s \<le> card (free_set bl \<union> direct_blocks ino)"
  shows "\<exists>bl'. write_inode stk bl inum ino buf (int s) = Inr bl' \<and>
           rewritten bl (unat inum) s buf bl' \<and> reowned bl (unat inum) s bl'"
proof -
  have old': "sint (i_size ino) = int (file_size ino)" using old by (rule file_size_sint)
  have "\<And>b. b \<in> set (take 8 (i_blocks ino)) \<Longrightarrow> unat b < 32768"
    using ptrs by (auto simp: pointers_ok_def dest: in_set_takeD)
  with free_direct_blocks_spec [OF ok(1), of "take 8 (i_blocks ino)" stk]
  obtain bl0 where f: "free_direct_blocks stk bl (take 8 (i_blocks ino)) = Inr bl0" "bl_ok bl0"
      "free_set bl0 = free_set bl \<union> direct_blocks ino"
      "\<forall>j. j \<notin> bitmap_blocks \<longrightarrow> contents bl0 j = contents bl j"
    by (auto simp: direct_blocks_def)
  obtain w bl1 ino' ids where loop: "write_loop stk buf (int s) (int (file_size ino))
        (start_write stk bl0 ino (int s)) = Inr w"
      "finish_write stk (int s) (int (file_size ino)) w = Inr (bl1, ino')"
    and wr: "written bl0 s buf bl1 ino'"
    and attr: "attr_of ino' = (attr_of ino)\<lparr>a_size := word_of_nat s\<rparr>"
    and blk: "\<And>k. k < nblk s \<Longrightarrow> file_block bl1 ino' k = word_of_nat (ids ! k)"
    and ids: "length ids = nblk s" "distinct ids" "set ids \<subseteq> free_set bl0"
      "s > 4096 \<Longrightarrow> unat (i_blocks ino' ! 8) \<in> free_set bl0 - set ids"
    and free: "free_set bl1 = (free_set bl0 - (set ids \<union> (if s > 4096 then {unat (i_blocks ino' ! 8)} else {}))) \<union>
           (if s \<le> 4096 then {unat (i_blocks ino ! 8)} \<inter> data_blocks else {})"
    and stale: "\<And>k. k < 9 \<Longrightarrow> nblk s \<le> k \<Longrightarrow> i_blocks ino' ! k = i_blocks ino ! k"
    by (rule write_finish_fresh [OF f(2) ptrs sz, of stk buf]) (use space f(3) in simp, rule that)
  obtain bl' where p: "put_inode stk bl1 inum (Some ino') = Inr bl'" "bl_ok bl'"
      "inode_at bl' (unat inum) = ino'" "readable bl' ino'" "file_size ino' = s"
      "\<And>i. i < s \<Longrightarrow> file_data bl' ino' i = buf i"
      "\<And>j. j < 1024 \<Longrightarrow> j \<noteq> unat inum \<Longrightarrow> inode_at bl' j = inode_at bl j"
      "\<And>b. b \<in> data_blocks \<Longrightarrow> b \<notin> free_set bl0 \<Longrightarrow> contents bl' b = contents bl b"
      "free_set bl' = free_set bl1"
      "\<And>k. k < nblk s \<Longrightarrow> file_block bl' ino' k = file_block bl1 ino' k"
    by (rule store_written [OF wr ok(2) f(4), of stk]) (rule that)
  have "write_inode stk bl inum ino buf (int s) = Inr bl'"
    using f(1) loop p(1) old' by (simp add: write_inode_def)
  moreover have "rewritten bl (unat inum) s buf bl'"
    using p attr f(3) ino by (simp add: rewritten_def)
  moreover have idd: "set ids \<subseteq> data_blocks" using ids(3) free_set_data by blast
  have "owned bl' ino' = set ids \<union> (if s > 4096 then {unat (i_blocks ino' ! 8)} else {})"
      "card (owned bl' ino') = blocks_needed s"
    using owned_list [OF p(5) _ ids(1,2) idd, of bl'] blk p(10) ids(4) by auto
  then have "reowned bl (unat inum) s bl'"
    using ids free stale p(3,9) f(3) ino by (auto simp: reowned_def Let_def)
  ultimately show ?thesis by blast
qed

lemma write_file_fresh:
  assumes "il_ok il" and "in_use (il_bm il) (unat inum)"
    and "pointers_ok (inode_at (il_bm il) (unat inum))"
    and "file_size (inode_at (il_bm il) (unat inum)) \<le> 69632"
    and "fresh_write_ok (file_size (inode_at (il_bm il) (unat inum))) s"
    and "blocks_needed s \<le> card (free_set (il_bm il) \<union> direct_blocks (inode_at (il_bm il) (unat inum)))"
  shows "\<exists>bl'. write_file stk t il inum buf (int s) = Inr (il\<lparr>il_bm := bl'\<rparr>) \<and>
           rewritten (il_bm il) (unat inum) s buf bl' \<and> reowned (il_bm il) (unat inum) s bl'"
proof -
  have "bl_ok (il_bm il)" "unat inum < 1024" "s \<le> 69632"
    using assms by (auto simp: il_ok_def in_use_def fresh_write_ok_def)
  with write_inode_fresh [OF _ _ refl assms(3,5,4,6), of stk buf]
    write_file_run [OF assms(1,2)] show ?thesis by blast
qed

lemma rewritten_in_use:
  assumes "rewritten bl i s buf bl'" and "in_use bl i"
  shows "in_use bl' i"
proof -
  have "a_type (attr_of (inode_at bl' i)) = a_type (attr_of (inode_at bl i))"
    using assms(1) by (simp add: rewritten_def)
  then have "i_type (inode_at bl' i) = i_type (inode_at bl i)"
    by (simp add: attr_of_def scast16_inject)
  with assms(2) show ?thesis by (simp add: in_use_def)
qed

subsection \<open>Refused writes\<close>

lemma write_file_refused:
  assumes "il_ok il" and "unat inum < 1024"
    and "sz < 0 \<or> sz > 69632 \<or> \<not> in_use (il_bm il) (unat inum)"
  shows "write_file stk t il inum buf sz = Inr il"
proof -
  have ok: "bl_ok (il_bm il)" "rw_idle (il_rwlocks il (unat inum))"
    using assms(1,2) by (auto simp: il_ok_def)
  obtain il1 where "il_writer_enter t il inum = Inr il1" "il_bm il1 = il_bm il"
      "il_writer_exit il1 inum = il"
    using il_writer_section [OF ok(2) assms(2), of t] by metis
  with get_inode_spec [OF ok(1), of stk inum] assms(3) show ?thesis
    by (auto simp: write_file_def)
qed

lemma write_file_out_of_range:
  "unat inum \<ge> 1024 \<Longrightarrow> write_file stk t il inum buf sz = Inl Array_bounds"
  by (simp add: write_file_def il_writer_enter_def)

subsection \<open>Sizes from 4097 to 4607\<close>

text \<open>
  The loop treats the ninth block as direct, so the pointer slot of the indirect block holds the
  id of a data block whose bytes are the file's own.
\<close>

lemma write_inode_ninth:
  assumes ok: "bl_ok bl" "unat inum < 1024" and ino: "ino = inode_at bl (unat inum)"
    and ptrs: "pointers_ok ino" and sz: "4096 < s" "s < 4608"
    and space: "9 \<le> card (free_set bl \<union> direct_blocks ino)"
  shows "\<exists>bl' ids. write_inode stk bl inum ino buf (int s) = Inr bl' \<and> bl_ok bl' \<and>
           i_blocks (inode_at bl' (unat inum)) = map word_of_nat ids \<and> length ids = 9 \<and> distinct ids \<and>
           set ids \<subseteq> free_set bl \<union> direct_blocks ino \<and>
           free_set bl' = free_set bl \<union> direct_blocks ino - set ids \<and>
           attr_of (inode_at bl' (unat inum)) = (attr_of ino)\<lparr>a_size := word_of_nat s\<rparr> \<and>
           (\<forall>i<512. 4096 + i < s \<longrightarrow> contents bl' (ids ! 8) i = buf (4096 + i))"
proof -
  have len: "length (i_blocks ino) = 9" using ptrs by (simp add: pointers_ok_def inode_ok_def)
  have n: "nblk s = 9"
    using sz nblk_less_iff [of 8 s] nblk_le [of s 9] by linarith
  have "\<And>b. b \<in> set (take 8 (i_blocks ino)) \<Longrightarrow> unat b < 32768"
    using ptrs by (auto simp: pointers_ok_def dest: in_set_takeD)
  with free_direct_blocks_spec [OF ok(1), of "take 8 (i_blocks ino)" stk]
  obtain bl0 where f: "free_direct_blocks stk bl (take 8 (i_blocks ino)) = Inr bl0" "bl_ok bl0"
      "free_set bl0 = free_set bl \<union> direct_blocks ino"
    by (auto simp: direct_blocks_def)
  obtain w where w: "write_loop stk buf (int s) (sint (i_size ino)) (start_write stk bl0 ino (int s)) = Inr w"
      "direct_inv stk bl0 ino s buf 9 w"
    using write_loop_direct [OF sz(2) f(2) len, of stk buf "sint (i_size ino)"] n space f(3) by auto
  obtain ids M where ids: "length ids = 9" "wrote bl0 s buf (w_bl w) ids (set ids) M"
      "w_ino w = ino\<lparr>i_blocks := map word_of_nat ids\<rparr>" "\<not> need_to_overwrite_indirect w"
    using w(2) len by (auto simp: direct_inv_def)
  have idd: "bl_ok (w_bl w)" "set ids \<subseteq> data_blocks" "distinct ids" using ids(2) by (auto simp: wrote_def)
  let ?ino = "ino\<lparr>i_blocks := map word_of_nat ids, i_size := word_of_int (int s)\<rparr>"
  have fin: "finish_write stk (int s) (sint (i_size ino)) w = Inr (w_bl w, ?ino)"
    using sz ids(3,4) by (simp add: finish_write_def)
  have "inode_ok ?ino" using ids(1) by (simp add: inode_ok_def)
  then obtain bl' where p: "put_inode stk (w_bl w) inum (Some ?ino) = Inr bl'" "bl_ok bl'"
      "inode_at bl' (unat inum) = ?ino" "\<forall>b. b \<notin> inode_blocks \<longrightarrow> contents bl' b = contents (w_bl w) b"
      "free_set bl' = free_set (w_bl w)"
    using put_inode_spec [OF idd(1) ok(2)] ok(2) by fastforce
  have "write_inode stk bl inum ino buf (int s) = Inr bl'"
    using f(1) w(1) fin p(1) by (simp add: write_inode_def)
  moreover have "contents bl' (ids ! 8) i = buf (4096 + i)" if "i < 512" "4096 + i < s" for i
  proof -
    have "ids ! 8 \<in> data_blocks" using idd(2) ids(1) by auto
    then have "ids ! 8 \<notin> inode_blocks" using inode_blocks_apart(2) by auto
    with wrote_byte [OF ids(2), of 8 i] that ids(1) p(4) show ?thesis by simp
  qed
  ultimately show ?thesis
    using p ids(1) idd(3) wrote_free(1,2) [OF ids(2)] f(3)
    by (intro exI [of _ bl'] exI [of _ ids]) (auto simp: attr_of_def)
qed

text \<open>Reading such a file back uses its bytes 4096 to 4099 as a block number.\<close>

lemma read_loop_upto:
  assumes "\<And>k. k < m \<Longrightarrow> unat (file_block bl ino k) < 32768" and "inode_ok ino" and "n \<le> 69632"
    and "512 * m < n"
    and ind: "\<forall>j<128. get32 ind (4 * j) = get32 (contents bl (unat (i_blocks ino ! 8))) (4 * j)"
  shows "\<exists>buf'. read_loop stk bl ino ind (int n) 0 0 0 buf =
           read_loop stk bl ino ind (int n - 512 * int m) (512 * int m) m (m - 8) buf'"
  using assms(1,4)
proof (induction m)
  case 0
  then show ?case by auto
next
  case (Suc m)
  then obtain buf' where IH: "read_loop stk bl ino ind (int n) 0 0 0 buf =
      read_loop stk bl ino ind (int n - 512 * int m) (512 * int m) m (m - 8) buf'" by auto
  have "512 * m < n" using Suc.prems(2) by simp
  from read_loop_step [OF this assms(3,2), of ind bl stk buf'] ind
  obtain junk where step: "read_loop stk bl ino ind (int n - 512 * int m) (512 * int m) m (m - 8) buf' =
     rbind (bl_read_block bl (file_block bl ino m) junk) (\<lambda>full.
       read_loop stk bl ino ind (int n - 512 * int m - min 512 (int n - 512 * int m))
         (512 * int m + min 512 (int n - 512 * int m)) (m + 1) (m + 1 - 8)
         (memcpy buf' (512 * m) full 0 (min 512 (n - 512 * m))))" by blast
  obtain full where "bl_read_block bl (file_block bl ino m) junk = Inr full"
    using read_array_byte [of "file_block bl ino m" bl junk] Suc.prems(1) by blast
  moreover have "min 512 (int n - 512 * int m) = 512" using Suc.prems(2) by simp
  ultimately show ?case using IH step by (auto simp: algebra_simps)
qed

lemma read_file_run:
  assumes "il_ok il" and "in_use (il_bm il) (unat inum)"
    and "ino = (inode_at (il_bm il) (unat inum))\<lparr>i_atime := ucast now\<rparr>"
    and "unat (i_blocks ino ! 8) < 32768"
  obtains bl' ind il' where "read_file stk t now il inum (Some b0) (Some n0) =
      rbind (read_loop stk bl' ino ind (sint (i_size ino)) 0 0 0 (stk Malloc_buf)) (\<lambda>buf.
        Inr (Some (Some buf), Some (sint (i_size ino)), il'))"
    and "\<And>b. b \<notin> inode_blocks \<Longrightarrow> contents bl' b = contents (il_bm il) b"
    and "\<forall>j<128. get32 ind (4 * j) = get32 (contents bl' (unat (i_blocks ino ! 8))) (4 * j)"
proof -
  let ?bl = "il_bm il" and ?i = "unat inum"
  have i: "?i < 1024" and ok: "bl_ok ?bl" "rw_idle (il_rwlocks il ?i)"
    using assms(1,2) by (auto simp: in_use_def il_ok_def)
  obtain il1 where enter: "il_reader_enter t il inum = Inr il1" "il_bm il1 = ?bl"
    and exit: "\<And>bl. il_reader_exit (il1\<lparr>il_bm := bl\<rparr>) inum =
      Inr (il\<lparr>il_bm := bl, il_rwlocks := after_read (il_rwlocks il) ?i\<rparr>)"
    using il_reader_section [OF ok(2) i, of t] by metis
  have "inode_ok ino" using inode_at_ok [of ?bl ?i] assms(3) by (simp add: inode_ok_def)
  then obtain bl' where put: "put_inode stk ?bl inum (Some ino) = Inr bl'"
      "\<forall>b. b \<notin> inode_blocks \<longrightarrow> contents bl' b = contents ?bl b"
    using put_inode_spec [OF ok(1) i] by blast
  obtain ind where ind: "bl_read_block bl' (i_blocks ino ! 8) (stk Indirect_block) = Inr ind"
      "\<And>i. i < 512 \<Longrightarrow> ind i = contents bl' (unat (i_blocks ino ! 8)) i"
    by (rule read_array_byte [OF assms(4), of bl' "stk Indirect_block"]) (rule that)
  let ?il = "il\<lparr>il_bm := bl', il_rwlocks := after_read (il_rwlocks il) ?i\<rparr>"
  have run: "read_file stk t now il inum (Some b0) (Some n0) =
      rbind (read_loop stk bl' ino ind (sint (i_size ino)) 0 0 0 (stk Malloc_buf)) (\<lambda>buf.
        Inr (Some (Some buf), Some (sint (i_size ino)), ?il))"
    using enter exit put(1) ind(1) assms(2,3) get_inode_spec [OF ok(1), of stk inum]
    by (simp add: read_file_def Let_def)
  have "\<forall>j<128. get32 ind (4 * j) = get32 (contents bl' (unat (i_blocks ino ! 8))) (4 * j)"
    using ind(2) by (auto intro!: get32_cong)
  with that [OF run] put(2) show thesis by blast
qed

lemma read_file_bad_pointer:
  assumes use: "il_ok il" "in_use (il_bm il) (unat inum)" and ino: "ino = inode_at (il_bm il) (unat inum)"
    and sz: "4096 < file_size ino" "file_size ino \<le> 69632"
    and direct: "\<forall>k<8. unat (i_blocks ino ! k) \<in> data_blocks"
    and p8: "unat (i_blocks ino ! 8) \<in> data_blocks"
    and bad: "get32 (contents (il_bm il) (unat (i_blocks ino ! 8))) 0 = 32768"
  shows "read_file stk t now il inum (Some b0) (Some n0) = Inl Array_bounds"
proof -
  let ?ino = "ino\<lparr>i_atime := ucast now\<rparr>" and ?s = "file_size ino"
  have n: "sint (i_size ?ino) = int ?s" using file_size_sint [OF sz(2)] by simp
  obtain bl2 ind il' where run: "read_file stk t now il inum (Some b0) (Some n0) =
      rbind (read_loop stk bl2 ?ino ind (int ?s) 0 0 0 (stk Malloc_buf)) (\<lambda>buf.
        Inr (Some (Some buf), Some (int ?s), il'))"
    and frame: "\<And>b. b \<notin> inode_blocks \<Longrightarrow> contents bl2 b = contents (il_bm il) b"
    and ind: "\<forall>j<128. get32 ind (4 * j) = get32 (contents bl2 (unat (i_blocks ?ino ! 8))) (4 * j)"
    using read_file_run [OF use refl, of now stk t b0 n0] p8 n ino by (auto simp: data_blocks_def)
  have "contents bl2 (unat (i_blocks ino ! 8)) = contents (il_bm il) (unat (i_blocks ino ! 8))"
    using frame p8 inode_blocks_apart(2) by blast
  with bad ind [rule_format, of 0] have ptr: "get32 ind 0 = 32768" by simp
  have "unat (file_block bl2 ?ino k) < 32768" if "k < 8" for k
    using direct that by (simp add: file_block_def data_blocks_def)
  then obtain buf' where "read_loop stk bl2 ?ino ind (int ?s) 0 0 0 (stk Malloc_buf) =
      read_loop stk bl2 ?ino ind (int ?s - 4096) 4096 8 0 buf'"
    using read_loop_upto [of 8 bl2 ?ino ?s ind stk "stk Malloc_buf"] sz ind
      inode_at_ok [of "il_bm il" "unat inum"] ino by (auto simp: inode_ok_def)
  also have "\<dots> = Inl Array_bounds"
    using sz(1) ptr bs.rd_past_end [of 32768 bl2] by (subst read_loop.simps) (simp add: Let_def)
  finally show ?thesis using run by simp
qed

subsection \<open>A fresh layer\<close>

lemma fresh_layer:
  obtains il where "new_inode_layer stk ts False = Inr il" and "il_ok il" and "in_use (il_bm il) 0"
    and "pointers_ok (inode_at (il_bm il) 0)" and "file_size (inode_at (il_bm il) 0) = 0"
    and "free_set (il_bm il) = data_blocks"
    and "card (free_set (il_bm il) \<union> direct_blocks (inode_at (il_bm il) 0)) = 32645"
    and "i_blocks (inode_at (il_bm il) 0) = replicate 9 0"
proof -
  obtain bl where new: "new_inode_layer stk ts False = Inr \<lparr>il_bm = bl, il_rwlocks = (\<lambda>_. new_a4_rwlock)\<rparr>"
      "bl_ok bl" "free_set bl = data_blocks" "inode_at bl 0 = new_inode ts 1"
    using new_inode_layer_spec [of stk ts] by auto
  let ?il = "\<lparr>il_bm = bl, il_rwlocks = (\<lambda>_. new_a4_rwlock)\<rparr>"
  have ino: "i_type (new_inode ts 1) = 1" "i_size (new_inode ts 1) = 0" "i_blocks (new_inode ts 1) = replicate 9 0"
    by (cases ts; simp add: new_inode_def)+
  have "direct_blocks (new_inode ts 1) \<subseteq> data_blocks" by (simp add: direct_blocks_def)
  then have "card (free_set bl \<union> direct_blocks (inode_at bl 0)) = 32645"
    using new(3,4) by (simp add: Un_absorb2) (simp add: data_blocks_def)
  with that [of ?il] new ino show thesis
    by (auto simp: il_ok_def in_use_def pointers_ok_def file_size_def)
qed

subsection \<open>Properties\<close>

text \<open>
  C5: Bytes written to an inode are the bytes the next read of it returns, with their number, for
  every size up to 4096 and, when the file had no indirect block before, every size from 4608 to
  69632, as long as there are enough free blocks.
\<close>

theorem read_after_write_file:
  assumes "il_ok il" and "in_use (il_bm il) (unat inum)"
    and "pointers_ok (inode_at (il_bm il) (unat inum))"
    and "file_size (inode_at (il_bm il) (unat inum)) \<le> 69632"
    and "fresh_write_ok (file_size (inode_at (il_bm il) (unat inum))) s"
    and "blocks_needed s \<le> card (free_set (il_bm il) \<union> direct_blocks (inode_at (il_bm il) (unat inum)))"
  shows "\<exists>il1 il2 buf'. write_file stk t il inum buf (int s) = Inr il1 \<and>
           read_file stk' t' now il1 inum (Some b0) (Some n0) =
             Inr (Some (Some buf'), Some (int s), il2) \<and>
           eq_upto s buf' buf"
proof -
  obtain bl' where w: "write_file stk t il inum buf (int s) = Inr (il\<lparr>il_bm := bl'\<rparr>)"
      and r: "rewritten (il_bm il) (unat inum) s buf bl'"
    using write_file_fresh [OF assms] by blast
  let ?il = "il\<lparr>il_bm := bl'\<rparr>"
  have "il_ok ?il" "readable (il_bm ?il) (inode_at (il_bm ?il) (unat inum))"
    using assms(1) r by (auto simp: il_ok_def rewritten_def)
  moreover have "in_use (il_bm ?il) (unat inum)" using rewritten_in_use [OF r assms(2)] by simp
  ultimately obtain buf' bl2 where rd: "read_file stk' t' now ?il inum (Some b0) (Some n0) =
      Inr (Some (Some buf'), Some (int (file_size (inode_at bl' (unat inum)))),
           ?il\<lparr>il_bm := bl2, il_rwlocks := after_read (il_rwlocks ?il) (unat inum)\<rparr>)"
    "\<forall>i < file_size (inode_at bl' (unat inum)). buf' i = file_data bl' (inode_at bl' (unat inum)) i"
    using read_file_spec [of ?il inum stk' t' now b0 n0] by auto
  with w r show ?thesis by (auto simp: rewritten_def eq_upto_def)
qed

theorem read_after_write_file_witness:
  "\<exists>il il1 il2 buf'. new_inode_layer (\<lambda>_ _. 0) (0, 0, 0) False = Inr il \<and>
     write_file (\<lambda>_ _. 0) 1 il 0 (\<lambda>i. word_of_nat i) (int 5000) = Inr il1 \<and>
     read_file (\<lambda>_ _. 9) 2 3 il1 0 (Some None) (Some 0) = Inr (Some (Some buf'), Some (int 5000), il2) \<and>
     eq_upto 5000 buf' (\<lambda>i. word_of_nat i)"
proof -
  obtain il where il: "new_inode_layer (\<lambda>_ _. 0) (0, 0, 0) False = Inr il" "il_ok il" "in_use (il_bm il) 0"
      "pointers_ok (inode_at (il_bm il) 0)" "file_size (inode_at (il_bm il) 0) = 0"
      "card (free_set (il_bm il) \<union> direct_blocks (inode_at (il_bm il) 0)) = 32645"
    by (rule fresh_layer) (rule that)
  have "\<exists>il1 il2 buf'. write_file (\<lambda>_ _. 0) 1 il 0 (\<lambda>i. word_of_nat i) (int 5000) = Inr il1 \<and>
     read_file (\<lambda>_ _. 9) 2 3 il1 0 (Some None) (Some 0) = Inr (Some (Some buf'), Some (int 5000), il2) \<and>
     eq_upto 5000 buf' (\<lambda>i. word_of_nat i)"
    by (rule read_after_write_file [OF il(2)])
      (use il in \<open>simp_all add: fresh_write_ok_def blocks_needed_def nblk_def\<close>)
  with il(1) show ?thesis by blast
qed

text \<open>
  C6: \<open>read_file\<close> returns exactly the bytes that the pointers of the inode and of its indirect
  block lead to, as many as the size says; it changes the access time of that inode and
  nothing else on the disk.
\<close>

theorem read_file_correct:
  assumes "il_ok il" and "in_use (il_bm il) (unat inum)"
    and "readable (il_bm il) (inode_at (il_bm il) (unat inum))"
  shows "\<exists>buf il'. read_file stk t now il inum (Some b0) (Some n0) =
      Inr (Some (Some buf), Some (int (file_size (inode_at (il_bm il) (unat inum)))), il') \<and>
    (\<forall>i < file_size (inode_at (il_bm il) (unat inum)).
       buf i = file_data (il_bm il) (inode_at (il_bm il) (unat inum)) i) \<and>
    (\<forall>j<1024. inode_at (il_bm il') j = (if j = unat inum
       then (inode_at (il_bm il) j)\<lparr>i_atime := ucast now\<rparr> else inode_at (il_bm il) j)) \<and>
    (\<forall>b. b \<notin> inode_blocks \<longrightarrow> contents (il_bm il') b = contents (il_bm il) b)"
  using read_file_spec [OF assms, of stk t now b0 n0] by fastforce

theorem read_file_correct_witness:
  "\<exists>il0 il buf il'. new_inode_layer (\<lambda>_ _. 0) (0, 0, 0) False = Inr il0 \<and>
     write_file (\<lambda>_ _. 0) 1 il0 0 (\<lambda>_. 7) (int 600) = Inr il \<and>
     read_file (\<lambda>_ _. 9) 2 3 il 0 (Some None) (Some 0) = Inr (Some (Some buf), Some 600, il') \<and> buf 599 = 7 \<and>
     i_atime (inode_at (il_bm il') 0) = 3"
proof -
  obtain il0 where il0: "new_inode_layer (\<lambda>_ _. 0) (0, 0, 0) False = Inr il0" "il_ok il0" "in_use (il_bm il0) 0"
      "pointers_ok (inode_at (il_bm il0) 0)" "file_size (inode_at (il_bm il0) 0) = 0"
      "card (free_set (il_bm il0) \<union> direct_blocks (inode_at (il_bm il0) 0)) = 32645"
    by (rule fresh_layer) (rule that)
  have "\<exists>bl'. write_file (\<lambda>_ _. 0) 1 il0 0 (\<lambda>_. 7) (int 600) = Inr (il0\<lparr>il_bm := bl'\<rparr>) \<and>
      rewritten (il_bm il0) (unat (0 :: u32)) 600 (\<lambda>_. 7) bl' \<and> reowned (il_bm il0) (unat (0 :: u32)) 600 bl'"
    by (rule write_file_fresh [OF il0(2)])
      (use il0 in \<open>simp_all add: fresh_write_ok_def blocks_needed_def nblk_def\<close>)
  then obtain bl' where w: "write_file (\<lambda>_ _. 0) 1 il0 0 (\<lambda>_. 7) (int 600) = Inr (il0\<lparr>il_bm := bl'\<rparr>)"
      "rewritten (il_bm il0) 0 600 (\<lambda>_. 7) bl'" by auto
  let ?il = "il0\<lparr>il_bm := bl'\<rparr>" and ?z = "unat (0 :: u32)"
  have r: "bl_ok bl'" "readable bl' (inode_at bl' 0)" "file_size (inode_at bl' 0) = 600"
    "file_data bl' (inode_at bl' 0) 599 = 7"
    using w(2) by (simp_all add: rewritten_def)
  have "il_ok ?il" "in_use (il_bm ?il) ?z" "readable (il_bm ?il) (inode_at (il_bm ?il) ?z)"
    using il0(2,3) r rewritten_in_use [OF w(2)] by (simp_all add: il_ok_def)
  from read_file_correct [OF this, of "\<lambda>_ _. 9" 2 3 None 0] r(3,4) il0(1) w(1) show ?thesis by fastforce
qed

text \<open>
  A write with a negative size, with more than 69632 bytes or to an unused inode changes
  nothing, not even the lock; \<open>put\<close> reports \<open>OK\<close> all the same.
\<close>

theorem refused_write_no_effect:
  assumes "il_ok il" and "unat inum < 1024"
    and "sz < 0 \<or> 69632 < sz \<or> i_type (inode_at (il_bm il) (unat inum)) = 0"
  shows "write_file stk t il inum buf sz = Inr il"
  using assms by (intro write_file_refused) (auto simp: in_use_def)

theorem refused_write_no_effect_witness:
  "\<exists>il. new_inode_layer (\<lambda>_ _. 0) (0, 0, 0) False = Inr il \<and>
     write_file (\<lambda>_ _. 0) 1 il 0 (\<lambda>_. 7) 69633 = Inr il"
proof -
  obtain il where "new_inode_layer (\<lambda>_ _. 0) (0, 0, 0) False = Inr il" "il_ok il"
    by (rule fresh_layer) (rule that)
  with refused_write_no_effect [of il 0 69633 "\<lambda>_ _. 0" 1 "\<lambda>_. 7"] show ?thesis by auto
qed

text \<open>
  An inode number of 1024 or more is used as an index of the array of locks before it is
  checked: both \<open>read_file\<close> and \<open>write_file\<close> leave the array.
\<close>

theorem inum_out_of_range_faults:
  assumes "unat inum \<ge> INODE_NUM"
  shows "write_file stk t il inum buf sz = Inl Array_bounds \<and>
    read_file stk t now il inum b n = Inl Array_bounds"
  using assms write_file_out_of_range read_file_out_of_range by simp

theorem inum_out_of_range_faults_witness:
  "write_file (\<lambda>_ _. 0) 1 \<lparr>il_bm = new_block_layer False, il_rwlocks = (\<lambda>_. new_a4_rwlock)\<rparr> 1024 (\<lambda>_. 0) 1 =
   Inl Array_bounds"
proof -
  have "unat (1024 :: u32) \<ge> INODE_NUM" by simp
  from inum_out_of_range_faults [OF this] show ?thesis by blast
qed

text \<open>A file whose indirect block starts with the id of a data block is read through that id.\<close>

lemma ninth_readable:
  assumes "\<forall>k<9. unat (i_blocks ino ! k) \<in> data_blocks" and "inode_ok ino"
    and "4096 < file_size ino" and "file_size ino < 4608"
    and "unat (get32 (contents bl (unat (i_blocks ino ! 8))) 0) \<in> data_blocks"
  shows "readable bl ino"
    and "4096 + i < file_size ino \<Longrightarrow>
      file_data bl ino (4096 + i) = contents bl (unat (get32 (contents bl (unat (i_blocks ino ! 8))) 0)) i"
proof -
  have "unat (file_block bl ino k) \<in> data_blocks" if "k < nblk (file_size ino)" for k
  proof -
    have "k \<le> 8" using that nblk_le [of "file_size ino" 9] assms(4) by simp
    then show ?thesis using assms(1,5) by (cases "k = 8") (simp_all add: file_block_def)
  qed
  moreover have "unat (i_blocks ino ! 8) \<in> data_blocks" using assms(1) by simp
  ultimately show "readable bl ino" using assms(2,4) by (auto simp: readable_def data_blocks_def)
  show "file_data bl ino (4096 + i) = contents bl (unat (get32 (contents bl (unat (i_blocks ino ! 8))) 0)) i"
    if "4096 + i < file_size ino"
  proof -
    have "i < 512" using that assms(4) by simp
    then have "(8 * 512 + i) div 512 = 8" "(8 * 512 + i) mod 512 = i" by (simp_all only: div_mult_self3 mod_mult_self3) simp_all
    then have "(4096 + i) div 512 = 8" "(4096 + i) mod 512 = i" by simp_all
    then show ?thesis by (simp add: file_data_def file_block_def)
  qed
qed

text \<open>
  C22: A write of 4100 to 4607 bytes to a file with valid pointers, when nine blocks are free or
  the file's own, succeeds, but stores the ninth data block in the pointer slot of the indirect
  block: \<open>blocks[8]\<close> is a data block that holds the file's bytes from 4096 on. A later read takes
  the file's own bytes 4096 to 4099 for the number of its ninth block. If they spell 32768 the
  read leaves the array of blocks; if they spell a data block, the read succeeds and returns that
  block's bytes, whatever file they belong to, in place of the bytes from 4096 on.
\<close>

theorem ninth_block_misread:
  assumes "il_ok il" and "in_use (il_bm il) (unat inum)"
    and "pointers_ok (inode_at (il_bm il) (unat inum))" and "4100 \<le> s" and "s < 4608"
    and "9 \<le> card (free_set (il_bm il) \<union> direct_blocks (inode_at (il_bm il) (unat inum)))"
  shows "\<exists>il1 p. write_file stk t il inum buf (int s) = Inr il1 \<and>
    i_blocks (inode_at (il_bm il1) (unat inum)) ! 8 = p \<and> unat p \<in> data_blocks \<and>
    (\<forall>i. 4096 + i < s \<longrightarrow> contents (il_bm il1) (unat p) i = buf (4096 + i)) \<and>
    (get32 buf 4096 = 32768 \<longrightarrow> read_file stk' t' now il1 inum (Some b0) (Some n0) = Inl Array_bounds) \<and>
    (unat (get32 buf 4096) \<in> data_blocks \<longrightarrow>
      (\<exists>buf' il2. read_file stk' t' now il1 inum (Some b0) (Some n0) = Inr (Some (Some buf'), Some (int s), il2) \<and>
        (\<forall>i. 4096 + i < s \<longrightarrow> buf' (4096 + i) = contents (il_bm il1) (unat (get32 buf 4096)) i)))"
proof -
  let ?i = "unat inum"
  have ok: "bl_ok (il_bm il)" "?i < 1024" using assms(1,2) by (auto simp: il_ok_def in_use_def)
  obtain bl1 ids where w: "write_inode stk (il_bm il) inum (inode_at (il_bm il) ?i) buf (int s) = Inr bl1"
      "bl_ok bl1" "i_blocks (inode_at bl1 ?i) = map word_of_nat ids" "length ids = 9"
      "set ids \<subseteq> free_set (il_bm il) \<union> direct_blocks (inode_at (il_bm il) ?i)"
      "attr_of (inode_at bl1 ?i) = (attr_of (inode_at (il_bm il) ?i))\<lparr>a_size := word_of_nat s\<rparr>"
      "\<forall>i<512. 4096 + i < s \<longrightarrow> contents bl1 (ids ! 8) i = buf (4096 + i)"
    using write_inode_ninth [OF ok refl assms(3) _ assms(5,6), of stk buf] assms(4) by auto
  have data: "unat (i_blocks (inode_at bl1 ?i) ! k) = ids ! k \<and> ids ! k \<in> data_blocks" if "k < 9" for k
  proof -
    have "ids ! k \<in> set ids" using w(4) that by simp
    then have "ids ! k \<in> data_blocks" using w(5) free_set_data by (auto simp: direct_blocks_def)
    then show ?thesis using w(3,4) that by (simp add: word_of_nat_data)
  qed
  let ?il = "il\<lparr>il_bm := bl1\<rparr>" and ?ino = "inode_at bl1 ?i"
  have il1: "write_file stk t il inum buf (int s) = Inr ?il"
    using assms(4,5) by (intro write_file_run [OF assms(1,2) _ w(1)]) simp
  have "i_type ?ino = i_type (inode_at (il_bm il) ?i)" and sz: "file_size ?ino = s"
    using w(6) assms(5) by (simp_all add: attr_of_def scast16_inject file_size_def)
  then have use: "il_ok ?il" "in_use (il_bm ?il) ?i" using assms(1,2) w(2) by (auto simp: il_ok_def in_use_def)
  have p8: "unat (i_blocks ?ino ! 8) = ids ! 8" "ids ! 8 \<in> data_blocks" using data [of 8] by simp_all
  have ninth: "contents bl1 (ids ! 8) i = buf (4096 + i)" if "4096 + i < s" for i
    using w(7) assms(5) that by simp
  then have ptr: "get32 (contents bl1 (ids ! 8)) 0 = get32 buf 4096" using assms(4) by (auto simp: get32_def)
  have "read_file stk' t' now ?il inum (Some b0) (Some n0) = Inl Array_bounds" if "get32 buf 4096 = 32768"
    using that data sz assms(4,5) ptr by (intro read_file_bad_pointer [OF use refl]) simp_all
  moreover have "\<exists>buf' il2. read_file stk' t' now ?il inum (Some b0) (Some n0) =
      Inr (Some (Some buf'), Some (int s), il2) \<and>
      (\<forall>i. 4096 + i < s \<longrightarrow> buf' (4096 + i) = contents bl1 (unat (get32 buf 4096)) i)"
    if "unat (get32 buf 4096) \<in> data_blocks"
  proof -
    have nine: "\<forall>k<9. unat (i_blocks ?ino ! k) \<in> data_blocks" using data by auto
    have "unat (get32 (contents bl1 (unat (i_blocks ?ino ! 8))) 0) \<in> data_blocks"
      using that ptr p8(1) by simp
    note rd = ninth_readable [OF nine inode_at_ok _ _ this]
    have "readable (il_bm ?il) (inode_at (il_bm ?il) ?i)" using rd(1) sz assms(4,5) by simp
    from read_file_spec [OF use this, of stk' t' now b0 n0] rd(2) sz assms(4,5) ptr p8(1) show ?thesis by fastforce
  qed
  ultimately show ?thesis using il1 p8 ninth by (intro exI [of _ ?il] exI [of _ "i_blocks ?ino ! 8"]) simp
qed

theorem ninth_block_misread_witness:
  "\<exists>il il1 il2 il3 buf'. new_inode_layer (\<lambda>_ _. 0) (0, 0, 0) False = Inr il \<and>
     write_file (\<lambda>_ _. 0) 1 il 0 (put32 (\<lambda>_. 0) 4096 32768) (int 4200) = Inr il1 \<and>
     read_file (\<lambda>_ _. 0) 1 2 il1 0 (Some None) (Some 0) = Inl Array_bounds \<and>
     write_file (\<lambda>_ _. 0) 1 il 0 (put32 (\<lambda>_. 0) 4096 500) (int 4200) = Inr il2 \<and>
     read_file (\<lambda>_ _. 0) 1 2 il2 0 (Some None) (Some 0) = Inr (Some (Some buf'), Some (int 4200), il3) \<and>
     buf' 4096 = contents (il_bm il2) 500 0"
proof -
  obtain il where il: "new_inode_layer (\<lambda>_ _. 0) (0, 0, 0) False = Inr il" "il_ok il" "in_use (il_bm il) 0"
      "pointers_ok (inode_at (il_bm il) 0)"
      "card (free_set (il_bm il) \<union> direct_blocks (inode_at (il_bm il) 0)) = 32645"
    by (rule fresh_layer) (rule that)
  have misread: "\<exists>il1 p. write_file (\<lambda>_ _. 0) 1 il 0 buf (int 4200) = Inr il1 \<and>
    i_blocks (inode_at (il_bm il1) (unat (0 :: u32))) ! 8 = p \<and> unat p \<in> data_blocks \<and>
    (\<forall>i. 4096 + i < 4200 \<longrightarrow> contents (il_bm il1) (unat p) i = buf (4096 + i)) \<and>
    (get32 buf 4096 = 32768 \<longrightarrow> read_file (\<lambda>_ _. 0) 1 2 il1 0 (Some None) (Some 0) = Inl Array_bounds) \<and>
    (unat (get32 buf 4096) \<in> data_blocks \<longrightarrow>
      (\<exists>buf' il2. read_file (\<lambda>_ _. 0) 1 2 il1 0 (Some None) (Some 0) = Inr (Some (Some buf'), Some (int 4200), il2) \<and>
        (\<forall>i. 4096 + i < 4200 \<longrightarrow> buf' (4096 + i) = contents (il_bm il1) (unat (get32 buf 4096)) i)))" for buf
    by (rule ninth_block_misread [OF il(2)]) (use il in simp_all)
  have g: "get32 (put32 (\<lambda>_. 0) 4096 32768) 4096 = 32768" "get32 (put32 (\<lambda>_. 0) 4096 500) 4096 = 500"
    by (simp_all add: buf_simps)
  obtain il1 where bad: "write_file (\<lambda>_ _. 0) 1 il 0 (put32 (\<lambda>_. 0) 4096 32768) (int 4200) = Inr il1"
      "read_file (\<lambda>_ _. 0) 1 2 il1 0 (Some None) (Some 0) = Inl Array_bounds"
    using misread [of "put32 (\<lambda>_. 0) 4096 32768", unfolded g] by blast
  have "unat (500 :: u32) \<in> data_blocks" by (simp add: data_blocks_def)
  then obtain il2 il3 buf' where "write_file (\<lambda>_ _. 0) 1 il 0 (put32 (\<lambda>_. 0) 4096 500) (int 4200) = Inr il2"
      "read_file (\<lambda>_ _. 0) 1 2 il2 0 (Some None) (Some 0) = Inr (Some (Some buf'), Some (int 4200), il3)"
      "\<forall>i. 4096 + i < 4200 \<longrightarrow> buf' (4096 + i) = contents (il_bm il2) (unat (500 :: u32)) i"
    using misread [of "put32 (\<lambda>_. 0) 4096 500", unfolded g] by blast
  with il(1) bad spec [OF this(3), of 0] show ?thesis by fastforce
qed

end
