(* ===== verification/File_Remove.thy ===== *)
theory File_Remove
  imports File_Roundtrip
begin

text \<open>
  What \<open>remove_file\<close> does: the blocks it releases, the inode it frees, what it leaves alone, and
  the sizes for which its count of indirect blocks is one too high.
\<close>

subsection \<open>Releasing a set of blocks\<close>

definition released :: "block_layer \<Rightarrow> block_layer \<Rightarrow> nat set \<Rightarrow> bool" where
  "released bl bl' S \<longleftrightarrow>
     bl_ok bl' \<and> free_set bl' = free_set bl \<union> (S \<inter> data_blocks) \<and>
     (\<forall>j. j \<notin> bitmap_blocks \<longrightarrow> contents bl' j = contents bl j)"

lemma released_refl: "bl_ok bl \<Longrightarrow> released bl bl {}"
  by (simp add: released_def)

lemma released_trans: "released bl bl1 S \<Longrightarrow> released bl1 bl2 T \<Longrightarrow> released bl bl2 (S \<union> T)"
  by (auto simp: released_def)

lemma free_block_released:
  assumes "bl_ok bl" and "unat b < 32768"
  obtains bl' where "free_block junk bl b = Inr bl'" and "released bl bl' {unat b}"
  using free_block_spec [OF assms, of junk] by (auto simp: released_def)

lemma remove_direct_spec:
  assumes "bl_ok bl" and "x \<le> 8" and "\<And>k. k < 8 \<Longrightarrow> unat (i_blocks ino ! k) < 32768"
    and "INT_MIN + 512 * (8 - int x) \<le> c"
  shows "\<exists>bl'. remove_direct stk bl ino x c = Inr (bl', c - 512 * (8 - int x)) \<and>
           released bl bl' ((\<lambda>k. unat (i_blocks ino ! k)) ` {x..<8})"
  using assms
proof (induction "8 - x" arbitrary: bl x c)
  case 0
  then show ?case by (subst remove_direct.simps) (simp add: released_refl)
next
  case (Suc n)
  then have x: "x < 8" by simp
  obtain bl1 where f: "free_block (stk Scratch) bl (i_blocks ino ! x) = Inr bl1"
      "released bl bl1 {unat (i_blocks ino ! x)}"
    using free_block_released [OF Suc.prems(1)] Suc.prems(3) [OF x] by metis
  have "\<exists>bl'. remove_direct stk bl1 ino (x + 1) (c - 512) =
        Inr (bl', c - 512 - 512 * (8 - int (x + 1))) \<and>
      released bl1 bl' ((\<lambda>k. unat (i_blocks ino ! k)) ` {x + 1..<8})"
    using Suc.hyps(2) x Suc.prems(3,4) f(2) by (intro Suc.hyps(1)) (auto simp: released_def)
  then obtain bl' where r: "remove_direct stk bl1 ino (x + 1) (c - 512) = Inr (bl', c - 512 * (8 - int x))"
      "released bl1 bl' ((\<lambda>k. unat (i_blocks ino ! k)) ` {x + 1..<8})"
    by (auto simp: algebra_simps)
  have "remove_direct stk bl ino x c = Inr (bl', c - 512 * (8 - int x))"
    using x f(1) r(1) Suc.prems(4) by (subst remove_direct.simps) simp
  moreover have "{x..<8} = insert x {x + 1..<8}" using x by auto
  ultimately show ?case using released_trans [OF f(2) r(2)] by simp
qed

lemma remove_indirect_spec:
  assumes "bl_ok bl" and "x \<le> n" and "n \<le> 128" and "\<And>k. k < n \<Longrightarrow> unat (get32 ind (4 * k)) < 32768"
  shows "\<exists>bl'. remove_indirect stk bl ind x n = Inr bl' \<and>
           released bl bl' ((\<lambda>k. unat (get32 ind (4 * k))) ` {x..<n})"
  using assms
proof (induction "n - x" arbitrary: bl x)
  case 0
  then show ?case by (subst remove_indirect.simps) (simp add: released_refl)
next
  case (Suc m)
  then have x: "x < n" by simp
  obtain bl1 where f: "free_block (stk Scratch) bl (get32 ind (4 * x)) = Inr bl1"
      "released bl bl1 {unat (get32 ind (4 * x))}"
    using free_block_released [OF Suc.prems(1)] Suc.prems(4) [OF x] by metis
  have "\<exists>bl'. remove_indirect stk bl1 ind (x + 1) n = Inr bl' \<and>
      released bl1 bl' ((\<lambda>k. unat (get32 ind (4 * k))) ` {x + 1..<n})"
    using Suc.hyps(2) x Suc.prems(3,4) f(2) by (intro Suc.hyps(1)) (auto simp: released_def)
  then obtain bl' where r: "remove_indirect stk bl1 ind (x + 1) n = Inr bl'"
      "released bl1 bl' ((\<lambda>k. unat (get32 ind (4 * k))) ` {x + 1..<n})" by blast
  have "remove_indirect stk bl ind x n = Inr bl'"
    using x f(1) r(1) Suc.prems(3) by (subst remove_indirect.simps) simp
  moreover have "{x..<n} = insert x {x + 1..<n}" using x by auto
  ultimately show ?case using released_trans [OF f(2) r(2)] by simp
qed

lemma remove_indirect_overrun:
  assumes "bl_ok bl" and "x \<le> 128" and "128 < n" and "\<And>k. k < 128 \<Longrightarrow> unat (get32 ind (4 * k)) < 32768"
  shows "remove_indirect stk bl ind x n = Inl Array_bounds"
  using assms
proof (induction "128 - x" arbitrary: bl x)
  case 0
  then show ?case by (subst remove_indirect.simps) simp
next
  case (Suc m)
  then have x: "x < 128" by simp
  obtain bl1 where f: "free_block (stk Scratch) bl (get32 ind (4 * x)) = Inr bl1" "bl_ok bl1"
    using free_block_spec [OF Suc.prems(1) Suc.prems(4) [OF x]] by blast
  have "remove_indirect stk bl1 ind (x + 1) n = Inl Array_bounds"
    using Suc.hyps(2) x Suc.prems f(2) by (intro Suc.hyps(1)) auto
  with x f(1) Suc.prems(3) show ?case by (subst remove_indirect.simps) simp
qed

subsection \<open>The whole operation\<close>

text \<open>The number of pointers of the indirect block that \<open>remove_file\<close> releases.\<close>

definition indirect_count :: "nat \<Rightarrow> nat" where
  "indirect_count n = (if n > 4096 then (n - 4096) div 512 + 1 else 0)"

text \<open>
  The blocks released for an inode: the eight direct pointers always; for a file past 4096
  bytes the first \<open>indirect_count\<close> pointers of the indirect block, and that block.
\<close>

definition removed_blocks :: "block_layer \<Rightarrow> inode \<Rightarrow> nat set" where
  "removed_blocks bl ino =
     (\<lambda>k. unat (file_block bl ino k)) ` {..<8 + indirect_count (file_size ino)} \<union>
     (if file_size ino > 4096 then {unat (i_blocks ino ! 8)} else {})"

text \<open>
  \<open>removed bl i bl'\<close>: inode \<open>i\<close> is free, everything else in the table and every block outside
  it and outside the bitmap is as before, and \<open>removed_blocks\<close> are free.
\<close>

definition removed :: "block_layer \<Rightarrow> nat \<Rightarrow> block_layer \<Rightarrow> bool" where
  "removed bl i bl' \<longleftrightarrow>
     bl_ok bl' \<and> \<not> in_use bl' i \<and> (\<forall>j<1024. j \<noteq> i \<longrightarrow> inode_at bl' j = inode_at bl j) \<and>
     free_set bl' = free_set bl \<union> (removed_blocks bl (inode_at bl i) \<inter> data_blocks) \<and>
     (\<forall>b \<in> data_blocks. contents bl' b = contents bl b)"

lemma free_inode_removed:
  assumes "bl_ok bl" and "in_use bl (unat inum)"
    and "released bl bl1 (removed_blocks bl (inode_at bl (unat inum)))"
  obtains bl' where "free_inode stk bl1 inum = Inr bl'" and "removed bl (unat inum) bl'"
proof -
  have same: "inode_at bl1 j = inode_at bl j" if "j < 1024" for j
    using assms(3) inode_blocks_apart(1) that by (intro inode_at_cong) (auto simp: released_def)
  have i: "unat inum < 1024" using assms(2) by (simp add: in_use_def)
  have ok: "bl_ok bl1" using assms(3) by (simp add: released_def)
  have "in_use bl1 (unat inum)" using assms(2) same [OF i] by (simp add: in_use_def)
  from free_inode_spec [OF ok this, of stk] obtain bl' where f: "free_inode stk bl1 inum = Inr bl'"
      "bl_ok bl'" "free_set bl' = free_set bl1"
      "\<forall>j<1024. inode_at bl' j =
              (if j = unat inum then (inode_at bl1 j)\<lparr>i_type := 0\<rparr> else inode_at bl1 j)"
      "\<forall>b. b \<notin> inode_blocks \<longrightarrow> contents bl' b = contents bl1 b"
    by blast
  have "contents bl' b = contents bl b" if "b \<in> data_blocks" for b
  proof -
    have "b \<notin> inode_blocks" using that inode_blocks_apart(2) by blast
    with f(5) assms(3) data_not_bitmap [OF that] show ?thesis by (simp add: released_def)
  qed
  then have "removed bl (unat inum) bl'"
    using f assms(3) same i by (auto simp: removed_def released_def in_use_def)
  with that f(1) show thesis .
qed

text \<open>The indirect blocks and the block that lists them, after the direct ones are released.\<close>

lemma indirect_count_size:
  assumes "4096 < n" and "n < 69632"
  shows "nat ((int n - 4096) div 512 + 1) = indirect_count n" and "indirect_count n \<le> 128"
  using assms by (auto simp: indirect_count_def nat_add_distrib of_nat_diff div_le_mono
    simp flip: zdiv_int nat_int_comparison)

lemma image_shift: "(\<lambda>k. f (8 + k)) ` {0..<c} = f ` {8..<8 + c :: nat}"
proof -
  have "(\<lambda>k. f (8 + k)) ` {0..<c} = f ` ((+) 8 ` {0..<c})" by (simp only: image_image)
  then show ?thesis by (simp add: add.commute)
qed

lemma remove_indirect_released:
  assumes rel: "released bl bl1 ((\<lambda>k. unat (file_block bl ino k)) ` {..<8})"
    and big: "4096 < file_size ino" and sz: "file_size ino < 69632"
    and p8: "unat (i_blocks ino ! 8) \<in> data_blocks"
    and ind: "\<And>k. k < indirect_count (file_size ino) \<Longrightarrow> unat (file_block bl ino (8 + k)) < 32768"
  obtains ib bl2 bl3 where "bl_read_block bl1 (i_blocks ino ! 8) (stk Indirect_block) = Inr ib"
    and "remove_indirect stk bl1 ib 0 (indirect_count (file_size ino)) = Inr bl2"
    and "free_block (stk Scratch) bl2 (i_blocks ino ! 8) = Inr bl3" and "released bl bl3 (removed_blocks bl ino)"
proof -
  let ?c = "indirect_count (file_size ino)" and ?p8 = "i_blocks ino ! 8"
  let ?F = "\<lambda>k. unat (file_block bl ino k)"
  note c = indirect_count_size(2) [OF big sz]
  have lt: "unat ?p8 < 32768" using p8 by (simp add: data_blocks_def)
  have ok1: "bl_ok bl1" and same: "contents bl1 (unat ?p8) = contents bl (unat ?p8)"
    using rel p8 data_not_bitmap by (auto simp: released_def)
  obtain ib where rd: "bl_read_block bl1 ?p8 (stk Indirect_block) = Inr ib"
      "\<And>i. i < 512 \<Longrightarrow> ib i = contents bl (unat ?p8) i"
    using read_array_byte [of ?p8 bl1 "stk Indirect_block"] lt same by auto
  have ptr: "get32 ib (4 * k) = file_block bl ino (8 + k)" if "k < ?c" for k
    using rd(2) that c by (auto simp: file_block_def intro!: get32_cong)
  obtain bl2 where r: "remove_indirect stk bl1 ib 0 ?c = Inr bl2"
      "released bl1 bl2 ((\<lambda>k. unat (get32 ib (4 * k))) ` {0..<?c})"
    using remove_indirect_spec [OF ok1 _ c, of 0 ib stk] ind ptr by auto
  have ok2: "bl_ok bl2" using r(2) by (simp add: released_def)
  obtain bl3 where f: "free_block (stk Scratch) bl2 ?p8 = Inr bl3" "released bl2 bl3 {unat ?p8}"
    using free_block_released [OF ok2, of ?p8] lt by auto
  have "(\<lambda>k. unat (get32 ib (4 * k))) ` {0..<?c} = (\<lambda>k. ?F (8 + k)) ` {0..<?c}"
    by (rule image_cong) (use ptr in auto)
  then have "(\<lambda>k. unat (get32 ib (4 * k))) ` {0..<?c} = ?F ` {8..<8 + ?c}"
    unfolding image_shift [of ?F] .
  then have "?F ` {..<8} \<union> ((\<lambda>k. unat (get32 ib (4 * k))) ` {0..<?c} \<union> {unat ?p8}) = removed_blocks bl ino"
    using big image_Un [of ?F "{..<8}" "{8..<8 + ?c}"] ivl_disj_un_one(2) [of 8 "8 + ?c"]
    by (simp add: removed_blocks_def Un_ac)
  with released_trans [OF rel released_trans [OF r(2) f(2)]] that rd(1) r(1) f(1) show thesis by simp
qed

text \<open>The inodes whose blocks the loops can release.\<close>

definition removable :: "block_layer \<Rightarrow> inode \<Rightarrow> bool" where
  "removable bl ino \<longleftrightarrow>
     pointers_ok ino \<and> file_size ino < 69632 \<and>
     (file_size ino > 4096 \<longrightarrow> unat (i_blocks ino ! 8) \<in> data_blocks) \<and>
     (\<forall>k < indirect_count (file_size ino). unat (file_block bl ino (8 + k)) < 32768)"

lemma remove_blocks_released:
  assumes ok: "bl_ok bl" and rm: "removable bl ino"
  obtains bl' where "remove_blocks stk bl ino = Inr bl'" and "released bl bl' (removed_blocks bl ino)"
proof -
  let ?n = "file_size ino" and ?D = "(\<lambda>k. unat (file_block bl ino k)) ` {..<8}"
  have sz: "?n < 69632" using rm by (simp add: removable_def)
  have p: "unat (i_blocks ino ! k) < 32768" if "k < 9" for k
    using rm that by (simp add: removable_def pointers_ok_def inode_ok_def)
  have sint: "sint (i_size ino) = int ?n" using sz by (intro file_size_sint) simp
  have "(\<lambda>k. unat (i_blocks ino ! k)) ` {0..<8} = ?D" by (auto simp: file_block_def)
  then obtain bl1 where d: "remove_direct stk bl ino 0 (int ?n) = Inr (bl1, int ?n - 4096)" "released bl bl1 ?D"
    using remove_direct_spec [OF ok, of 0 ino "int ?n" stk] p by auto
  show thesis
  proof (cases "?n \<le> 4096")
    case True
    then have "removed_blocks bl ino = ?D" by (simp add: removed_blocks_def indirect_count_def)
    with d sint True that show thesis by (simp add: remove_blocks_def)
  next
    case False
    then have big: "4096 < ?n" by simp
    obtain ib bl2 bl3 where r: "bl_read_block bl1 (i_blocks ino ! 8) (stk Indirect_block) = Inr ib"
        "remove_indirect stk bl1 ib 0 (indirect_count ?n) = Inr bl2"
        "free_block (stk Scratch) bl2 (i_blocks ino ! 8) = Inr bl3" "released bl bl3 (removed_blocks bl ino)"
      using remove_indirect_released [OF d(2) big sz, of stk] rm big by (auto simp: removable_def)
    with d(1) sint False indirect_count_size(1) [OF big sz] that show thesis by (simp add: remove_blocks_def)
  qed
qed

lemma remove_file_spec:
  assumes ok: "bl_ok bl" and use: "in_use bl (unat inum)" and ino: "ino = inode_at bl (unat inum)"
    and rm: "removable bl ino"
  shows "\<exists>bl'. remove_file stk bl inum = Inr bl' \<and> removed bl (unat inum) bl'"
proof -
  obtain bl1 where r: "remove_blocks stk bl ino = Inr bl1" "released bl bl1 (removed_blocks bl ino)"
    by (rule remove_blocks_released [OF ok rm])
  obtain bl' where "free_inode stk bl1 inum = Inr bl'" "removed bl (unat inum) bl'"
    using free_inode_removed [OF ok use] r(2) ino by metis
  with get_inode_spec [OF ok] use ino r(1) show ?thesis by (auto simp: remove_file_def)
qed

lemma remove_file_absent:
  assumes "bl_ok bl" and "\<not> in_use bl (unat inum)"
  shows "remove_file stk bl inum = Inr bl"
  using get_inode_spec [OF assms(1)] assms(2) by (simp add: remove_file_def)

text \<open>A readable file with an indirect block uses all nine pointers.\<close>

lemma readable_pointers:
  assumes "readable bl ino" and "file_size ino > 4096"
  shows "pointers_ok ino"
proof -
  have len: "length (i_blocks ino) = 9" using assms(1) by (simp add: readable_def inode_ok_def)
  have n: "8 < nblk (file_size ino)" using assms(2) by (simp add: nblk_less_iff)
  have "unat (i_blocks ino ! k) \<in> data_blocks" if "k < 9" for k
  proof (cases "k = 8")
    case True
    with assms show ?thesis by (simp add: readable_def)
  next
    case False
    then have "file_block bl ino k = i_blocks ino ! k" using that by (simp add: file_block_def)
    moreover have "k < nblk (file_size ino)" using that n by simp
    ultimately show ?thesis using assms(1) by (auto simp: readable_def)
  qed
  with len show ?thesis by (auto simp: pointers_ok_def inode_ok_def in_set_conv_nth data_blocks_def)
qed

subsection \<open>Properties\<close>

text \<open>
  C7: Removing a file in use frees its inode and releases its direct blocks and, past 4096 bytes,
  the blocks named by the first \<open>(size - 4096) / 512 + 1\<close> words of its indirect block and that
  block; other inodes, and the bytes of all data blocks, stay. Removing an unused inode changes
  nothing. The file must be \<open>removable\<close>: its nine pointers are block numbers, its size is below
  69632 bytes, its indirect block (if any) is a data block, and every word of the indirect block
  that the loop visits is a block number. The last word visited can be one the file never set,
  since the count is one too high for a size that is a multiple of 512.
\<close>

theorem remove_file_correct:
  assumes "bl_ok bl" and "ino = inode_at bl (unat inum)"
    and "in_use bl (unat inum) \<Longrightarrow> removable bl ino"
  shows "\<exists>bl'. remove_file stk bl inum = Inr bl' \<and> \<not> in_use bl' (unat inum) \<and>
    (\<forall>j<1024. j \<noteq> unat inum \<longrightarrow> inode_at bl' j = inode_at bl j) \<and>
    free_set bl' = free_set bl \<union>
      (if in_use bl (unat inum) then removed_blocks bl ino \<inter> data_blocks else {}) \<and>
    (\<forall>b \<in> data_blocks. contents bl' b = contents bl b)"
proof (cases "in_use bl (unat inum)")
  case True
  with remove_file_spec [OF assms(1) True assms(2)] assms(3)
  have "\<exists>bl'. remove_file stk bl inum = Inr bl' \<and> removed bl (unat inum) bl'" by blast
  with True assms(2) show ?thesis by (auto simp: removed_def)
next
  case False
  with remove_file_absent [OF assms(1) False] show ?thesis by simp
qed

theorem remove_file_correct_witness:
  "\<exists>il bl1 bl2 b. new_inode_layer (\<lambda>_ _. 0) (0, 0, 0) False = Inr il \<and>
     write_file (\<lambda>_ _. 0) 1 il 0 (\<lambda>_. 7) (int 600) = Inr (il\<lparr>il_bm := bl1\<rparr>) \<and> in_use bl1 0 \<and>
     remove_file (\<lambda>_ _. 0) bl1 0 = Inr bl2 \<and> \<not> in_use bl2 0 \<and>
     b \<in> data_blocks \<and> b \<notin> free_set bl1 \<and> b \<in> free_set bl2 \<and> contents bl2 b 0 = 7"
proof -
  obtain il where il: "new_inode_layer (\<lambda>_ _. 0) (0, 0, 0) False = Inr il" "il_ok il" "in_use (il_bm il) 0"
      "pointers_ok (inode_at (il_bm il) 0)" "file_size (inode_at (il_bm il) 0) = 0"
      "card (free_set (il_bm il) \<union> direct_blocks (inode_at (il_bm il) 0)) = 32645"
      "i_blocks (inode_at (il_bm il) 0) = replicate 9 0"
    by (rule fresh_layer) (rule that)
  have "\<exists>bl'. write_file (\<lambda>_ _. 0) 1 il 0 (\<lambda>_. 7) (int 600) = Inr (il\<lparr>il_bm := bl'\<rparr>) \<and>
      rewritten (il_bm il) (unat (0 :: u32)) 600 (\<lambda>_. 7) bl' \<and> reowned (il_bm il) (unat (0 :: u32)) 600 bl'"
    by (rule write_file_fresh [OF il(2)])
      (use il in \<open>simp_all add: fresh_write_ok_def blocks_needed_def nblk_def\<close>)
  then obtain bl1 where w: "write_file (\<lambda>_ _. 0) 1 il 0 (\<lambda>_. 7) (int 600) = Inr (il\<lparr>il_bm := bl1\<rparr>)"
      "rewritten (il_bm il) 0 600 (\<lambda>_. 7) bl1" "reowned (il_bm il) 0 600 bl1" by auto
  let ?ino = "inode_at bl1 (unat (0 :: u32))"
  have ok: "bl_ok bl1" and use: "in_use bl1 (unat (0 :: u32))" and sz: "file_size ?ino = 600"
    and rd: "readable bl1 ?ino"
    using w(2) il(3) rewritten_in_use [OF w(2)] by (simp_all add: rewritten_def)
  let ?b = "unat (file_block bl1 ?ino 0)"
  have b: "?b \<in> data_blocks" "?b \<in> owned bl1 ?ino" using rd sz by (auto simp: readable_def owned_def nblk_def)
  have b_free: "?b \<notin> free_set bl1" using w(3) b il(7) by (auto simp: reowned_def Let_def data_blocks_def)
  have "pointers_ok ?ino"
  proof -
    have "unat (i_blocks ?ino ! k) < 32768" if "k < 9" for k
    proof (cases "k < 2")
      case True
      then have "unat (file_block bl1 ?ino k) \<in> data_blocks" using rd sz by (simp add: readable_def nblk_def)
      with True show ?thesis by (simp add: file_block_def data_blocks_def)
    next
      case False
      with w(3) that il(7) show ?thesis by (simp add: reowned_def Let_def nblk_def)
    qed
    moreover have "inode_ok ?ino" by (rule inode_at_ok)
    ultimately show ?thesis by (auto simp: pointers_ok_def inode_ok_def in_set_conv_nth)
  qed
  then have rm: "removable bl1 ?ino" using sz by (simp add: removable_def indirect_count_def)
  obtain bl2 where r: "remove_file (\<lambda>_ _. 0) bl1 0 = Inr bl2" "\<not> in_use bl2 (unat (0 :: u32))"
      "free_set bl2 = free_set bl1 \<union> (removed_blocks bl1 ?ino \<inter> data_blocks)"
      "\<forall>b \<in> data_blocks. contents bl2 b = contents bl1 b"
    using remove_file_correct [OF ok refl rm, of "\<lambda>_ _. 0"] use by auto
  have "?b \<in> removed_blocks bl1 ?ino" by (auto simp: removed_blocks_def)
  moreover have "file_data bl1 ?ino 0 = 7" using w(2) by (simp add: rewritten_def)
  then have "contents bl1 ?b 0 = 7" by (simp add: file_data_def)
  ultimately show ?thesis using il(1) w(1) use r b b_free
    by (intro exI [of _ il] exI [of _ bl1] exI [of _ bl2] exI [of _ ?b]) simp
qed

text \<open>
  C23: Removing a file of the largest size, 69632 bytes, reads the pointer after the last one of
  the indirect block: the count of indirect blocks is one too high.
\<close>

theorem remove_file_overrun:
  assumes ok: "bl_ok bl" and use: "in_use bl (unat inum)" and ino: "ino = inode_at bl (unat inum)"
    and rd: "readable bl ino" and sz: "file_size ino = 69632"
  shows "remove_file stk bl inum = Inl Array_bounds"
proof -
  have ptrs: "pointers_ok ino" using readable_pointers [OF rd] sz by simp
  then have len: "length (i_blocks ino) = 9" by (simp add: pointers_ok_def inode_ok_def)
  have p: "unat (i_blocks ino ! k) < 32768" if "k < 9" for k
    using ptrs len that by (simp add: pointers_ok_def)
  let ?p8 = "i_blocks ino ! 8"
  have sint: "sint (i_size ino) = 69632" using sz file_size_sint [of ino] by simp
  obtain bl1 where d: "remove_direct stk bl ino 0 69632 = Inr (bl1, 65536)"
      "released bl bl1 ((\<lambda>k. unat (i_blocks ino ! k)) ` {0..<8})"
    using remove_direct_spec [OF ok, of 0 ino 69632 stk] p by auto
  have ok1: "bl_ok bl1" and same: "contents bl1 (unat ?p8) = contents bl (unat ?p8)"
    using d(2) rd sz data_not_bitmap by (auto simp: released_def readable_def)
  obtain ib where ib: "bl_read_block bl1 ?p8 (stk Indirect_block) = Inr ib"
      "\<And>i. i < 512 \<Longrightarrow> ib i = contents bl (unat ?p8) i"
    using read_array_byte [of ?p8 bl1 "stk Indirect_block"] p [of 8] same by auto
  have "unat (get32 ib (4 * k)) < 32768" if "k < 128" for k
  proof -
    have "unat (file_block bl ino (8 + k)) \<in> data_blocks"
      using rd sz that by (simp add: readable_def nblk_def)
    moreover have "get32 ib (4 * k) = file_block bl ino (8 + k)"
      using ib(2) that by (auto simp: file_block_def intro!: get32_cong)
    ultimately show ?thesis by (simp add: data_blocks_def)
  qed
  then have "remove_indirect stk bl1 ib 0 129 = Inl Array_bounds"
    using remove_indirect_overrun [OF ok1, of 0 129 ib stk] by simp
  moreover have "get_inode stk bl inum = Inr (Some ino)" using get_inode_spec [OF ok] use ino by simp
  ultimately show ?thesis using d(1) ib(1) sint by (simp add: remove_file_def remove_blocks_def)
qed

theorem remove_file_overrun_witness:
  "\<exists>il il1. new_inode_layer (\<lambda>_ _. 0) (0, 0, 0) False = Inr il \<and>
     write_file (\<lambda>_ _. 0) 1 il 0 (\<lambda>_. 7) (int 69632) = Inr il1 \<and>
     remove_file (\<lambda>_ _. 0) (il_bm il1) 0 = Inl Array_bounds"
proof -
  obtain il where il: "new_inode_layer (\<lambda>_ _. 0) (0, 0, 0) False = Inr il" "il_ok il" "in_use (il_bm il) 0"
      "pointers_ok (inode_at (il_bm il) 0)" "file_size (inode_at (il_bm il) 0) = 0"
      "card (free_set (il_bm il) \<union> direct_blocks (inode_at (il_bm il) 0)) = 32645"
    by (rule fresh_layer) (rule that)
  have "\<exists>bl'. write_file (\<lambda>_ _. 0) 1 il 0 (\<lambda>_. 7) (int 69632) = Inr (il\<lparr>il_bm := bl'\<rparr>) \<and>
      rewritten (il_bm il) (unat (0 :: u32)) 69632 (\<lambda>_. 7) bl' \<and> reowned (il_bm il) (unat (0 :: u32)) 69632 bl'"
    by (rule write_file_fresh [OF il(2)])
      (use il in \<open>simp_all add: fresh_write_ok_def blocks_needed_def nblk_def\<close>)
  then obtain bl' where w: "write_file (\<lambda>_ _. 0) 1 il 0 (\<lambda>_. 7) (int 69632) = Inr (il\<lparr>il_bm := bl'\<rparr>)"
      "rewritten (il_bm il) 0 69632 (\<lambda>_. 7) bl'" by auto
  have "bl_ok bl'" "in_use bl' (unat (0 :: u32))" "readable bl' (inode_at bl' 0)"
    "file_size (inode_at bl' 0) = 69632"
    using w(2) il(3) rewritten_in_use [OF w(2)] by (simp_all add: rewritten_def)
  with remove_file_overrun [of bl' 0 "inode_at bl' 0" "\<lambda>_ _. 0"] il(1) w(1) show ?thesis by auto
qed

end
