(* ===== verification/Fs_Server.thy ===== *)
theory Fs_Server
  imports File_Remove
begin

text \<open>
  \<open>fs_server.cc\<close> and \<open>fs_client.cc\<close>: the five calls of the service, which turn a 64-bit file id
  into an inode number and pass it to the inode layer, and the client stubs that call the
  server object they own.
\<close>

subsection \<open>The server\<close>

record fs_server =
  im :: inode_layer

definition new_fs_server :: "stack \<Rightarrow> u64 \<times> u64 \<times> u64 \<Rightarrow> bool \<Rightarrow> fault + fs_server" where
  "new_fs_server stk ts m0 = rbind (new_inode_layer stk ts m0) (\<lambda>il. Inr \<lparr>im = il\<rparr>)"

text \<open>\<open>id &= 0x7fffffff\<close>, then the conversion to the \<open>uint32_t\<close> parameter \<open>inum\<close>.\<close>

definition inum_of :: "fsid_t \<Rightarrow> u32" where
  "inum_of fid = ucast (fid AND 0x7fffffff)"

text \<open>\<open>buf.c_str()\<close>: the characters, then the terminating zero.\<close>

definition c_str :: "byte list \<Rightarrow> buf" where
  "c_str s = (\<lambda>i. if i < length s then s ! i else 0)"

text \<open>\<open>int size = buf.size()\<close>.\<close>

definition int_size :: "byte list \<Rightarrow> int" where
  "int_size s = sint (word_of_nat (length s) :: u32)"

definition server_create ::
    "stack \<Rightarrow> u64 \<times> u64 \<times> u64 \<Rightarrow> fs_server \<Rightarrow> u32 \<Rightarrow> fault + (xxstatus \<times> fsid_t \<times> fs_server)" where
  "server_create stk ts srv ty =
     rbind (alloc_inode stk ts (il_bm (im srv)) ty) (\<lambda>(inum, bl).
       Inr (OK, ucast inum, srv\<lparr>im := (im srv)\<lparr>il_bm := bl\<rparr>\<rparr>))"

definition server_put ::
    "stack \<Rightarrow> tid \<Rightarrow> fs_server \<Rightarrow> fsid_t \<Rightarrow> byte list \<Rightarrow> fault + (xxstatus \<times> fs_server)" where
  "server_put stk t srv fid s =
     rbind (write_file stk t (im srv) (inum_of fid) (c_str s) (int_size s)) (\<lambda>il.
       Inr (OK, srv\<lparr>im := il\<rparr>))"

text \<open>
  \<open>read_file\<close> gets the addresses of \<open>cbuf\<close> (null) and \<open>size\<close> (zero). A negative size makes
  \<open>std::string::assign\<close> throw.
\<close>

definition server_get ::
    "stack \<Rightarrow> tid \<Rightarrow> u64 \<Rightarrow> fs_server \<Rightarrow> fsid_t \<Rightarrow> fault + (xxstatus \<times> byte list \<times> fs_server)" where
  "server_get stk t now srv fid =
     rbind (read_file stk t now (im srv) (inum_of fid) (Some None) (Some 0)) (\<lambda>(cbuf, sz, il).
       let srv' = srv\<lparr>im := il\<rparr>; n = (case sz of None \<Rightarrow> 0 | Some n \<Rightarrow> n) in
       if n = 0 then Inr (OK, [], srv')
       else if n < 0 then Inl Length_error
       else case cbuf of
         Some (Some b) \<Rightarrow> Inr (OK, map b [0..<nat n], srv')
       | _ \<Rightarrow> Inl Null_deref)"

definition server_getattr :: "stack \<Rightarrow> fs_server \<Rightarrow> fsid_t \<Rightarrow> fault + (xxstatus \<times> attr)" where
  "server_getattr stk srv fid =
     rbind (il_getattr stk (il_bm (im srv)) (inum_of fid) zero_attr) (\<lambda>a. Inr (OK, a))"

definition server_remove :: "stack \<Rightarrow> fs_server \<Rightarrow> fsid_t \<Rightarrow> fault + (xxstatus \<times> fs_server)" where
  "server_remove stk srv fid =
     rbind (remove_file stk (il_bm (im srv)) (inum_of fid)) (\<lambda>bl.
       Inr (OK, srv\<lparr>im := (im srv)\<lparr>il_bm := bl\<rparr>\<rparr>))"

subsection \<open>The client\<close>

record fs_client =
  es :: fs_server

definition new_fs_client :: "stack \<Rightarrow> u64 \<times> u64 \<times> u64 \<Rightarrow> bool \<Rightarrow> fault + fs_client" where
  "new_fs_client stk ts m0 = rbind (new_fs_server stk ts m0) (\<lambda>srv. Inr \<lparr>es = srv\<rparr>)"

definition client_create ::
    "stack \<Rightarrow> u64 \<times> u64 \<times> u64 \<Rightarrow> fs_client \<Rightarrow> u32 \<Rightarrow> fault + (xxstatus \<times> fsid_t \<times> fs_client)" where
  "client_create stk ts c ty =
     rbind (server_create stk ts (es c) ty) (\<lambda>(ret, fid, srv). Inr (ret, fid, c\<lparr>es := srv\<rparr>))"

definition client_get ::
    "stack \<Rightarrow> tid \<Rightarrow> u64 \<Rightarrow> fs_client \<Rightarrow> fsid_t \<Rightarrow> fault + (xxstatus \<times> byte list \<times> fs_client)" where
  "client_get stk t now c eid =
     rbind (server_get stk t now (es c) eid) (\<lambda>(ret, s, srv). Inr (ret, s, c\<lparr>es := srv\<rparr>))"

definition client_getattr :: "stack \<Rightarrow> fs_client \<Rightarrow> fsid_t \<Rightarrow> fault + (xxstatus \<times> attr)" where
  "client_getattr stk c eid = server_getattr stk (es c) eid"

definition client_put ::
    "stack \<Rightarrow> tid \<Rightarrow> fs_client \<Rightarrow> fsid_t \<Rightarrow> byte list \<Rightarrow> fault + (xxstatus \<times> fs_client)" where
  "client_put stk t c eid s =
     rbind (server_put stk t (es c) eid s) (\<lambda>(ret, srv). Inr (ret, c\<lparr>es := srv\<rparr>))"

definition client_remove :: "stack \<Rightarrow> fs_client \<Rightarrow> fsid_t \<Rightarrow> fault + (xxstatus \<times> fs_client)" where
  "client_remove stk c eid =
     rbind (server_remove stk (es c) eid) (\<lambda>(ret, srv). Inr (ret, c\<lparr>es := srv\<rparr>))"

subsection \<open>File ids\<close>

lemma unat_inum_of: "unat (inum_of fid) = unat fid mod 2 ^ 31"
proof -
  have m: "(0x7fffffff :: u64) = mask 31" by (simp add: mask_eq_exp_minus_1)
  have "fid AND 0x7fffffff = take_bit 31 fid" unfolding m by (simp add: take_bit_eq_mask)
  then have "unat (inum_of fid) = take_bit 32 (take_bit 31 (unat fid))"
    by (simp add: inum_of_def unsigned_ucast_eq unsigned_take_bit_eq)
  then show ?thesis by (simp add: take_bit_take_bit) (simp add: take_bit_eq_mod)
qed

subsection \<open>Properties\<close>

text \<open>
  Only the low 31 bits of a file id count: two ids that agree on them name the same file in
  every call of the server.
\<close>

theorem id_alias:
  assumes "unat fid mod 2 ^ 31 = unat gid mod 2 ^ 31"
  shows "server_put stk t srv fid s = server_put stk t srv gid s \<and>
    server_get stk t now srv fid = server_get stk t now srv gid \<and>
    server_getattr stk srv fid = server_getattr stk srv gid \<and>
    server_remove stk srv fid = server_remove stk srv gid"
proof -
  have "inum_of fid = inum_of gid" using assms by (simp add: word_unat_eq_iff unat_inum_of)
  then show ?thesis
    by (simp add: server_put_def server_get_def server_getattr_def server_remove_def)
qed

theorem id_alias_witness:
  "server_getattr (\<lambda>_ _. 0) \<lparr>im = \<lparr>il_bm = new_block_layer False, il_rwlocks = (\<lambda>_. new_a4_rwlock)\<rparr>\<rparr> 1 =
   server_getattr (\<lambda>_ _. 0) \<lparr>im = \<lparr>il_bm = new_block_layer False, il_rwlocks = (\<lambda>_. new_a4_rwlock)\<rparr>\<rparr> 0x80000001"
proof -
  have "unat (1 :: fsid_t) mod 2 ^ 31 = unat (0x80000001 :: fsid_t) mod 2 ^ 31" by simp
  from id_alias [OF this] show ?thesis by blast
qed

end
