(* ===== verification/Fs_Spec.thy ===== *)
theory Fs_Spec
  imports Fs_Server "HOL-Library.Disjoint_Sets"
begin

text \<open>
  What the service promises, as a table from inode numbers to a type and a byte string, and the
  invariant under which the detailed definitions keep that promise: every file owns its
  blocks, no block has two owners, and the free blocks are exactly the ones without an owner.
\<close>

subsection \<open>The abstract file system\<close>

type_synonym afs = "nat \<Rightarrow> (u16 \<times> byte list) option"

datatype fs_call =
    Create u32
  | Put fsid_t "byte list"
  | Get fsid_t
  | Getattr fsid_t
  | Remove fsid_t

text \<open>A reply: the id of \<open>create\<close>, the bytes of \<open>get\<close>, the type and size of \<open>getattr\<close>.\<close>

datatype fs_reply = R_id nat | R_data "byte list" | R_attr u32 nat | R_ok

definition a_free :: "afs \<Rightarrow> nat" where
  "a_free a = (case List.find (\<lambda>i. a i = None) [0..<1024] of None \<Rightarrow> 0 | Some i \<Rightarrow> i)"

fun a_step :: "afs \<Rightarrow> fs_call \<Rightarrow> fs_reply \<times> afs" where
  "a_step a (Create ty) = (R_id (a_free a), a(a_free a \<mapsto> (ucast ty, [])))"
| "a_step a (Put fid s) =
     (R_ok, case a (unat (inum_of fid)) of
              None \<Rightarrow> a
            | Some (ty, _) \<Rightarrow> if length s \<le> 69632 then a(unat (inum_of fid) \<mapsto> (ty, s)) else a)"
| "a_step a (Get fid) = (R_data (case a (unat (inum_of fid)) of None \<Rightarrow> [] | Some (_, s) \<Rightarrow> s), a)"
| "a_step a (Getattr fid) =
     (case a (unat (inum_of fid)) of
        None \<Rightarrow> R_attr 0 0
      | Some (ty, s) \<Rightarrow> R_attr (scast ty) (length s), a)"
| "a_step a (Remove fid) = (R_ok, a(unat (inum_of fid) := None))"

text \<open>The data blocks that a table of files takes on the disk.\<close>

definition a_blocks :: "afs \<Rightarrow> nat" where
  "a_blocks a = (\<Sum>i<1024. case a i of None \<Rightarrow> 0 | Some (_, s) \<Rightarrow> blocks_needed (length s))"

text \<open>
  The sizes for which a \<open>put\<close> over a file that has an indirect block is handled correctly.
  A growing file must grow by a whole block or stay within its last block, because the loop
  compares a count of bytes that lags behind by one block with the old size. A shrinking file
  releases \<open>(old - s) / 512\<close> blocks, rounded up, which is right when its last block is at least
  as full as the old last block was.
\<close>

definition rewrite_ok :: "nat \<Rightarrow> nat \<Rightarrow> bool" where
  "rewrite_ok old s \<longleftrightarrow>
     4096 < old \<and> old \<le> 69632 \<and> 4608 \<le> s \<and> s \<le> 69632 \<and>
     (if old \<le> s then old + 512 \<le> s \<or> nblk s = nblk old
      else (old - 1) mod 512 \<le> (s - 1) mod 512)"

text \<open>
  The sizes \<open>old\<close> and \<open>s\<close> for which \<open>put\<close> stores the new bytes and keeps the account of blocks.
  A file without an indirect block must not shrink below a block boundary, and the sizes 4097
  to 4607 must be avoided.
\<close>

definition put_ok :: "nat \<Rightarrow> nat \<Rightarrow> bool" where
  "put_ok old s \<longleftrightarrow>
     old \<le> 4096 \<and> nblk old \<le> nblk s \<and> (s \<le> 4096 \<or> 4608 \<le> s \<and> s \<le> 69632) \<or> rewrite_ok old s"

text \<open>
  The calls that the code handles as the table says. \<open>create\<close> needs a free inode and a type
  that is not zero in 16 bits. \<open>put\<close> must be of a size that fits the old one, by \<open>put_ok\<close>, and
  must fit on the disk; a \<open>put\<close> of more than 69632 bytes is refused. \<open>remove\<close> must not meet an
  indirect file of a whole number of blocks.
\<close>

fun clean :: "afs \<Rightarrow> fs_call \<Rightarrow> bool" where
  "clean a (Create ty) \<longleftrightarrow> (ucast ty :: u16) \<noteq> 0 \<and> (\<exists>i<1024. a i = None)"
| "clean a (Put fid s) \<longleftrightarrow> unat (inum_of fid) < 1024 \<and> length s < 2 ^ 31 \<and>
     (case a (unat (inum_of fid)) of
        None \<Rightarrow> True
      | Some (ty, old) \<Rightarrow>
          length s > 69632 \<or>
          put_ok (length old) (length s) \<and> a_blocks (a(unat (inum_of fid) \<mapsto> (ty, s))) \<le> 32645)"
| "clean a (Get fid) \<longleftrightarrow> unat (inum_of fid) < 1024"
| "clean a (Getattr fid) \<longleftrightarrow> True"
| "clean a (Remove fid) \<longleftrightarrow>
     (case a (unat (inum_of fid)) of
        None \<Rightarrow> True
      | Some (_, s) \<Rightarrow> length s \<le> 4096 \<or> (length s - 4096) mod 512 \<noteq> 0)"

subsection \<open>The abstraction function and the invariant\<close>

definition file_bytes :: "block_layer \<Rightarrow> inode \<Rightarrow> byte list" where
  "file_bytes bl ino = map (file_data bl ino) [0..<file_size ino]"

definition abs_fs :: "block_layer \<Rightarrow> afs" where
  "abs_fs bl i =
     (if in_use bl i then Some (i_type (inode_at bl i), file_bytes bl (inode_at bl i)) else None)"

definition file_ok :: "block_layer \<Rightarrow> inode \<Rightarrow> bool" where
  "file_ok bl ino \<longleftrightarrow>
     readable bl ino \<and> pointers_ok ino \<and> card (owned bl ino) = blocks_needed (file_size ino) \<and>
     (\<forall>k<9. nblk (file_size ino) \<le> k \<longrightarrow> i_blocks ino ! k = 0)"

definition owned_at :: "block_layer \<Rightarrow> nat \<Rightarrow> nat set" where
  "owned_at bl i = (if in_use bl i then owned bl (inode_at bl i) else {})"

definition fs_inv :: "block_layer \<Rightarrow> bool" where
  "fs_inv bl \<longleftrightarrow>
     bl_ok bl \<and> (\<forall>i. in_use bl i \<longrightarrow> file_ok bl (inode_at bl i)) \<and>
     disjoint_family_on (owned_at bl) {..<1024} \<and>
     free_set bl = data_blocks - (\<Union>i<1024. owned_at bl i)"

subsection \<open>Files whose blocks are untouched\<close>

lemma owned_data: "readable bl ino \<Longrightarrow> owned bl ino \<subseteq> data_blocks"
  by (auto simp: owned_def readable_def split: if_splits)

lemma file_frame:
  assumes "readable bl ino" and same: "\<And>b. b \<in> owned bl ino \<Longrightarrow> contents bl' b = contents bl b"
  shows "owned bl' ino = owned bl ino" and "readable bl' ino" and "file_bytes bl' ino = file_bytes bl ino"
proof -
  have blk: "file_block bl' ino k = file_block bl ino k" if "k < nblk (file_size ino)" for k
  proof (cases "k < 8")
    case False
    then have "8 < nblk (file_size ino)" using that by simp
    then have "file_size ino > 4096" by (simp add: nblk_less_iff)
    then have "contents bl' (unat (i_blocks ino ! 8)) = contents bl (unat (i_blocks ino ! 8))"
      using same by (simp add: owned_def)
    then show ?thesis by (simp add: file_block_def)
  qed (simp add: file_block_def)
  then show own: "owned bl' ino = owned bl ino" by (auto simp: owned_def)
  show "readable bl' ino" using assms(1) blk by (auto simp: readable_def)
  have "file_data bl' ino i = file_data bl ino i" if "i < file_size ino" for i
  proof -
    have k: "i div 512 < nblk (file_size ino)" using that by (auto simp: nblk_less_iff)
    then have "unat (file_block bl ino (i div 512)) \<in> owned bl ino" by (auto simp: owned_def)
    with same blk [OF k] show ?thesis by (simp add: file_data_def)
  qed
  then show "file_bytes bl' ino = file_bytes bl ino" by (simp add: file_bytes_def)
qed

lemma file_ok_frame:
  assumes "file_ok bl ino" and "\<And>b. b \<in> owned bl ino \<Longrightarrow> contents bl' b = contents bl b"
  shows "file_ok bl' ino"
  using assms file_frame [of bl ino bl'] by (auto simp: file_ok_def)

text \<open>Two tables agree at an inode when it and its blocks are the same.\<close>

lemma frame_at:
  assumes "fs_inv bl" and "in_use bl j \<Longrightarrow> \<forall>b \<in> owned bl (inode_at bl j). contents bl' b = contents bl b"
    and "inode_at bl' j = inode_at bl j"
  shows "in_use bl' j = in_use bl j" and "owned_at bl' j = owned_at bl j" and "abs_fs bl' j = abs_fs bl j"
    and "in_use bl j \<Longrightarrow> file_ok bl' (inode_at bl' j)"
proof -
  show u: "in_use bl' j = in_use bl j" using assms(3) by (simp add: in_use_def)
  have ok: "file_ok bl (inode_at bl j)" if "in_use bl j" using assms(1) that by (simp add: fs_inv_def)
  then have r: "readable bl (inode_at bl j)" if "in_use bl j" using that by (simp add: file_ok_def)
  show "owned_at bl' j = owned_at bl j" "abs_fs bl' j = abs_fs bl j"
    using u assms(2,3) file_frame [OF r, of bl'] by (auto simp: owned_at_def abs_fs_def)
  show "file_ok bl' (inode_at bl' j)" if "in_use bl j"
    using file_ok_frame [OF ok, of bl'] assms(2,3) that by simp
qed

lemma abs_fs_None: "abs_fs bl i = None \<longleftrightarrow> \<not> in_use bl i"
  by (simp add: abs_fs_def)

lemma abs_fs_out: "1024 \<le> i \<Longrightarrow> abs_fs bl i = None"
  by (simp add: abs_fs_def in_use_def)

subsection \<open>Changing one file\<close>

lemma owned_disjoint:
  assumes "fs_inv bl" and "i < 1024" and "j < 1024" and "i \<noteq> j"
  shows "owned_at bl i \<inter> owned_at bl j = {}"
  using assms by (auto simp: fs_inv_def disjoint_family_on_def)

lemma owned_at_data: "fs_inv bl \<Longrightarrow> owned_at bl i \<subseteq> data_blocks"
  using owned_data by (auto simp: fs_inv_def owned_at_def file_ok_def split: if_splits)

lemma owned_not_free: "fs_inv bl \<Longrightarrow> i < 1024 \<Longrightarrow> owned_at bl i \<inter> free_set bl = {}"
  by (auto simp: fs_inv_def)

lemma fs_inv_update:
  assumes inv: "fs_inv bl" and i: "i < 1024" and ok: "bl_ok bl'"
    and others: "\<And>j. j < 1024 \<Longrightarrow> j \<noteq> i \<Longrightarrow> inode_at bl' j = inode_at bl j"
    and frame: "\<And>b. b \<in> data_blocks \<Longrightarrow> b \<notin> free_set bl \<Longrightarrow> b \<notin> owned_at bl i \<Longrightarrow>
      contents bl' b = contents bl b"
    and new: "in_use bl' i \<Longrightarrow> file_ok bl' (inode_at bl' i)"
    and own: "owned_at bl' i \<subseteq> free_set bl \<union> owned_at bl i"
    and free: "free_set bl' = free_set bl \<union> owned_at bl i - owned_at bl' i"
  shows "fs_inv bl'" and "abs_fs bl' = (abs_fs bl)(i := abs_fs bl' i)"
proof -
  have blocks: "\<forall>b \<in> owned bl (inode_at bl j). contents bl' b = contents bl b"
    if j: "j < 1024" "j \<noteq> i" "in_use bl j" for j
  proof
    fix b assume "b \<in> owned bl (inode_at bl j)"
    then have b: "b \<in> owned_at bl j" using j(3) by (simp add: owned_at_def)
    then have "b \<in> data_blocks" "b \<notin> free_set bl" "b \<notin> owned_at bl i"
      using owned_at_data [OF inv] owned_not_free [OF inv j(1)] owned_disjoint [OF inv j(1) i j(2)] by auto
    then show "contents bl' b = contents bl b" by (rule frame)
  qed
  note at = frame_at [OF inv blocks others]
  have lt: "in_use bl' j \<Longrightarrow> j < 1024" for j by (simp add: in_use_def)
  have files: "file_ok bl' (inode_at bl' j)" if "in_use bl' j" for j
    using that at(1,4) [of j] new lt [OF that] by (cases "j = i") auto
  have own_eq: "owned_at bl' j = owned_at bl j" if "j < 1024" "j \<noteq> i" for j
    using at(2) that by blast
  have apart: "owned_at bl' i \<inter> owned_at bl j = {}" if "j < 1024" "j \<noteq> i" for j
    using own owned_not_free [OF inv that(1)] owned_disjoint [OF inv i that(1)] that(2) by blast
  have dis: "disjoint_family_on (owned_at bl') {..<1024}"
    unfolding disjoint_family_on_def
  proof (intro ballI impI)
    fix j k :: nat assume "j \<in> {..<1024}" "k \<in> {..<1024}" "j \<noteq> k"
    then show "owned_at bl' j \<inter> owned_at bl' k = {}"
      using own_eq [of j] own_eq [of k] apart [of j] apart [of k] owned_disjoint [OF inv, of j k]
      by (cases "j = i"; cases "k = i") auto
  qed
  let ?R = "\<Union>j \<in> {..<1024} - {i}. owned_at bl j"
  have un: "(\<Union>j<1024. owned_at bl j) = owned_at bl i \<union> ?R"
      "(\<Union>j<1024. owned_at bl' j) = owned_at bl' i \<union> ?R"
    using i own_eq by auto
  have "owned_at bl i \<inter> ?R = {}" using owned_disjoint [OF inv i] by auto
  then have "free_set bl' = data_blocks - (\<Union>j<1024. owned_at bl' j)"
    using inv owned_at_data [OF inv, of i] unfolding free un by (auto simp: fs_inv_def un)
  with ok files dis show "fs_inv bl'" by (simp add: fs_inv_def)
  show "abs_fs bl' = (abs_fs bl)(i := abs_fs bl' i)"
  proof
    fix j show "abs_fs bl' j = ((abs_fs bl)(i := abs_fs bl' i)) j"
      using at(3) [of j] abs_fs_out [of j] by (cases "j < 1024") auto
  qed
qed

text \<open>The number of free blocks.\<close>

lemma free_count:
  assumes "fs_inv bl"
  shows "card (free_set bl) + a_blocks (abs_fs bl) = 32645"
proof -
  have fin: "finite (owned_at bl i)" for i
    using owned_at_data [OF assms] finite_data_blocks by (rule finite_subset)
  have "card (owned_at bl i) = (case abs_fs bl i of None \<Rightarrow> 0 | Some (_, s) \<Rightarrow> blocks_needed (length s))" for i
    using assms by (simp add: owned_at_def abs_fs_def fs_inv_def file_ok_def file_bytes_def)
  then have "card (\<Union>i<1024. owned_at bl i) = a_blocks (abs_fs bl)"
    using assms fin unfolding a_blocks_def
    by (subst card_UN_disjoint) (auto simp: fs_inv_def disjoint_family_on_def)
  moreover have "(\<Union>i<1024. owned_at bl i) \<subseteq> data_blocks" using owned_at_data [OF assms] by blast
  then have "card (free_set bl) = card data_blocks - card (\<Union>i<1024. owned_at bl i)"
    "card (\<Union>i<1024. owned_at bl i) \<le> card data_blocks"
    using assms fin by (auto simp: fs_inv_def intro!: card_Diff_subset card_mono)
  moreover have "card data_blocks = 32645" by (simp add: data_blocks_def)
  ultimately show ?thesis by simp
qed

end
