(* ===== verification/Fs_Refine.thy ===== *)
theory Fs_Refine
  imports Fs_Spec
begin

text \<open>
  Each call of the server refines the abstract table: on a clean call from a state that
  satisfies the invariant it returns, keeps the invariant, and its reply and new state are
  those of \<open>a_step\<close>.
\<close>

subsection \<open>Creating\<close>

lemma file_ok_new: "file_ok bl (new_inode ts ty)" "owned bl (new_inode ts ty) = {}"
    "file_bytes bl (new_inode ts ty) = []"
proof -
  have ino: "file_size (new_inode ts ty) = 0" "i_blocks (new_inode ts ty) = replicate 9 0"
    by (cases ts; simp add: new_inode_def file_size_def)+
  then show o: "owned bl (new_inode ts ty) = {}" "file_bytes bl (new_inode ts ty) = []"
    by (simp_all add: owned_def nblk_def file_bytes_def)
  have "nblk 0 = 0" by (simp add: nblk_def)
  with ino o show "file_ok bl (new_inode ts ty)"
    by (auto simp: file_ok_def readable_def pointers_ok_def blocks_needed_def simp del: replicate.simps)
qed

lemma new_inode_type: "i_type (new_inode ts ty) = ucast ty"
  by (cases ts) (simp add: new_inode_def)

lemma a_free_least:
  assumes "\<exists>i<1024. a i = None"
  shows "a_free a < 1024" and "a (a_free a) = None" and "\<And>i. i < a_free a \<Longrightarrow> a i \<noteq> None"
proof -
  obtain m where m: "List.find (\<lambda>i. a i = None) [0..<1024] = Some m"
    using assms by (cases "List.find (\<lambda>i. a i = None) [0..<1024]") (auto simp: find_None_iff)
  then have "m < 1024 \<and> a m = None \<and> (\<forall>i<m. a i \<noteq> None)"
    by (auto simp: find_Some_iff)
  with m show "a_free a < 1024" "a (a_free a) = None" "\<And>i. i < a_free a \<Longrightarrow> a i \<noteq> None"
    by (auto simp: a_free_def)
qed

lemma create_refines:
  assumes inv: "fs_inv bl" and ty: "(ucast ty :: u16) \<noteq> 0" and room: "\<exists>i<1024. abs_fs bl i = None"
  shows "\<exists>bl'. alloc_inode stk ts bl ty = Inr (word_of_nat (a_free (abs_fs bl)), bl') \<and> fs_inv bl' \<and>
           abs_fs bl' = (abs_fs bl)(a_free (abs_fs bl) \<mapsto> (ucast ty, []))"
proof -
  let ?m = "a_free (abs_fs bl)"
  note m = a_free_least [OF room]
  have ok: "bl_ok bl" using inv by (simp add: fs_inv_def)
  have free: "\<not> in_use bl ?m" and below: "\<And>i. i < ?m \<Longrightarrow> in_use bl i"
    using m(2,3) by (simp_all add: abs_fs_None)
  then have "find_free_inode stk bl 0 = Inr ?m"
    by (intro find_free_inode_found [OF ok _ m(1)]) simp_all
  then obtain bl' where al: "alloc_inode stk ts bl ty = Inr (word_of_nat ?m, bl')" "bl_ok bl'"
      "\<forall>j<1024. inode_at bl' j = (if j = ?m then new_inode ts ty else inode_at bl j)"
      "free_set bl' = free_set bl" "\<forall>b. b \<notin> inode_blocks \<longrightarrow> contents bl' b = contents bl b"
    using alloc_inode_at [OF ok _ m(1)] by blast
  have at: "inode_at bl' ?m = new_inode ts ty" using al(3) m(1) by simp
  have use: "in_use bl' ?m" using ty at m(1) new_inode_type by (simp add: in_use_def)
  have none: "owned_at bl ?m = {}" "owned_at bl' ?m = {}"
    using free at file_ok_new(2) by (simp_all add: owned_at_def)
  have frame: "contents bl' b = contents bl b" if "b \<in> data_blocks" for b
    using al(5) that inode_blocks_apart(2) by blast
  have "fs_inv bl'" "abs_fs bl' = (abs_fs bl)(?m := abs_fs bl' ?m)"
    using fs_inv_update [OF inv m(1) al(2)] al(3,4) none at file_ok_new(1) frame by simp_all
  moreover have "abs_fs bl' ?m = Some (ucast ty, [])"
    using use at file_ok_new(3) new_inode_type by (simp add: abs_fs_def)
  ultimately show ?thesis using al(1) by auto
qed

subsection \<open>Writing\<close>

lemma file_ok_direct:
  assumes "file_ok bl ino" and "file_size ino \<le> 4096"
  shows "direct_blocks ino = owned bl ino" and "i_blocks ino ! 8 = 0"
proof -
  have len: "length (i_blocks ino) = 9" using assms(1) by (simp add: file_ok_def pointers_ok_def inode_ok_def)
  have n: "nblk (file_size ino) \<le> 8" using assms(2) nblk_le [of _ 8] by simp
  with assms(1) show "i_blocks ino ! 8 = 0" by (simp add: file_ok_def)
  have used: "unat (i_blocks ino ! k) \<in> data_blocks" if "k < nblk (file_size ino)" for k
    using assms(1) that n by (auto simp: file_ok_def readable_def file_block_def split: if_splits)
  have zero: "i_blocks ino ! k = 0" if "k < 8" "\<not> k < nblk (file_size ino)" for k
    using assms(1) that by (simp add: file_ok_def)
  have "direct_blocks ino = (\<lambda>k. unat (i_blocks ino ! k)) ` {..<8} \<inter> data_blocks"
    using len by (auto simp: direct_blocks_def nth_image [symmetric] lessThan_atLeast0 image_image)
  also have "\<dots> = (\<lambda>k. unat (i_blocks ino ! k)) ` {..<nblk (file_size ino)}"
    using used zero n by (fastforce simp: data_blocks_def)
  also have "\<dots> = owned bl ino"
    using assms(2) n by (auto simp: owned_def file_block_def image_iff)
  finally show "direct_blocks ino = owned bl ino" .
qed

lemma readable_pointers_ok:
  assumes "readable bl ino" and zero: "\<And>k. k < 9 \<Longrightarrow> nblk (file_size ino) \<le> k \<Longrightarrow> i_blocks ino ! k = 0"
  shows "pointers_ok ino"
proof -
  let ?s = "file_size ino"
  have "unat (i_blocks ino ! k) < 32768" if "k < 9" for k
  proof (cases "k < nblk ?s")
    case True
    show ?thesis
    proof (cases "k = 8")
      case k: True
      with True have "?s > 4096" by (simp add: nblk_less_iff)
      with k assms(1) show ?thesis by (auto simp: readable_def data_blocks_def)
    next
      case False
      then have "file_block bl ino k = i_blocks ino ! k" using that by (simp add: file_block_def)
      with True assms(1) show ?thesis by (auto simp: readable_def data_blocks_def)
    qed
  qed (simp add: zero that)
  moreover have "inode_ok ino" using assms(1) by (simp add: readable_def)
  ultimately show ?thesis by (auto simp: pointers_ok_def inode_ok_def in_set_conv_nth)
qed

lemma write_refines:
  assumes inv: "fs_inv bl" and use: "in_use bl i" and ino: "ino = inode_at bl i"
    and old: "file_size ino \<le> 4096" "nblk (file_size ino) \<le> nblk s"
    and sz: "s \<le> 69632" "s \<le> 4096 \<or> 4608 \<le> s"
    and rw: "rewritten bl i s buf bl'" "reowned bl i s bl'"
  shows "fs_inv bl'" and "abs_fs bl' = (abs_fs bl)(i \<mapsto> (i_type ino, map buf [0..<s]))"
proof -
  have i: "i < 1024" using use by (simp add: in_use_def)
  have fok: "file_ok bl ino" using inv use ino by (simp add: fs_inv_def)
  note dir = file_ok_direct [OF fok old(1)]
  let ?ino' = "inode_at bl' i"
  have at: "owned_at bl i = direct_blocks ino" using use ino dir(1) by (simp add: owned_at_def)
  have use': "in_use bl' i" using rewritten_in_use [OF rw(1) use] .
  have r: "bl_ok bl'" "readable bl' ?ino'" "file_size ?ino' = s"
    "\<forall>k. k < s \<longrightarrow> file_data bl' ?ino' k = buf k"
    "attr_of ?ino' = (attr_of ino)\<lparr>a_size := word_of_nat s\<rparr>"
    "\<forall>j<1024. j \<noteq> i \<longrightarrow> inode_at bl' j = inode_at bl j"
    using rw(1) ino by (auto simp: rewritten_def)
  have o: "card (owned bl' ?ino') = blocks_needed s" "owned bl' ?ino' \<subseteq> free_set bl \<union> direct_blocks ino"
    "free_set bl' = free_set bl \<union> direct_blocks ino - owned bl' ?ino'"
    "\<forall>k<9. nblk s \<le> k \<longrightarrow> i_blocks ?ino' ! k = i_blocks ino ! k"
    using rw(2) ino dir(2) by (auto simp: reowned_def Let_def data_blocks_def)
  have zero: "i_blocks ?ino' ! k = 0" if "k < 9" "nblk s \<le> k" for k
    using o(4) that fok old(2) by (auto simp: file_ok_def)
  have "pointers_ok ?ino'" using readable_pointers_ok [OF r(2)] zero r(3) by simp
  then have fok': "file_ok bl' ?ino'" using r(2,3) o(1) zero by (simp add: file_ok_def)
  have own': "owned_at bl' i = owned bl' ?ino'" using use' by (simp add: owned_at_def)
  have frame: "contents bl' b = contents bl b"
    if "b \<in> data_blocks" "b \<notin> free_set bl" "b \<notin> owned_at bl i" for b
    using that rw(1) ino at by (simp add: rewritten_def)
  note upd = fs_inv_update [OF inv i r(1) r(6) [rule_format] frame fok', unfolded own' at, OF _ _ _ _ _ o(2,3)]
  show "fs_inv bl'" using upd(1) by blast
  have "i_type ?ino' = i_type ino" using r(5) by (simp add: attr_of_def scast16_inject)
  moreover have "file_bytes bl' ?ino' = map buf [0..<s]" using r(3,4) by (simp add: file_bytes_def)
  ultimately have "abs_fs bl' i = Some (i_type ino, map buf [0..<s])" using use' by (simp add: abs_fs_def)
  with upd(2) show "abs_fs bl' = (abs_fs bl)(i \<mapsto> (i_type ino, map buf [0..<s]))" by simp
qed

subsection \<open>Reading\<close>

lemma atime_irrelevant:
  "file_block bl (ino\<lparr>i_atime := x\<rparr>) = file_block bl ino" "file_size (ino\<lparr>i_atime := x\<rparr>) = file_size ino"
  "owned bl (ino\<lparr>i_atime := x\<rparr>) = owned bl ino" "file_bytes bl (ino\<lparr>i_atime := x\<rparr>) = file_bytes bl ino"
  "file_ok bl (ino\<lparr>i_atime := x\<rparr>) = file_ok bl ino"
proof -
  show b: "file_block bl (ino\<lparr>i_atime := x\<rparr>) = file_block bl ino"
    "file_size (ino\<lparr>i_atime := x\<rparr>) = file_size ino"
    by (simp_all add: fun_eq_iff file_block_def file_size_def)
  then show o: "owned bl (ino\<lparr>i_atime := x\<rparr>) = owned bl ino" by (simp add: owned_def)
  from b show "file_bytes bl (ino\<lparr>i_atime := x\<rparr>) = file_bytes bl ino"
    by (simp add: file_bytes_def file_data_def fun_eq_iff)
  from b o show "file_ok bl (ino\<lparr>i_atime := x\<rparr>) = file_ok bl ino"
    by (simp add: file_ok_def readable_def pointers_ok_def inode_ok_def)
qed

lemma read_refines:
  assumes inv: "fs_inv bl" and use: "in_use bl i" and ok: "bl_ok bl'"
    and at: "\<forall>j<1024. inode_at bl' j =
      (if j = i then (inode_at bl j)\<lparr>i_atime := x\<rparr> else inode_at bl j)"
    and free: "free_set bl' = free_set bl"
    and frame: "\<forall>b. b \<notin> inode_blocks \<longrightarrow> contents bl' b = contents bl b"
  shows "fs_inv bl'" and "abs_fs bl' = abs_fs bl"
proof -
  have i: "i < 1024" using use by (simp add: in_use_def)
  let ?ino = "inode_at bl i"
  have same: "contents bl' b = contents bl b" if "b \<in> data_blocks" for b
    using that frame inode_blocks_apart(2) by blast
  have fok: "file_ok bl ?ino" using inv use by (simp add: fs_inv_def)
  then have r: "readable bl ?ino" by (simp add: file_ok_def)
  have data: "contents bl' b = contents bl b" if "b \<in> owned bl ?ino" for b
    using that owned_data [OF r] same by blast
  have ino': "inode_at bl' i = ?ino\<lparr>i_atime := x\<rparr>" using at i by simp
  have use': "in_use bl' i" using use ino' by (simp add: in_use_def)
  note fr = file_frame [OF r data]
  have own: "owned_at bl' i = owned_at bl i"
    using use use' ino' fr(1) atime_irrelevant(3) by (simp add: owned_at_def)
  have fe: "free_set bl = free_set bl \<union> owned_at bl i - owned_at bl i"
    using owned_not_free [OF inv i] by blast
  have "fs_inv bl'" "abs_fs bl' = (abs_fs bl)(i := abs_fs bl' i)"
    using fs_inv_update [OF inv i ok] at same own free file_ok_frame [OF fok data]
      fe ino' atime_irrelevant(5) by auto
  moreover have "abs_fs bl' i = abs_fs bl i"
    using use use' ino' fr(3) atime_irrelevant(4) by (simp add: abs_fs_def)
  ultimately show "fs_inv bl'" "abs_fs bl' = abs_fs bl" by simp_all
qed

subsection \<open>Removing\<close>

lemma nblk_partial:
  assumes "m mod 512 \<noteq> 0"
  shows "nblk (4096 + m) = 9 + m div 512"
proof -
  define q r where "q = m div 512" and "r = m mod 512"
  have "m = 512 * q + r" "r < 512" "r \<noteq> 0" using assms by (simp_all add: q_def r_def)
  then have "4096 + m + 511 = 512 * (9 + q) + (r - 1)" "r - 1 < 512" by simp_all
  then show ?thesis unfolding nblk_def q_def [symmetric] by simp
qed

lemma removed_blocks_owned:
  assumes "file_ok bl ino" and "file_size ino \<le> 4096 \<or> (file_size ino - 4096) mod 512 \<noteq> 0"
  shows "removed_blocks bl ino \<inter> data_blocks = owned bl ino"
    and "k < indirect_count (file_size ino) \<Longrightarrow> unat (file_block bl ino (8 + k)) < 32768"
proof -
  let ?n = "file_size ino"
  let ?k = "8 + indirect_count ?n"
  have rd: "readable bl ino" using assms(1) by (simp add: file_ok_def)
  have cnt: "?k = max 8 (nblk ?n)"
    using assms(2) nblk_partial [of "?n - 4096"] nblk_le [of ?n 8] by (auto simp: indirect_count_def)
  have "unat (file_block bl ino j) \<in> data_blocks" if "j < nblk ?n" for j
    using rd that by (simp add: readable_def)
  moreover have "unat (file_block bl ino j) \<notin> data_blocks" if "j < ?k" "\<not> j < nblk ?n" for j
  proof -
    have "j < 8" using that cnt by simp
    then have "file_block bl ino j = 0" using assms(1) that by (simp add: file_block_def file_ok_def)
    then show ?thesis by (simp add: data_blocks_def)
  qed
  moreover have "nblk ?n \<le> ?k" using cnt by simp
  ultimately have "(\<lambda>j. unat (file_block bl ino j)) ` {..<?k} \<inter> data_blocks =
      (\<lambda>j. unat (file_block bl ino j)) ` {..<nblk ?n}"
    by (intro image_restrict)
  moreover have "?n > 4096 \<Longrightarrow> unat (i_blocks ino ! 8) \<in> data_blocks" using rd by (simp add: readable_def)
  ultimately show "removed_blocks bl ino \<inter> data_blocks = owned bl ino"
    by (auto simp: removed_blocks_def owned_def)
  show "unat (file_block bl ino (8 + k)) < 32768" if "k < indirect_count ?n"
  proof -
    have "8 + k < nblk ?n" using that cnt by simp
    with rd show ?thesis by (auto simp: readable_def data_blocks_def)
  qed
qed

lemma remove_refines:
  assumes inv: "fs_inv bl" and use: "in_use bl (unat inum)" and ino: "ino = inode_at bl (unat inum)"
    and sz: "file_size ino \<le> 4096 \<or> (file_size ino - 4096) mod 512 \<noteq> 0"
  shows "\<exists>bl'. remove_file stk bl inum = Inr bl' \<and> fs_inv bl' \<and>
           abs_fs bl' = (abs_fs bl)(unat inum := None)"
proof -
  let ?i = "unat inum"
  have i: "?i < 1024" using use by (simp add: in_use_def)
  have ok: "bl_ok bl" and fok: "file_ok bl ino" using inv use ino by (auto simp: fs_inv_def)
  note rb = removed_blocks_owned [OF fok sz]
  have "file_size ino \<noteq> 69632" using sz by auto
  then have "removable bl ino" using fok rb(2) by (auto simp: removable_def file_ok_def readable_def)
  then obtain bl' where rm: "remove_file stk bl inum = Inr bl'" "removed bl ?i bl'"
    using remove_file_spec [OF ok use ino] by blast
  have m: "bl_ok bl'" "\<not> in_use bl' ?i" "\<forall>j<1024. j \<noteq> ?i \<longrightarrow> inode_at bl' j = inode_at bl j"
    "free_set bl' = free_set bl \<union> owned bl ino" "\<forall>b \<in> data_blocks. contents bl' b = contents bl b"
    using rm(2) rb(1) ino by (auto simp: removed_def)
  have "owned_at bl ?i = owned bl ino" "owned_at bl' ?i = {}" using use ino m(2) by (auto simp: owned_at_def)
  then have "fs_inv bl'" "abs_fs bl' = (abs_fs bl)(?i := abs_fs bl' ?i)"
    using fs_inv_update [OF inv i m(1)] m by auto
  moreover have "abs_fs bl' ?i = None" using m(2) by (simp add: abs_fs_None)
  ultimately show ?thesis using rm(1) by auto
qed

end
