(* ===== verification/File_Rewrite.thy ===== *)
theory File_Rewrite
  imports Fs_Refine
begin

text \<open>
  Writing to a file that already has an indirect block. The direct blocks are replaced, the data
  blocks behind the indirect block are written again, new ones are added at the end, or, when
  the file shrinks, the last ones are released; the indirect block keeps its place.
\<close>

subsection \<open>Counting blocks\<close>

lemma rewrite_blocks:
  assumes "rewrite_ok old s"
  shows "8 < nblk old" "nblk old \<le> 136" "8 < nblk s" "nblk s \<le> 136" "s < old \<Longrightarrow> nblk s \<le> nblk old"
  using assms nblk_less_iff [of 8] nblk_le [of _ 136] by (auto simp: rewrite_ok_def nblk_def)

text \<open>The choice between a new block and an old one.\<close>

lemma rewrite_choice:
  assumes "rewrite_ok old s" and "wcount s k w" and "8 \<le> k" and "k < nblk s"
  shows "int old \<le> int s \<and> int old \<le> num_bytes_already_written w \<longleftrightarrow> \<not> k < nblk old"
proof -
  have k: "512 * k < s" using assms(4) by (simp add: nblk_less_iff)
  have w: "num_bytes_already_written w = int (min (512 * k) (s - 512))"
    using assms(2) by (simp add: wcount_def)
  show ?thesis
  proof (cases "old \<le> s")
    case True
    then consider "old + 512 \<le> s" | "nblk s = nblk old" "s < old + 512"
      using assms(1) by (auto simp: rewrite_ok_def) linarith
    then show ?thesis
    proof cases
      case 1
      then show ?thesis using True w k nblk_less_iff [of k old] by auto
    next
      case 2
      moreover have "4608 \<le> s" using assms(1) by (simp add: rewrite_ok_def)
      ultimately show ?thesis using w k assms(4) by auto
    qed
  next
    case False
    then show ?thesis using rewrite_blocks(5) [OF assms(1)] assms(4) by simp
  qed
qed

lemma shrink_count:
  assumes "rewrite_ok old s" and "s < old"
  shows "nblk (old - s) = nblk old - nblk s"
proof -
  define a r b t where "a = (old - 1) div 512" and "r = (old - 1) mod 512"
    and "b = (s - 1) div 512" and "t = (s - 1) mod 512"
  have o: "old = 512 * a + r + 1" "r < 512" and s: "s = 512 * b + t + 1" "t < 512"
    using assms by (auto simp: a_def b_def r_def t_def rewrite_ok_def)
  have rt: "r \<le> t" using assms by (simp add: rewrite_ok_def r_def t_def)
  have n: "nblk old = a + 1" "nblk s = b + 1"
    using o s by (simp_all add: nblk_def)
  have ab: "b < a" using o s rt assms(2) by (cases "a \<le> b") auto
  then obtain c where c: "a = b + Suc c" using less_iff_Suc_add by auto
  have "old - s + 511 = 512 * Suc c + (511 - (t - r))" using o s rt c by simp
  then have "nblk (old - s) = Suc c" using s(2) unfolding nblk_def by (simp add: div_mult_self4)
  with n c show ?thesis by simp
qed

subsection \<open>The loop\<close>

text \<open>
  What is known of the old file after its direct blocks were released: the indirect block and
  the data blocks behind it are different data blocks and not free.
\<close>

definition old_indirect :: "block_layer \<Rightarrow> inode \<Rightarrow> nat \<Rightarrow> bool" where
  "old_indirect bl0 ino0 n \<longleftrightarrow>
     8 < n \<and> n \<le> 136 \<and> length (i_blocks ino0) = 9 \<and>
     unat (i_blocks ino0 ! 8) \<in> data_blocks \<and> unat (i_blocks ino0 ! 8) \<notin> free_set bl0 \<and>
     (\<forall>j. 8 \<le> j \<longrightarrow> j < n \<longrightarrow> unat (file_block bl0 ino0 j) \<in> data_blocks \<and>
        unat (file_block bl0 ino0 j) \<notin> free_set bl0 \<and>
        unat (file_block bl0 ino0 j) \<noteq> unat (i_blocks ino0 ! 8)) \<and>
     inj_on (\<lambda>j. unat (file_block bl0 ino0 j)) {8..<n}"

definition reuse_inv ::
    "block_layer \<Rightarrow> inode \<Rightarrow> nat \<Rightarrow> nat \<Rightarrow> buf \<Rightarrow> nat \<Rightarrow> write_state \<Rightarrow> bool" where
  "reuse_inv bl0 ino0 n s buf k w \<longleftrightarrow>
     wcount s k w \<and> (8 < k \<longrightarrow> need_to_overwrite_indirect w) \<and> indirect_index w = k - 8 \<and> 8 \<le> k \<and>
     (\<exists>ids M. length ids = k \<and>
        wrote bl0 s buf (w_bl w) ids (set (take 8 ids) \<union> set (drop n ids)) M \<and>
        (\<forall>j. 8 \<le> j \<longrightarrow> j < k \<longrightarrow> j < n \<longrightarrow> ids ! j = unat (file_block bl0 ino0 j)) \<and>
        w_ino w = ino0\<lparr>i_blocks := map word_of_nat (take 8 ids) @ [i_blocks ino0 ! 8]\<rparr> \<and>
        (\<forall>j<k - 8. get32 (final_indirect_block w) (4 * j) = word_of_nat (ids ! (8 + j))))"

lemma reuse_inv_start:
  assumes "direct_inv stk bl0 ino0 s buf 8 w" and "old_indirect bl0 ino0 n"
  shows "reuse_inv bl0 ino0 n s buf 8 w"
proof -
  obtain ids M where ids: "length ids = 8" "wrote bl0 s buf (w_bl w) ids (set ids) M"
      "w_ino w = ino0\<lparr>i_blocks := map word_of_nat ids @ drop 8 (i_blocks ino0)\<rparr>"
    and c: "wcount s 8 w" "indirect_index w = 0"
    using assms(1) by (auto simp: direct_inv_def)
  have "length (i_blocks ino0) = 9" "8 < n" using assms(2) by (auto simp: old_indirect_def)
  then have "drop 8 (i_blocks ino0) = [i_blocks ino0 ! 8]" by (simp add: Cons_nth_drop_Suc [symmetric])
  with ids c \<open>8 < n\<close> show ?thesis by (auto simp: reuse_inv_def intro!: exI [of _ ids])
qed

text \<open>A chunk stored again in a block that is in use.\<close>

lemma wrote_again:
  assumes "wrote bl0 s buf bl ids A M" and "holds_chunk s buf (length ids) x"
    and "unat b \<in> data_blocks" and "unat b \<notin> free_set bl" and "unat b \<notin> set ids"
  obtains bl' where "bl_write_block bl b x = Inr bl'"
    and "wrote bl0 s buf bl' (ids @ [unat b]) A (M(unat b \<mapsto> x))"
proof -
  have st: "stored contents free_set bl0 bl A M" and ok: "bl_ok bl" using assms(1) by (auto simp: wrote_def)
  have b: "unat b < 32768" "unat b \<notin> bitmap_blocks"
    using assms(3) data_not_bitmap by (auto simp: data_blocks_def)
  obtain bl' where w: "bl_write_block bl b x = Inr bl'" "bl_ok bl'"
      "stored contents free_set bl0 bl' A (M(unat b \<mapsto> x))"
    by (rule bs.stored_write [OF st ok b, of x]) (rule that)
  have "free_set bl' = free_set bl" using storedD(2) [OF w(3)] storedD(2) [OF st] by simp
  with assms w holds_chunk_snoc [OF _ assms(5,2), of M]
  have "wrote bl0 s buf bl' (ids @ [unat b]) A (M(unat b \<mapsto> x))" by (auto simp: wrote_def)
  with that w(1) show thesis by blast
qed

lemma final_words_step:
  assumes "\<forall>j<k - 8. get32 f (4 * j) = word_of_nat (ids ! (8 + j))" and "length ids = k" and "8 \<le> k"
  shows "\<forall>j<Suc k - 8. get32 (put32 f (4 * (k - 8)) (word_of_nat b)) (4 * j) = word_of_nat ((ids @ [b]) ! (8 + j))"
proof (intro allI impI)
  fix j assume "j < Suc k - 8"
  then consider "j < k - 8" | "j = k - 8" by linarith
  then show "get32 (put32 f (4 * (k - 8)) (word_of_nat b)) (4 * j) = word_of_nat ((ids @ [b]) ! (8 + j))"
    using assms by cases (auto simp: buf_simps nth_append)
qed

text \<open>Both kinds of step end with the same bookkeeping.\<close>

lemma reuse_inv_next:
  assumes "wcount s k w" and "512 * k < s" and "need_to_overwrite_indirect w" and "indirect_index w = k - 8"
    and "8 \<le> k" and "length ids = k"
    and "wrote bl0 s buf bl' (ids @ [b]) (set (take 8 (ids @ [b])) \<union> set (drop n (ids @ [b]))) M"
    and "\<forall>j. 8 \<le> j \<longrightarrow> j < k \<longrightarrow> j < n \<longrightarrow> ids ! j = unat (file_block bl0 ino0 j)"
    and "k < n \<Longrightarrow> b = unat (file_block bl0 ino0 k)"
    and "w_ino w = ino0\<lparr>i_blocks := map word_of_nat (take 8 ids) @ [i_blocks ino0 ! 8]\<rparr>"
    and "\<forall>j<k - 8. get32 (final_indirect_block w) (4 * j) = word_of_nat (ids ! (8 + j))"
    and w': "w' = w\<lparr>w_bl := bl', final_indirect_block :=
      put32 (final_indirect_block w) (4 * (k - 8)) (word_of_nat b)\<rparr>"
  shows "reuse_inv bl0 ino0 n s buf (Suc k) (advance (w'\<lparr>indirect_index := indirect_index w' + 1\<rparr>))"
proof -
  let ?v = "w'\<lparr>indirect_index := indirect_index w' + 1\<rparr>"
  have "wcount s (Suc k) (advance ?v)"
    using assms(2) w' by (intro wcount_advance wcount_cong [OF assms(1)]) simp_all
  moreover have "(ids @ [b]) ! j = unat (file_block bl0 ino0 j)" if "8 \<le> j" "j < Suc k" "j < n" for j
    using assms(6,8,9) that by (cases "j = k") (auto simp: nth_append)
  moreover note final_words_step [OF assms(11,6,5), of b]
  ultimately show ?thesis
    unfolding reuse_inv_def using assms(3-7,10) w'
    by (intro conjI exI [of _ "ids @ [b]"] exI [of _ M]) (auto simp: advance_def Let_def)
qed

text \<open>A block written so far was free, or it is an earlier block of the old file.\<close>

lemma reuse_cases:
  assumes "set (take 8 ids) \<union> set (drop n ids) \<subseteq> F"
    and "\<forall>j. 8 \<le> j \<longrightarrow> j < length ids \<longrightarrow> j < n \<longrightarrow> ids ! j = f j" and "x \<in> set ids"
  shows "x \<in> F \<or> (\<exists>j. 8 \<le> j \<and> j < length ids \<and> j < n \<and> x = f j)"
proof -
  obtain j where j: "j < length ids" "x = ids ! j" using assms(3) by (auto simp: in_set_conv_nth)
  consider "j < 8" | "n \<le> j" | "8 \<le> j" "j < n" by linarith
  then show ?thesis
  proof cases
    case 1
    then have "x \<in> set (take 8 ids)" using j by (auto simp: in_set_conv_nth intro!: exI [of _ j])
    with assms(1) show ?thesis by blast
  next
    case 2
    then have "x \<in> set (drop n ids)" using j by (auto simp: in_set_conv_nth intro!: exI [of _ "j - n"])
    with assms(1) show ?thesis by blast
  qed (use assms(2) j in auto)
qed

lemma reuse_apart:
  assumes old: "old_indirect bl0 ino0 n" and w: "wrote bl0 s buf bl ids (set (take 8 ids) \<union> set (drop n ids)) M"
    and ids: "\<forall>j. 8 \<le> j \<longrightarrow> j < length ids \<longrightarrow> j < n \<longrightarrow> ids ! j = unat (file_block bl0 ino0 j)"
  shows "unat (i_blocks ino0 ! 8) \<notin> set ids"
    and "8 \<le> k \<Longrightarrow> length ids \<le> k \<Longrightarrow> k < n \<Longrightarrow> unat (file_block bl0 ino0 k) \<notin> set ids"
proof -
  note c = reuse_cases [OF wrote_free(2) [OF w] ids]
  show "unat (i_blocks ino0 ! 8) \<notin> set ids"
    using c [of "unat (i_blocks ino0 ! 8)"] old unfolding old_indirect_def by metis
  assume k: "8 \<le> k" "length ids \<le> k" "k < n"
  let ?b = "\<lambda>j. unat (file_block bl0 ino0 j)"
  have nf: "?b k \<notin> free_set bl0" and inj: "inj_on ?b {8..<n}" using old k by (auto simp: old_indirect_def)
  show "?b k \<notin> set ids"
  proof
    assume "?b k \<in> set ids"
    with c nf obtain j where j: "8 \<le> j" "j < length ids" "j < n" "?b k = ?b j" by blast
    then have "k = j" using k inj_onD [OF inj j(4)] by simp
    with j(2) k(2) show False by simp
  qed
qed

lemma old_step:
  assumes inv: "reuse_inv bl0 ino0 n s buf k w" and old: "old_indirect bl0 ino0 n"
    and k: "k < nblk s" "k < n"
  shows "\<exists>w'. write_old_indirect stk buf (w\<lparr>need_to_overwrite_indirect := True\<rparr>) = Inr w' \<and>
           reuse_inv bl0 ino0 n s buf (Suc k) (advance (w'\<lparr>indirect_index := indirect_index w' + 1\<rparr>))"
proof -
  obtain ids M where ids: "length ids = k"
      "wrote bl0 s buf (w_bl w) ids (set (take 8 ids) \<union> set (drop n ids)) M"
      "\<forall>j. 8 \<le> j \<longrightarrow> j < k \<longrightarrow> j < n \<longrightarrow> ids ! j = unat (file_block bl0 ino0 j)"
      "w_ino w = ino0\<lparr>i_blocks := map word_of_nat (take 8 ids) @ [i_blocks ino0 ! 8]\<rparr>"
    and fin: "\<forall>j<k - 8. get32 (final_indirect_block w) (4 * j) = word_of_nat (ids ! (8 + j))"
    and c: "wcount s k w" "indirect_index w = k - 8" "8 \<le> k"
    using inv by (auto simp: reuse_inv_def)
  let ?p8 = "i_blocks ino0 ! 8" and ?b = "file_block bl0 ino0 k" and ?w = "w\<lparr>need_to_overwrite_indirect := True\<rparr>"
  have o: "unat ?p8 \<in> data_blocks" "unat ?b \<in> data_blocks" "unat ?b \<notin> free_set bl0" "k - 8 < 128"
    using old k c(3) by (auto simp: old_indirect_def)
  have ap: "unat ?p8 \<notin> set ids" "unat ?b \<notin> set ids"
    using reuse_apart [OF old ids(2)] ids(1,3) c(3) k(2) by auto
  have same: "contents (w_bl w) (unat ?p8) = contents bl0 (unat ?p8)"
    using wrote_frame [OF ids(2) ap(1)] data_not_bitmap [OF o(1)] by simp
  obtain ind where rd: "bl_read_block (w_bl w) ?p8 (stk (Indirect_block_at k)) = Inr ind"
      "\<And>i. i < 512 \<Longrightarrow> ind i = contents bl0 (unat ?p8) i"
    using read_array_byte [of ?p8 "w_bl w" "stk (Indirect_block_at k)"] o(1) same by (auto simp: data_blocks_def)
  have ptr: "get32 ind (4 * (k - 8)) = ?b"
    using rd(2) o(4) c(3) by (auto simp: file_block_def intro!: get32_cong)
  let ?x = "fill_buffer (stk (Temp_buffer k)) buf ?w"
  have c': "wcount s k ?w" by (rule wcount_cong [OF c(1)]) simp_all
  have "holds_chunk s buf (length ids) ?x" using fill_buffer_holds [OF c'] ids(1) by simp
  then obtain bl' where wr: "bl_write_block (w_bl w) ?b ?x = Inr bl'"
      "wrote bl0 s buf bl' (ids @ [unat ?b]) (set (take 8 ids) \<union> set (drop n ids)) (M(unat ?b \<mapsto> ?x))"
    using wrote_again [OF ids(2) _ o(2) _ ap(2), of ?x] o(3) wrote_free(1) [OF ids(2)] by auto
  let ?w' = "?w\<lparr>w_bl := bl', final_indirect_block := put32 (final_indirect_block ?w) (4 * (k - 8)) (word_of_nat (unat ?b))\<rparr>"
  have p8: "i_blocks (w_ino w) ! 8 = ?p8" using ids(1,4) c(3) by (simp add: nth_append)
  have old_w: "write_old_indirect stk buf ?w = Inr ?w'"
    using rd(1) wr(1) ptr p8 c o(4) by (simp add: write_old_indirect_def wcount_def)
  have "set (take 8 ids) \<union> set (drop n ids) =
      set (take 8 (ids @ [unat ?b])) \<union> set (drop n (ids @ [unat ?b]))"
    using ids(1) c(3) k(2) by simp
  then have wr': "wrote bl0 s buf bl' (ids @ [unat ?b]) (set (take 8 (ids @ [unat ?b])) \<union> set (drop n (ids @ [unat ?b])))
      (M(unat ?b \<mapsto> ?x))"
    using wr(2) by simp
  have "reuse_inv bl0 ino0 n s buf (Suc k) (advance (?w'\<lparr>indirect_index := indirect_index ?w' + 1\<rparr>))"
    by (rule reuse_inv_next [OF c' _ _ _ c(3) ids(1) wr' ids(3) _ _ _ refl])
      (use ids(4) fin c(2) k nblk_less_iff [of k s] in simp_all)
  with old_w show ?thesis by blast
qed

lemma new_step:
  assumes inv: "reuse_inv bl0 ino0 n s buf k w" and old: "8 < n" and s: "s \<le> 69632"
    and k: "k < nblk s" "n \<le> k" and space: "8 + (nblk s - n) \<le> card (free_set bl0)"
  shows "\<exists>w'. write_new_indirect stk buf (w\<lparr>need_to_overwrite_indirect := True\<rparr>) = Inr w' \<and>
           reuse_inv bl0 ino0 n s buf (Suc k) (advance (w'\<lparr>indirect_index := indirect_index w' + 1\<rparr>))"
proof -
  obtain ids M where ids: "length ids = k"
      "wrote bl0 s buf (w_bl w) ids (set (take 8 ids) \<union> set (drop n ids)) M"
      "\<forall>j. 8 \<le> j \<longrightarrow> j < k \<longrightarrow> j < n \<longrightarrow> ids ! j = unat (file_block bl0 ino0 j)"
      "w_ino w = ino0\<lparr>i_blocks := map word_of_nat (take 8 ids) @ [i_blocks ino0 ! 8]\<rparr>"
    and fin: "\<forall>j<k - 8. get32 (final_indirect_block w) (4 * j) = word_of_nat (ids ! (8 + j))"
    and c: "wcount s k w" "indirect_index w = k - 8" "8 \<le> k"
    using inv by (auto simp: reuse_inv_def)
  let ?w = "w\<lparr>need_to_overwrite_indirect := True\<rparr>" and ?A = "set (take 8 ids) \<union> set (drop n ids)"
  have k': "k - 8 < 128" "512 * k < s" using k(1) s nblk_less_iff [of k s] by linarith+
  have "card ?A \<le> length (take 8 ids) + length (drop n ids)"
    using card_length le_trans [OF card_Un_le add_mono] by blast
  also have "\<dots> < card (free_set bl0)" using ids(1) k old space by auto
  finally have "card (free_set (w_bl w)) \<noteq> 0" using wrote_free(3) [OF ids(2)] by simp
  then have ne: "free_set (w_bl w) \<noteq> {}" by auto
  let ?x = "fill_buffer (stk (Indirect_buffer k)) buf ?w"
  have c': "wcount s k ?w" by (rule wcount_cong [OF c(1)]) simp_all
  have "holds_chunk s buf (length ids) ?x" using fill_buffer_holds [OF c'] ids(1) by simp
  then obtain b bla bl' where b: "alloc_block (stk Scratch) (w_bl w) = Inr (word_of_nat b, bla)"
      "bl_write_block bla (word_of_nat b) ?x = Inr bl'"
      "wrote bl0 s buf bl' (ids @ [b]) (insert b ?A) (M(b \<mapsto> ?x))"
    using wrote_new [OF ids(2) ne, of ?x "stk Scratch"] by metis
  let ?w' = "?w\<lparr>w_bl := bl', final_indirect_block := put32 (final_indirect_block ?w) (4 * (k - 8)) (word_of_nat b)\<rparr>"
  have new_w: "write_new_indirect stk buf ?w = Inr ?w'"
    using b(1,2) c k'(1) by (simp add: write_new_indirect_def wcount_def)
  have "insert b ?A = set (take 8 (ids @ [b])) \<union> set (drop n (ids @ [b]))"
    using ids(1) c(3) k(2) by auto
  then have wr': "wrote bl0 s buf bl' (ids @ [b]) (set (take 8 (ids @ [b])) \<union> set (drop n (ids @ [b]))) (M(b \<mapsto> ?x))"
    using b(3) by simp
  have "reuse_inv bl0 ino0 n s buf (Suc k) (advance (?w'\<lparr>indirect_index := indirect_index ?w' + 1\<rparr>))"
    by (rule reuse_inv_next [OF c' k'(2) _ _ c(3) ids(1) wr' ids(3) _ _ _ refl])
      (use ids(4) fin c(2) k(2) in simp_all)
  with new_w show ?thesis by blast
qed

lemma write_loop_reuse:
  assumes rw: "rewrite_ok old s" and ok: "bl_ok bl0" and ind: "old_indirect bl0 ino0 (nblk old)"
    and space: "8 + (nblk s - nblk old) \<le> card (free_set bl0)"
  shows "\<exists>w. write_loop stk buf (int s) (int old) (start_write stk bl0 ino0 (int s)) = Inr w \<and>
           reuse_inv bl0 ino0 (nblk old) s buf (nblk s) w \<and> need_to_overwrite_indirect w"
proof -
  let ?I = "\<lambda>k w. if k \<le> 8 then direct_inv stk bl0 ino0 s buf k w
    else reuse_inv bl0 ino0 (nblk old) s buf k w"
  note n = rewrite_blocks [OF rw]
  have s: "4608 \<le> s" "s \<le> 69632" "4096 < old" using rw by (auto simp: rewrite_ok_def)
  have len: "length (i_blocks ino0) = 9" using ind by (simp add: old_indirect_def)
  have "\<exists>w. write_loop stk buf (int s) (int old) (start_write stk bl0 ino0 (int s)) = Inr w \<and> ?I (nblk s) w"
  proof (rule write_loop_invariant [where I = ?I and k = 0])
    fix k w assume k: "k < nblk s" and inv: "?I k w"
    show "\<exists>w'. write_body stk buf (int s) (int old) w = Inr w' \<and> ?I (Suc k) w'"
    proof (cases "k < 8")
      case True
      with inv have "direct_inv stk bl0 ino0 s buf k w" by simp
      then show ?thesis using direct_inv_step [of stk bl0 ino0 s buf k w] True k len space by auto
    next
      case False
      have r: "reuse_inv bl0 ino0 (nblk old) s buf k w"
        using inv False reuse_inv_start [OF _ ind] by (cases "k = 8") auto
      then have c: "wcount s k w" by (simp add: reuse_inv_def)
      have dir: "\<not> num_bytes_already_written w < int (8 * BLOCK_SIZE)"
        using wcount_direct [OF c] False s(1) by simp
      note ch = rewrite_choice [OF rw c _ k]
      let ?w = "w\<lparr>need_to_overwrite_indirect := True\<rparr>"
      obtain w' where w': "(if k < nblk old then write_old_indirect stk buf ?w else write_new_indirect stk buf ?w) = Inr w'"
          "reuse_inv bl0 ino0 (nblk old) s buf (Suc k) (advance (w'\<lparr>indirect_index := indirect_index w' + 1\<rparr>))"
        using old_step [OF r ind k] new_step [OF r n(1) s(2) k _ space] by (cases "k < nblk old") force+
      then have "write_indirect stk buf (int s) (int old) w = Inr (w'\<lparr>indirect_index := indirect_index w' + 1\<rparr>)"
        using ch False s(3) by (auto simp: write_indirect_def Let_def split: if_splits)
      with dir w'(2) False show ?thesis by (simp add: write_body_def)
    qed
  next
    show "remaining_bytes_to_write w > 0 \<longleftrightarrow> k < nblk s" if "?I k w" for k w
      using that wcount_running by (auto simp: direct_inv_def reuse_inv_def split: if_splits)
  qed (simp_all add: direct_inv_start ok)
  with n(3) show ?thesis by (auto simp: reuse_inv_def)
qed

subsection \<open>After the loop\<close>

text \<open>
  The tail of the old pointers is released in steps of 512 bytes: \<open>nblk n\<close> blocks for \<open>n\<close> bytes.
\<close>

lemma nblk_step: "0 < n \<Longrightarrow> nblk n = Suc (nblk (n - 512))"
  using div_add_self2 [of 512 "n - 1"] by (cases "512 \<le> n") (auto simp: nblk_def)

lemma free_indirect_tail_spec:
  assumes "bl_ok bl" and "k + nblk n \<le> 128"
    and "\<And>j. k \<le> j \<Longrightarrow> j < k + nblk n \<Longrightarrow> unat (get32 ind (4 * j)) < 32768"
  shows "\<exists>bl'. free_indirect_tail stk bl ind k (int n) = Inr bl' \<and>
           released bl bl' ((\<lambda>j. unat (get32 ind (4 * j))) ` {k..<k + nblk n})"
  using assms
proof (induction "nblk n" arbitrary: bl k n)
  case 0
  then have "n = 0" using nblk_less_iff [of 0 n] by simp
  with 0 show ?case by (subst free_indirect_tail.simps) (simp add: released_refl nblk_def)
next
  case (Suc m)
  then have n: "0 < n" using nblk_less_iff [of 0 n] by simp
  note st = nblk_step [OF n]
  obtain bl1 where f: "free_block (stk Scratch) bl (get32 ind (4 * k)) = Inr bl1"
      "released bl bl1 {unat (get32 ind (4 * k))}"
    using free_block_released [OF Suc.prems(1)] Suc.prems(3) [of k] st by (metis le_refl less_add_same_cancel1 zero_less_Suc)
  have "\<exists>bl'. free_indirect_tail stk bl1 ind (k + 1) (int (n - 512)) = Inr bl' \<and>
      released bl1 bl' ((\<lambda>j. unat (get32 ind (4 * j))) ` {k + 1..<k + 1 + nblk (n - 512)})"
    using Suc.hyps(2) st Suc.prems(2,3) f(2) by (intro Suc.hyps(1)) (auto simp: released_def)
  then obtain bl' where r: "free_indirect_tail stk bl1 ind (k + 1) (int (n - 512)) = Inr bl'"
      "released bl1 bl' ((\<lambda>j. unat (get32 ind (4 * j))) ` {k + 1..<k + nblk n})"
    using st by auto
  have "free_indirect_tail stk bl1 ind (k + 1) (int n - 512) = Inr bl'"
    using r(1) by (cases "n \<le> 512") (auto simp: free_indirect_tail.simps of_nat_diff)
  then have "free_indirect_tail stk bl ind k (int n) = Inr bl'"
    using n f(1) Suc.prems(2) st by (subst free_indirect_tail.simps) simp
  moreover have "{k..<k + nblk n} = insert k {k + 1..<k + nblk n}" using st by auto
  ultimately show ?case using released_trans [OF f(2) r(2)] by simp
qed

text \<open>The data blocks number \<open>a\<close> to \<open>b - 1\<close> of a file.\<close>

definition file_span :: "block_layer \<Rightarrow> inode \<Rightarrow> nat \<Rightarrow> nat \<Rightarrow> nat set" where
  "file_span bl ino a b = (\<lambda>j. unat (file_block bl ino j)) ` {a..<b}"

lemma finish_tail:
  assumes rw: "rewrite_ok old s" and ind: "old_indirect bl0 ino0 (nblk old)"
    and w: "bl_ok bl" "contents bl (unat (i_blocks ino0 ! 8)) = contents bl0 (unat (i_blocks ino0 ! 8))"
  shows "\<exists>bl1. (if int s < int old
      then rbind (bl_read_block bl (i_blocks ino0 ! 8) junk) (\<lambda>ind.
             free_indirect_tail stk bl ind (nblk s - 8) (int old - int s))
      else Inr bl) = Inr bl1 \<and> released bl bl1 (file_span bl0 ino0 (nblk s) (nblk old))"
proof (cases "s < old")
  case False
  then have "nblk old \<le> nblk s" by (simp add: nblk_def div_le_mono)
  with False w(1) show ?thesis by (simp add: file_span_def released_refl)
next
  case True
  let ?p8 = "i_blocks ino0 ! 8"
  note n = rewrite_blocks [OF rw]
  have cnt: "8 + (nblk s - 8 + nblk (old - s)) = nblk old"
    using shrink_count [OF rw True] n(3) n(5) [OF True] by simp
  have o: "unat ?p8 < 32768" "\<And>j. 8 \<le> j \<Longrightarrow> j < nblk old \<Longrightarrow> unat (file_block bl0 ino0 j) < 32768"
    using ind by (auto simp: old_indirect_def data_blocks_def)
  obtain ib where rd: "bl_read_block bl ?p8 junk = Inr ib"
      "\<And>i. i < 512 \<Longrightarrow> ib i = contents bl0 (unat ?p8) i"
    using read_array_byte [OF o(1), of bl junk] w(2) by auto
  have ptr: "get32 ib (4 * j) = file_block bl0 ino0 (8 + j)" if "j < 128" for j
    using rd(2) that by (auto simp: file_block_def intro!: get32_cong)
  have "\<exists>bl1. free_indirect_tail stk bl ib (nblk s - 8) (int (old - s)) = Inr bl1 \<and>
      released bl bl1 ((\<lambda>j. unat (get32 ib (4 * j))) ` {nblk s - 8..<nblk s - 8 + nblk (old - s)})"
    using cnt n(2) o(2) ptr by (intro free_indirect_tail_spec w(1)) auto
  moreover have "(\<lambda>j. unat (get32 ib (4 * j))) ` {nblk s - 8..<nblk s - 8 + nblk (old - s)} =
      file_span bl0 ino0 (nblk s) (nblk old)"
  proof -
    have e: "{nblk s..<nblk old} = (+) 8 ` {nblk s - 8..<nblk s - 8 + nblk (old - s)}"
      using cnt n(3) unfolding image_add_atLeastLessThan by simp
    show ?thesis
      unfolding file_span_def e image_image by (rule image_cong) (use ptr cnt n(2) in auto)
  qed
  ultimately show ?thesis using True rd(1) by (auto simp: of_nat_diff)
qed

text \<open>
  What the whole operation leaves, before the inode is stored: the blocks \<open>ids\<close> in the order of
  the file, their bytes, the pointers that lead to them and the blocks that are free.
\<close>

definition rewrote ::
    "block_layer \<Rightarrow> inode \<Rightarrow> nat \<Rightarrow> nat \<Rightarrow> buf \<Rightarrow> nat list \<Rightarrow> block_layer \<Rightarrow> inode \<Rightarrow> bool" where
  "rewrote bl0 ino0 n s buf ids bl ino \<longleftrightarrow>
     ino = ino0\<lparr>i_blocks := map word_of_nat (take 8 ids) @ [i_blocks ino0 ! 8],
                i_size := word_of_int (int s)\<rparr> \<and>
     bl_ok bl \<and> length ids = nblk s \<and> distinct ids \<and> set ids \<subseteq> data_blocks \<and>
     unat (i_blocks ino0 ! 8) \<notin> set ids \<and>
     set (take 8 ids) \<union> set (drop n ids) \<subseteq> free_set bl0 \<and>
     (\<forall>j. 8 \<le> j \<longrightarrow> j < nblk s \<longrightarrow> j < n \<longrightarrow> ids ! j = unat (file_block bl0 ino0 j)) \<and>
     free_set bl = free_set bl0 - (set (take 8 ids) \<union> set (drop n ids)) \<union> file_span bl0 ino0 (nblk s) n \<and>
     (\<forall>k<nblk s. file_block bl ino k = word_of_nat (ids ! k)) \<and>
     (\<forall>k<nblk s. \<forall>i<512. 512 * k + i < s \<longrightarrow> contents bl (ids ! k) i = buf (512 * k + i)) \<and>
     (\<forall>b. b \<notin> set ids \<longrightarrow> b \<noteq> unat (i_blocks ino0 ! 8) \<longrightarrow> b \<notin> bitmap_blocks \<longrightarrow>
        contents bl b = contents bl0 b)"

lemma finish_reuse:
  assumes rw: "rewrite_ok old s" and ind: "old_indirect bl0 ino0 (nblk old)"
    and inv: "reuse_inv bl0 ino0 (nblk old) s buf (nblk s) w" and need: "need_to_overwrite_indirect w"
  shows "\<exists>bl ids ino. finish_write stk (int s) (int old) w = Inr (bl, ino) \<and>
           rewrote bl0 ino0 (nblk old) s buf ids bl ino"
proof -
  let ?n = "nblk old" and ?p8 = "i_blocks ino0 ! 8"
  obtain ids M where ids: "length ids = nblk s"
      "wrote bl0 s buf (w_bl w) ids (set (take 8 ids) \<union> set (drop ?n ids)) M"
      "\<forall>j. 8 \<le> j \<longrightarrow> j < nblk s \<longrightarrow> j < ?n \<longrightarrow> ids ! j = unat (file_block bl0 ino0 j)"
      "w_ino w = ino0\<lparr>i_blocks := map word_of_nat (take 8 ids) @ [?p8]\<rparr>"
    and fin: "\<forall>j<nblk s - 8. get32 (final_indirect_block w) (4 * j) = word_of_nat (ids ! (8 + j))"
    and ix: "indirect_index w = nblk s - 8"
    using inv by (auto simp: reuse_inv_def)
  let ?ino = "ino0\<lparr>i_blocks := map word_of_nat (take 8 ids) @ [?p8], i_size := word_of_int (int s)\<rparr>"
  let ?T = "file_span bl0 ino0 (nblk s) ?n"
  note n = rewrite_blocks [OF rw]
  have p8: "unat ?p8 \<in> data_blocks" "unat ?p8 < 32768" "unat ?p8 \<notin> bitmap_blocks" and T: "?T \<subseteq> data_blocks"
    using ind data_not_bitmap n(3) by (auto simp: old_indirect_def data_blocks_def file_span_def)
  have ap: "unat ?p8 \<notin> set ids" using reuse_apart(1) [OF ind ids(2)] ids(1,3) by auto
  have ok: "bl_ok (w_bl w)" "distinct ids" "set ids \<subseteq> data_blocks" using ids(2) by (auto simp: wrote_def)
  have b8: "i_blocks ?ino ! 8 = ?p8" "i_blocks (w_ino w) ! 8 = ?p8"
    using ids(1,4) n(3) by (simp_all add: nth_append)
  obtain bl1 where t: "(if int s < int old
      then rbind (bl_read_block (w_bl w) ?p8 (stk Indirect_block_free)) (\<lambda>ind.
             free_indirect_tail stk (w_bl w) ind (nblk s - 8) (int old - int s))
      else Inr (w_bl w)) = Inr bl1" "released (w_bl w) bl1 ?T"
    using finish_tail [OF rw ind ok(1) wrote_frame [OF ids(2) ap p8(3)]] by blast
  have ok1: "bl_ok bl1" "free_set bl1 = free_set (w_bl w) \<union> ?T"
    "\<And>j. j \<notin> bitmap_blocks \<Longrightarrow> contents bl1 j = contents (w_bl w) j"
    using t(2) T by (auto simp: released_def)
  obtain bl where wr: "bl_write_block bl1 ?p8 (final_indirect_block w) = Inr bl"
    and ok2: "bl_ok bl" "free_set bl = free_set bl1"
    and new: "eq_upto 512 (contents bl (unat ?p8)) (final_indirect_block w)"
    and frame: "\<And>j. j \<noteq> unat ?p8 \<Longrightarrow> contents bl j = contents bl1 j"
    using data_write [OF ok1(1) p8(1)] by blast
  have big: "4608 \<le> s" using rw by (simp add: rewrite_ok_def)
  have run: "finish_write stk (int s) (int old) w = Inr (bl, ?ino)"
    using need t(1) wr ids(4) b8 ix big by (simp add: finish_write_def split: if_splits)
  have data: "contents bl j = contents (w_bl w) j" if "j \<notin> bitmap_blocks" "j \<noteq> unat ?p8" for j
    using frame ok1(3) that by simp
  have blk: "file_block bl ?ino k = word_of_nat (ids ! k)" if "k < nblk s" for k
    using that n(3,4) fin ids(1) new by (intro final_pointers [where p = ?p8]) auto
  have byte: "contents bl (ids ! k) i = buf (512 * k + i)" if "k < nblk s" "i < 512" "512 * k + i < s" for k i
  proof -
    have "ids ! k \<in> set ids" using that(1) ids(1) by simp
    then have "ids ! k \<noteq> unat ?p8" "ids ! k \<notin> bitmap_blocks" using ap ok(3) data_not_bitmap by auto
    with data wrote_byte [OF ids(2)] that ids(1) show ?thesis by simp
  qed
  have "rewrote bl0 ino0 ?n s buf ids bl ?ino"
    unfolding rewrote_def using ok2 ok1(2) ids(1,3) ok(2,3) ap wrote_free(1,2) [OF ids(2)] blk byte data
      wrote_frame [OF ids(2)] by simp
  with run show ?thesis by blast
qed

subsection \<open>The blocks of a file with an indirect block\<close>

lemma span_append: "a \<le> b \<Longrightarrow> b \<le> c \<Longrightarrow> file_span bl ino a c = file_span bl ino a b \<union> file_span bl ino b c"
  by (simp add: file_span_def ivl_disj_un_two(3) flip: image_Un)

lemma span_apart:
  assumes "inj_on (\<lambda>j. unat (file_block bl ino j)) {..<n}" and "b \<le> c" and "d \<le> n"
  shows "file_span bl ino a b \<inter> file_span bl ino c d = {}"
proof (cases "b \<le> n")
  case True
  have "(\<lambda>j. unat (file_block bl ino j)) ` ({a..<b} \<inter> {c..<d}) = file_span bl ino a b \<inter> file_span bl ino c d"
    unfolding file_span_def using True assms(3) by (intro inj_on_image_Int [OF assms(1)]) auto
  with assms(2) show ?thesis by simp
qed (use assms(2,3) in \<open>simp add: file_span_def\<close>)

lemma file_ok_indirect:
  assumes "file_ok bl ino" and "file_size ino > 4096" and n: "n = nblk (file_size ino)"
  shows "inj_on (\<lambda>j. unat (file_block bl ino j)) {..<n}"
    and "unat (i_blocks ino ! 8) \<notin> file_span bl ino 0 n"
    and "owned bl ino = insert (unat (i_blocks ino ! 8)) (file_span bl ino 0 n)"
    and "direct_blocks ino = file_span bl ino 0 8" and "8 < n" and "n \<le> 136"
proof -
  let ?f = "\<lambda>j. unat (file_block bl ino j)" and ?p8 = "unat (i_blocks ino ! 8)"
  have rd: "readable bl ino" and len: "length (i_blocks ino) = 9"
    using assms(1) by (auto simp: file_ok_def readable_def inode_ok_def)
  show n8: "8 < n" using assms(2) n by (simp add: nblk_less_iff)
  show "n \<le> 136" using rd n nblk_le [of _ 136] by (simp add: readable_def)
  show own: "owned bl ino = insert ?p8 (file_span bl ino 0 n)"
    using assms(2) n by (simp add: owned_def file_span_def lessThan_atLeast0)
  have "card (owned bl ino) = Suc n" using assms by (simp add: file_ok_def blocks_needed_def)
  moreover have le: "card (?f ` {..<n}) \<le> n" using card_image_le [of "{..<n}" ?f] by simp
  moreover have sp: "file_span bl ino 0 n = ?f ` {..<n}" by (simp add: file_span_def lessThan_atLeast0)
  ultimately have c: "card (insert ?p8 (?f ` {..<n})) = Suc n" using own by simp
  then show p8: "?p8 \<notin> file_span bl ino 0 n" using le sp by (auto simp: insert_absorb)
  with c sp have "card (?f ` {..<n}) = card {..<n}" by simp
  then show "inj_on ?f {..<n}" by (simp add: eq_card_imp_inj_on)
  have "?f k \<in> data_blocks" if "k < 8" for k using rd that n8 n by (simp add: readable_def)
  moreover have "unat ` set (take 8 (i_blocks ino)) = ?f ` {0..<8}"
    using len by (auto simp: nth_image [symmetric] image_image file_block_def)
  ultimately show "direct_blocks ino = file_span bl ino 0 8"
    by (auto simp: direct_blocks_def file_span_def)
qed

text \<open>The same file once its direct blocks are free.\<close>

lemma old_indirectI:
  assumes fok: "file_ok bl ino" and sz: "file_size ino > 4096" and n: "n = nblk (file_size ino)"
    and used: "owned bl ino \<inter> free_set bl = {}" and free: "free_set bl0 = free_set bl \<union> direct_blocks ino"
    and same: "\<forall>j. j \<notin> bitmap_blocks \<longrightarrow> contents bl0 j = contents bl j"
  shows "old_indirect bl0 ino n" and "file_block bl0 ino = file_block bl ino"
proof -
  note ind = file_ok_indirect [OF fok sz n]
  have rd: "readable bl ino" and len: "length (i_blocks ino) = 9"
    using fok by (auto simp: file_ok_def readable_def inode_ok_def)
  let ?f = "\<lambda>j. unat (file_block bl ino j)" and ?p8 = "unat (i_blocks ino ! 8)"
  have p8: "?p8 \<in> data_blocks" using rd sz by (simp add: readable_def)
  with same data_not_bitmap show eq: "file_block bl0 ino = file_block bl ino"
    by (intro ext) (simp add: file_block_def)
  have sub: "file_span bl ino 0 8 \<subseteq> file_span bl ino 0 n" using ind(5) by (auto simp: file_span_def)
  then have "?p8 \<notin> free_set bl0" using ind(2,3,4) used free by blast
  moreover have "?f j \<in> data_blocks \<and> ?f j \<notin> free_set bl0 \<and> ?f j \<noteq> ?p8" if j: "8 \<le> j" "j < n" for j
  proof -
    have mem: "?f j \<in> file_span bl ino 8 n" using j by (simp add: file_span_def)
    then have own: "?f j \<in> file_span bl ino 0 n" using span_append [of 0 8 n] ind(5) by auto
    have "?f j \<notin> file_span bl ino 0 8" using mem span_apart [OF ind(1), of 8 8 n] by blast
    with own used ind(2-4) free j(2) rd n show ?thesis by (auto simp: readable_def)
  qed
  moreover have "inj_on ?f {8..<n}" using ind(1) by (rule inj_on_subset) auto
  ultimately show "old_indirect bl0 ino n"
    unfolding old_indirect_def eq using ind(5,6) len p8 by blast
qed

subsection \<open>Refinement\<close>

lemma set_take_drop: "set (take m xs) \<union> set (drop m xs) = set xs"
  by (metis append_take_drop_id set_append)

lemma ids_split:
  assumes "\<forall>j. 8 \<le> j \<longrightarrow> j < length ids \<longrightarrow> j < n \<longrightarrow> ids ! j = unat (file_block bl ino j)" and "8 \<le> n"
  shows "set ids = set (take 8 ids) \<union> file_span bl ino 8 (min n (length ids)) \<union> set (drop n ids)"
proof -
  have "set ids = set (take 8 ids) \<union> set (take (n - 8) (drop 8 ids)) \<union> set (drop n ids)"
    using set_take_drop [of 8 ids] set_take_drop [of "n - 8" "drop 8 ids"] assms(2) by auto
  moreover have "set (take (n - 8) (drop 8 ids)) = file_span bl ino 8 (min n (length ids))"
  proof -
    have "take (n - 8) (drop 8 ids) = map ((!) ids) [8..<min n (length ids)]"
      using assms(2) by (intro nth_equalityI) (auto simp: less_diff_conv add.commute)
    also have "\<dots> = map (\<lambda>j. unat (file_block bl ino j)) [8..<min n (length ids)]"
      using assms(1) by (intro map_cong) auto
    finally show ?thesis by (simp add: file_span_def)
  qed
  ultimately show ?thesis by simp
qed

text \<open>The free blocks are the old free blocks and the old file's blocks, less the new file's.\<close>

lemma rewrote_free:
  assumes rw: "rewrote bl0 ino n s buf ids bl1 ino'" and fok: "file_ok bl ino" and sz: "file_size ino > 4096"
    and n: "n = nblk (file_size ino)" and used: "owned bl ino \<inter> free_set bl = {}"
    and free: "free_set bl0 = free_set bl \<union> direct_blocks ino" and eq: "file_block bl0 ino = file_block bl ino"
    and m: "8 < nblk s"
  shows "insert (unat (i_blocks ino ! 8)) (set ids) \<subseteq> free_set bl \<union> owned bl ino"
    and "free_set bl1 = free_set bl \<union> owned bl ino - insert (unat (i_blocks ino ! 8)) (set ids)"
proof -
  note ind = file_ok_indirect [OF fok sz n]
  let ?A = "set (take 8 ids) \<union> set (drop n ids)" and ?m = "nblk s" and ?S = "file_span bl ino"
  have r: "length ids = ?m" "?A \<subseteq> free_set bl \<union> ?S 0 8" "unat (i_blocks ino ! 8) \<notin> set ids"
    "\<forall>j. 8 \<le> j \<longrightarrow> j < length ids \<longrightarrow> j < n \<longrightarrow> ids ! j = unat (file_block bl ino j)"
    "free_set bl1 = free_set bl \<union> ?S 0 8 - ?A \<union> ?S ?m n"
    using rw free ind(4) eq by (auto simp: rewrote_def file_span_def)
  have ids: "set ids = ?A \<union> ?S 8 (min n ?m)" using ids_split [OF r(4)] ind(5) r(1) by auto
  have sp: "?S 0 n = ?S 0 8 \<union> ?S 8 n" using span_append [of 0 8 n] ind(5) by simp
  have mid: "?S 8 n = ?S 8 (min n ?m) \<union> ?S ?m n"
    using span_append [of 8 ?m n] m ind(5) by (cases "?m \<le> n") (auto simp: file_span_def)
  have "?S 8 n \<inter> ?S 0 8 = {}" "?S 8 (min n ?m) \<inter> ?S ?m n = {}"
    using span_apart [OF ind(1), of 8 8 n 0] span_apart [OF ind(1), of "min n ?m" ?m n 8] by auto
  moreover have "?S 8 n \<inter> free_set bl = {}" "unat (i_blocks ino ! 8) \<notin> free_set bl"
    using used sp ind(3) by auto
  moreover note ind(2,3) r(2,3,5) ids sp mid
  ultimately show "insert (unat (i_blocks ino ! 8)) (set ids) \<subseteq> free_set bl \<union> owned bl ino"
    and "free_set bl1 = free_set bl \<union> owned bl ino - insert (unat (i_blocks ino ! 8)) (set ids)"
    by auto
qed

lemma rewrote_written:
  assumes "rewrote bl0 ino0 n s buf ids bl ino" and "s \<le> 69632" and "8 < nblk s"
    and "unat (i_blocks ino0 ! 8) \<in> data_blocks"
  shows "written bl s buf bl ino" and "i_blocks ino ! 8 = i_blocks ino0 ! 8"
proof -
  have r: "ino = ino0\<lparr>i_blocks := map word_of_nat (take 8 ids) @ [i_blocks ino0 ! 8],
                i_size := word_of_int (int s)\<rparr>" "length ids = nblk s" "set ids \<subseteq> data_blocks"
    using assms(1) by (auto simp: rewrote_def)
  then show p8: "i_blocks ino ! 8 = i_blocks ino0 ! 8" using assms(3) by (simp add: nth_append)
  have "inode_ok ino" "file_size ino = s"
    using r assms(2,3) file_size_set [of s] by (simp_all add: inode_ok_def)
  moreover have "ids ! k \<in> data_blocks" if "k < nblk s" for k using that r(2,3) by auto
  moreover have "unat (i_blocks ino ! 8) \<noteq> 32768" using assms(4) p8 by (auto simp: data_blocks_def)
  ultimately show "written bl s buf bl ino"
    by (intro writtenI [where ids = ids]) (use assms p8 in \<open>auto simp: rewrote_def\<close>)
qed

lemma rewrite_run:
  assumes inv: "fs_inv bl" and use: "in_use bl (unat inum)" and ino: "ino = inode_at bl (unat inum)"
    and rw: "rewrite_ok (file_size ino) s" and n: "n = nblk (file_size ino)"
    and space: "nblk s - n \<le> card (free_set bl)"
  obtains bl0 ids bl1 ino' where
    "write_inode stk bl inum ino buf (int s) = put_inode stk bl1 inum (Some ino')"
    and "rewrote bl0 ino n s buf ids bl1 ino'" and "free_set bl0 = free_set bl \<union> direct_blocks ino"
    and "file_block bl0 ino = file_block bl ino"
    and "\<forall>j. j \<notin> bitmap_blocks \<longrightarrow> contents bl0 j = contents bl j"
proof -
  have i: "unat inum < 1024" using use by (simp add: in_use_def)
  have ok: "bl_ok bl" and fok: "file_ok bl ino" using inv use ino by (auto simp: fs_inv_def)
  have sz: "file_size ino > 4096" "file_size ino \<le> 69632" using rw by (auto simp: rewrite_ok_def)
  note ind = file_ok_indirect [OF fok sz(1) n]
  have own: "owned bl ino \<inter> free_set bl = {}"
    using owned_not_free [OF inv i] use ino by (simp add: owned_at_def)
  have ptrs: "pointers_ok ino" using fok by (simp add: file_ok_def)
  then have "\<And>b. b \<in> set (take 8 (i_blocks ino)) \<Longrightarrow> unat b < 32768"
    by (auto simp: pointers_ok_def dest: in_set_takeD)
  with free_direct_blocks_spec [OF ok, of "take 8 (i_blocks ino)" stk]
  obtain bl0 where f: "free_direct_blocks stk bl (take 8 (i_blocks ino)) = Inr bl0" "bl_ok bl0"
      "free_set bl0 = free_set bl \<union> direct_blocks ino"
      "\<forall>j. j \<notin> bitmap_blocks \<longrightarrow> contents bl0 j = contents bl j"
    by (auto simp: direct_blocks_def)
  note old = old_indirectI [OF fok sz(1) n own f(3,4)]
  have "file_span bl ino 0 8 \<subseteq> owned bl ino" using ind(3,5) span_append [of 0 8 n] by auto
  then have "free_set bl \<inter> direct_blocks ino = {}" using own ind(4) by blast
  moreover have "inj_on (\<lambda>j. unat (file_block bl ino j)) {0..<8}"
    using ind(1) by (rule inj_on_subset) (use ind(5) in auto)
  then have "card (direct_blocks ino) = 8" using ind(4) by (simp add: file_span_def card_image)
  moreover have "finite (direct_blocks ino)" by (simp add: direct_blocks_def)
  ultimately have "8 + (nblk s - n) \<le> card (free_set bl0)" using space f(3) by (simp add: card_Un_disjoint)
  then obtain w where w: "write_loop stk buf (int s) (int (file_size ino)) (start_write stk bl0 ino (int s)) = Inr w"
      "reuse_inv bl0 ino n s buf (nblk s) w" "need_to_overwrite_indirect w"
    using write_loop_reuse [OF rw f(2)] old(1) n by blast
  obtain bl1 ids ino' where fin: "finish_write stk (int s) (int (file_size ino)) w = Inr (bl1, ino')"
      "rewrote bl0 ino n s buf ids bl1 ino'"
    using finish_reuse [OF rw] old(1) w(2,3) n by blast
  have "write_inode stk bl inum ino buf (int s) = put_inode stk bl1 inum (Some ino')"
    using f(1) w(1) fin(1) file_size_sint [OF sz(2)] by (simp add: write_inode_def)
  with that fin(2) f(3,4) old(2) show thesis by blast
qed

lemma rewrite_refines:
  assumes inv: "fs_inv bl" and use: "in_use bl (unat inum)" and ino: "ino = inode_at bl (unat inum)"
    and rw: "rewrite_ok (file_size ino) s"
    and space: "nblk s - nblk (file_size ino) \<le> card (free_set bl)"
  shows "\<exists>bl'. write_inode stk bl inum ino buf (int s) = Inr bl' \<and> fs_inv bl' \<and>
           abs_fs bl' = (abs_fs bl)(unat inum \<mapsto> (i_type ino, map buf [0..<s]))"
proof -
  let ?i = "unat inum" and ?n = "nblk (file_size ino)" and ?p8 = "unat (i_blocks ino ! 8)"
  have i: "?i < 1024" using use by (simp add: in_use_def)
  have fok: "file_ok bl ino" using inv use ino by (auto simp: fs_inv_def)
  have sz: "file_size ino > 4096" "s \<le> 69632" "s > 4096" using rw by (auto simp: rewrite_ok_def)
  have p8: "?p8 \<in> data_blocks" using fok sz(1) by (simp add: file_ok_def readable_def)
  have at: "owned_at bl ?i = owned bl ino" using use ino by (simp add: owned_at_def)
  have own: "owned bl ino \<inter> free_set bl = {}" using owned_not_free [OF inv i] at by simp
  note m = rewrite_blocks(3) [OF rw]
  obtain bl0 ids bl1 ino' where
      run: "write_inode stk bl inum ino buf (int s) = put_inode stk bl1 inum (Some ino')"
    and wr: "rewrote bl0 ino ?n s buf ids bl1 ino'" and f: "free_set bl0 = free_set bl \<union> direct_blocks ino"
      "file_block bl0 ino = file_block bl ino" "\<forall>j. j \<notin> bitmap_blocks \<longrightarrow> contents bl0 j = contents bl j"
    by (rule rewrite_run [OF inv use ino rw refl space, of stk buf]) (rule that)
  note free = rewrote_free [OF wr fok sz(1) refl own f(1,2) m]
  note wt = rewrote_written [OF wr sz(2) m p8]
  obtain bl' where p: "put_inode stk bl1 inum (Some ino') = Inr bl'" "bl_ok bl'"
      "inode_at bl' ?i = ino'" "readable bl' ino'" "file_size ino' = s"
      "\<And>k. k < s \<Longrightarrow> file_data bl' ino' k = buf k"
      "\<And>j. j < 1024 \<Longrightarrow> j \<noteq> ?i \<Longrightarrow> inode_at bl' j = inode_at bl1 j"
      "\<And>b. b \<in> data_blocks \<Longrightarrow> b \<notin> free_set bl1 \<Longrightarrow> contents bl' b = contents bl1 b"
      "free_set bl' = free_set bl1"
      "\<And>k. k < nblk s \<Longrightarrow> file_block bl' ino' k = file_block bl1 ino' k"
    by (rule store_written [OF wt(1) i, of bl1 stk]) (simp, rule that)
  have ids: "length ids = nblk s" "distinct ids" "set ids \<subseteq> data_blocks" "?p8 \<notin> set ids"
      "\<forall>k<nblk s. file_block bl1 ino' k = word_of_nat (ids ! k)"
      "\<And>b. b \<notin> set ids \<Longrightarrow> b \<noteq> ?p8 \<Longrightarrow> b \<notin> bitmap_blocks \<Longrightarrow> contents bl1 b = contents bl b"
      "i_type ino' = i_type ino" "i_blocks ino' = map word_of_nat (take 8 ids) @ [i_blocks ino ! 8]"
    using wr f(3) by (auto simp: rewrote_def)
  have own': "owned bl' ino' = insert ?p8 (set ids)" "card (owned bl' ino') = blocks_needed s"
    using owned_list [OF p(5) _ ids(1,2,3), of bl'] p(10) ids(4,5) wt(2) sz(3) by auto
  have "pointers_ok ino'"
    using p(4) ids(3,8) p8 by (auto simp: pointers_ok_def readable_def data_blocks_def dest!: in_set_takeD)
  then have fok': "file_ok bl' ino'" using p(4,5) own'(2) m by (auto simp: file_ok_def)
  have use': "in_use bl' ?i" using use p(3) ids(7) ino by (simp add: in_use_def)
  then have at': "owned_at bl' ?i = insert ?p8 (set ids)" using p(3) own'(1) by (simp add: owned_at_def)
  have "inode_at bl1 j = inode_at bl j" if "j < 1024" for j
    using that ids(3,6) p8 inode_blocks_apart by (intro inode_at_cong) blast
  then have others: "inode_at bl' j = inode_at bl j" if "j < 1024" "j \<noteq> ?i" for j using p(7) that by simp
  have frame: "contents bl' b = contents bl b"
    if b: "b \<in> data_blocks" "b \<notin> free_set bl" "b \<notin> owned_at bl ?i" for b
  proof -
    have "b \<notin> insert ?p8 (set ids)" "b \<notin> free_set bl1" using b(2,3) free at by auto
    then show ?thesis using p(8) [OF b(1)] ids(6) [of b] data_not_bitmap [OF b(1)] by simp
  qed
  have "fs_inv bl'" "abs_fs bl' = (abs_fs bl)(?i := abs_fs bl' ?i)"
    using fs_inv_update [OF inv i p(2) others frame, unfolded at at' p(3,9), OF _ _ _ _ _ fok' free] by auto
  moreover have "abs_fs bl' ?i = Some (i_type ino, map buf [0..<s])"
    using use' p(3,5,6) ids(7) by (simp add: abs_fs_def file_bytes_def)
  ultimately show ?thesis using run p(1) by auto
qed

end
