(* ===== verification/Fs_Runs.thy ===== *)
theory Fs_Runs
  imports File_Rewrite
begin

text \<open>
  Sequences of client calls. \<open>exec\<close> performs one call on the whole stack, from the client stub
  down to the disk; \<open>exec_all\<close> a sequence of them, each with its own thread, clock and
  uninitialised memory. Clean sequences behave as the abstract table.
\<close>

subsection \<open>One call and a sequence of calls\<close>

record call_env =
  e_stk :: stack
  e_tid :: tid
  e_now :: u64
  e_times :: "u64 \<times> u64 \<times> u64"

fun exec :: "call_env \<Rightarrow> fs_client \<Rightarrow> fs_call \<Rightarrow> fault + (xxstatus \<times> fs_reply \<times> fs_client)" where
  "exec e c (Create ty) =
     rbind (client_create (e_stk e) (e_times e) c ty) (\<lambda>(st, fid, c). Inr (st, R_id (unat fid), c))"
| "exec e c (Put fid s) =
     rbind (client_put (e_stk e) (e_tid e) c fid s) (\<lambda>(st, c). Inr (st, R_ok, c))"
| "exec e c (Get fid) =
     rbind (client_get (e_stk e) (e_tid e) (e_now e) c fid) (\<lambda>(st, s, c). Inr (st, R_data s, c))"
| "exec e c (Getattr fid) =
     rbind (client_getattr (e_stk e) c fid) (\<lambda>(st, a). Inr (st, R_attr (a_type a) (unat (a_size a)), c))"
| "exec e c (Remove fid) =
     rbind (client_remove (e_stk e) c fid) (\<lambda>(st, c). Inr (st, R_ok, c))"

text \<open>A sequence of calls, with the environment of each; the first fault ends it.\<close>

fun run_calls ::
    "('e \<Rightarrow> 'c \<Rightarrow> 'op \<Rightarrow> fault + (xxstatus \<times> 'r \<times> 'c)) \<Rightarrow> 'c \<Rightarrow> ('e \<times> 'op) list \<Rightarrow> fault + ('r list \<times> 'c)" where
  "run_calls step c [] = Inr ([], c)"
| "run_calls step c ((e, op) # ops) =
     rbind (step e c op) (\<lambda>(_, r, c). rbind (run_calls step c ops) (\<lambda>(rs, c). Inr (r # rs, c)))"

definition exec_all :: "fs_client \<Rightarrow> (call_env \<times> fs_call) list \<Rightarrow> fault + (fs_reply list \<times> fs_client)" where
  "exec_all = run_calls exec"

fun a_steps :: "afs \<Rightarrow> fs_call list \<Rightarrow> fs_reply list \<times> afs" where
  "a_steps a [] = ([], a)"
| "a_steps a (op # ops) =
     (let (r, a1) = a_step a op; (rs, a2) = a_steps a1 ops in (r # rs, a2))"

fun clean_all :: "afs \<Rightarrow> fs_call list \<Rightarrow> bool" where
  "clean_all a [] \<longleftrightarrow> True"
| "clean_all a (op # ops) \<longleftrightarrow> clean a op \<and> clean_all (snd (a_step a op)) ops"

subsection \<open>The invariant of the client\<close>

abbreviation client_bl :: "fs_client \<Rightarrow> block_layer" where
  "client_bl c \<equiv> il_bm (im (es c))"

text \<open>Free locks, of which no one has served more than \<open>n\<close> readers.\<close>

definition locks_ok :: "nat \<Rightarrow> (nat \<Rightarrow> a4_rwlock) \<Rightarrow> bool" where
  "locks_ok n ls \<longleftrightarrow> (\<forall>i<1024. waitingWriters (ls i) = 0 \<and> activeWriters (ls i) = 0 \<and>
     activeReaders (ls i) = 0 \<and> rw_mutex (ls i) = None \<and>
     - int n \<le> waitingReaders (ls i) \<and> waitingReaders (ls i) \<le> 0)"

definition client_inv :: "nat \<Rightarrow> fs_client \<Rightarrow> bool" where
  "client_inv n c \<longleftrightarrow> fs_inv (client_bl c) \<and> locks_ok n (il_rwlocks (im (es c)))"

lemma client_inv_il:
  assumes "client_inv n c" and "n < 2 ^ 31"
  shows "il_ok (im (es c))"
  using assms by (auto simp: client_inv_def locks_ok_def il_ok_def rw_idle_def fs_inv_def)

lemma locks_ok_mono: "locks_ok n ls \<Longrightarrow> locks_ok (Suc n) ls"
  unfolding locks_ok_def by fastforce

lemma locks_ok_read: "locks_ok n ls \<Longrightarrow> locks_ok (Suc n) (after_read ls i)"
  unfolding locks_ok_def after_read_def by fastforce

lemma c_str_bytes [simp]: "map (c_str s) [0..<length s] = s"
  by (rule nth_equalityI) (simp_all add: c_str_def)

lemma int_size_small: "length s < 2 ^ 31 \<Longrightarrow> int_size s = int (length s)"
  by (simp add: int_size_def sint_small)

subsection \<open>One call\<close>

lemma exec_create:
  assumes "client_inv n c" and "clean (abs_fs (client_bl c)) (Create ty)"
  shows "\<exists>c'. exec e c (Create ty) = Inr (OK, fst (a_step (abs_fs (client_bl c)) (Create ty)), c') \<and>
    client_inv (Suc n) c' \<and> abs_fs (client_bl c') = snd (a_step (abs_fs (client_bl c)) (Create ty))"
proof -
  let ?m = "a_free (abs_fs (client_bl c))"
  have "fs_inv (client_bl c)" using assms(1) by (simp add: client_inv_def)
  then obtain bl' where "alloc_inode (e_stk e) (e_times e) (client_bl c) ty = Inr (word_of_nat ?m, bl')"
      "fs_inv bl'" "abs_fs bl' = (abs_fs (client_bl c))(?m \<mapsto> (ucast ty, []))"
    using create_refines [of "client_bl c" ty "e_stk e" "e_times e"] assms(2) by auto
  moreover have "?m < 1024" using a_free_least(1) assms(2) by simp
  ultimately show ?thesis
    using assms(1) locks_ok_mono
    by (simp add: client_create_def server_create_def client_inv_def unsigned_ucast_eq take_bit_nat_eq_self_iff)
qed

lemma abs_fs_Some:
  assumes "abs_fs bl i = Some (ty, s)"
  shows "in_use bl i" and "ty = i_type (inode_at bl i)" and "s = file_bytes bl (inode_at bl i)"
    and "length s = file_size (inode_at bl i)"
  using assms by (auto simp: abs_fs_def file_bytes_def split: if_splits)

lemma a_blocks_split:
  assumes "i < 1024"
  shows "a_blocks (a(i \<mapsto> (ty, s))) = a_blocks (a(i := None)) + blocks_needed (length s)"
proof -
  let ?f = "\<lambda>a :: afs. \<lambda>j. case a j of None \<Rightarrow> 0 | Some (_, s) \<Rightarrow> blocks_needed (length s)"
  have "a_blocks b = ?f b i + (\<Sum>j \<in> {..<1024} - {i}. ?f b j)" for b
    using assms unfolding a_blocks_def by (intro sum.remove) auto
  from this [of "a(i \<mapsto> (ty, s))"] this [of "a(i := None)"] show ?thesis by simp
qed

lemma put_space:
  assumes inv: "fs_inv bl" and at: "abs_fs bl i = Some (ty, old)" and i: "i < 1024"
    and fits: "a_blocks ((abs_fs bl)(i \<mapsto> (ty, s))) \<le> 32645"
  shows "blocks_needed (length s) \<le> card (free_set bl) + blocks_needed (length old)"
proof -
  have "(abs_fs bl)(i \<mapsto> (ty, old)) = abs_fs bl" using at by (simp add: fun_upd_idem)
  then have "a_blocks (abs_fs bl) = a_blocks ((abs_fs bl)(i := None)) + blocks_needed (length old)"
    using a_blocks_split [OF i, of "abs_fs bl" ty old] by simp
  then show ?thesis
    using free_count [OF inv] fits a_blocks_split [OF i, of "abs_fs bl" ty s] by linarith
qed

lemma put_refines:
  assumes ok: "il_ok il" and fs: "fs_inv (il_bm il)" and at: "abs_fs (il_bm il) (unat inum) = Some (ty, old)"
    and sz: "put_ok (length old) (length s)"
    and fits: "a_blocks ((abs_fs (il_bm il))(unat inum \<mapsto> (ty, s))) \<le> 32645"
  shows "\<exists>bl'. write_file stk t il inum (c_str s) (int (length s)) = Inr (il\<lparr>il_bm := bl'\<rparr>) \<and>
           fs_inv bl' \<and> abs_fs bl' = (abs_fs (il_bm il))(unat inum \<mapsto> (ty, s))"
proof -
  let ?bl = "il_bm il" and ?i = "unat inum" and ?ino = "inode_at (il_bm il) (unat inum)"
  note o = abs_fs_Some [OF at]
  have i: "?i < 1024" using o(1) by (simp add: in_use_def)
  have fok: "file_ok ?bl ?ino" using fs o(1) by (simp add: fs_inv_def)
  note space = put_space [OF fs at i fits]
  consider "length old \<le> 4096" "nblk (length old) \<le> nblk (length s)" "length s \<le> 4096 \<or> 4608 \<le> length s"
      "length s \<le> 69632" | "rewrite_ok (length old) (length s)" using sz by (auto simp: put_ok_def)
  then show ?thesis
  proof cases
    case 1
    note dir = file_ok_direct(1) [OF fok]
    have own: "owned_at ?bl ?i = owned ?bl ?ino" using o(1) by (simp add: owned_at_def)
    then have "card (free_set ?bl \<union> direct_blocks ?ino) = card (free_set ?bl) + blocks_needed (length old)"
      using dir o(4) 1(1) fok owned_not_free [OF fs i] finite_subset [OF owned_at_data [OF fs, of ?i]]
      by (subst card_Un_disjoint) (auto simp: file_ok_def)
    then have "\<exists>bl'. write_file stk t il inum (c_str s) (int (length s)) = Inr (il\<lparr>il_bm := bl'\<rparr>) \<and>
        rewritten ?bl ?i (length s) (c_str s) bl' \<and> reowned ?bl ?i (length s) bl'"
      using fok 1 o space
      by (intro write_file_fresh [OF ok]) (auto simp: file_ok_def fresh_write_ok_def)
    then obtain bl' where w: "write_file stk t il inum (c_str s) (int (length s)) = Inr (il\<lparr>il_bm := bl'\<rparr>)"
        "rewritten ?bl ?i (length s) (c_str s) bl'" "reowned ?bl ?i (length s) bl'" by blast
    then show ?thesis using write_refines [OF fs o(1) refl _ _ 1(4,3) w(2,3)] o(2,4) 1(1,2) by auto
  next
    case 2
    then have "nblk (length s) - nblk (length old) \<le> card (free_set ?bl)" "length s \<le> 69632"
      using space by (auto simp: blocks_needed_def rewrite_ok_def split: if_splits)
    then show ?thesis
      using rewrite_refines [OF fs o(1) refl, of "length s" stk "c_str s"] 2 o(2,4)
        write_file_run [OF ok o(1)] by fastforce
  qed
qed

lemma exec_put:
  assumes inv: "client_inv n c" and n: "n < 2 ^ 31" and cl: "clean (abs_fs (client_bl c)) (Put fid s)"
  shows "\<exists>c'. exec e c (Put fid s) = Inr (OK, fst (a_step (abs_fs (client_bl c)) (Put fid s)), c') \<and>
    client_inv (Suc n) c' \<and> abs_fs (client_bl c') = snd (a_step (abs_fs (client_bl c)) (Put fid s))"
proof -
  let ?i = "unat (inum_of fid)" and ?il = "im (es c)" and ?bl = "client_bl c"
  have ok: "il_ok ?il" using client_inv_il [OF inv n] .
  have fs: "fs_inv ?bl" and locks: "locks_ok (Suc n) (il_rwlocks ?il)"
    using inv locks_ok_mono by (auto simp: client_inv_def)
  have i: "?i < 1024" and sz: "int_size s = int (length s)" using cl int_size_small by auto
  show ?thesis
  proof (cases "in_use ?bl ?i \<and> length s \<le> 69632")
    case False
    then have "write_file (e_stk e) (e_tid e) ?il (inum_of fid) (c_str s) (int_size s) = Inr ?il"
      using sz by (intro write_file_refused [OF ok i]) auto
    moreover have "snd (a_step (abs_fs ?bl) (Put fid s)) = abs_fs ?bl"
      using False by (auto simp: abs_fs_None abs_fs_def split: option.splits)
    ultimately show ?thesis using fs locks by (simp add: client_put_def server_put_def client_inv_def)
  next
    case True
    then obtain ty old where at: "abs_fs ?bl ?i = Some (ty, old)" by (auto simp: abs_fs_def)
    have "put_ok (length old) (length s)" "a_blocks ((abs_fs ?bl)(?i \<mapsto> (ty, s))) \<le> 32645"
      using cl at True by auto
    then obtain bl' where "write_file (e_stk e) (e_tid e) ?il (inum_of fid) (c_str s) (int (length s)) =
          Inr (?il\<lparr>il_bm := bl'\<rparr>)" "fs_inv bl'" "abs_fs bl' = (abs_fs ?bl)(?i \<mapsto> (ty, s))"
      using put_refines [OF ok fs at] by blast
    with sz locks at True show ?thesis by (simp add: client_put_def server_put_def client_inv_def)
  qed
qed

lemma exec_get:
  assumes inv: "client_inv n c" and n: "n < 2 ^ 31" and cl: "clean (abs_fs (client_bl c)) (Get fid)"
  shows "\<exists>c'. exec e c (Get fid) = Inr (OK, fst (a_step (abs_fs (client_bl c)) (Get fid)), c') \<and>
    client_inv (Suc n) c' \<and> abs_fs (client_bl c') = snd (a_step (abs_fs (client_bl c)) (Get fid))"
proof -
  let ?i = "unat (inum_of fid)" and ?il = "im (es c)" and ?bl = "client_bl c"
  have ok: "il_ok ?il" using client_inv_il [OF inv n] .
  have fs: "fs_inv ?bl" and locks: "locks_ok (Suc n) (after_read (il_rwlocks ?il) ?i)"
    using inv locks_ok_read by (auto simp: client_inv_def)
  have i: "?i < 1024" using cl by simp
  show ?thesis
  proof (cases "in_use ?bl ?i")
    case False
    then show ?thesis
      using read_file_absent [OF ok i False] fs locks
      by (simp add: client_get_def server_get_def client_inv_def abs_fs_def)
  next
    case True
    let ?ino = "inode_at ?bl ?i"
    have fok: "file_ok ?bl ?ino" using fs True by (simp add: fs_inv_def)
    then have rd: "readable ?bl ?ino" by (simp add: file_ok_def)
    obtain buf bl' where r: "read_file (e_stk e) (e_tid e) (e_now e) ?il (inum_of fid) (Some None) (Some 0) =
        Inr (Some (Some buf), Some (int (file_size ?ino)),
           ?il\<lparr>il_bm := bl', il_rwlocks := after_read (il_rwlocks ?il) ?i\<rparr>)"
        "\<forall>k < file_size ?ino. buf k = file_data ?bl ?ino k" "bl_ok bl'" "free_set bl' = free_set ?bl"
        "\<forall>j<1024. inode_at bl' j =
          (if j = ?i then (inode_at ?bl j)\<lparr>i_atime := ucast (e_now e)\<rparr> else inode_at ?bl j)"
        "\<forall>b. b \<notin> inode_blocks \<longrightarrow> contents bl' b = contents ?bl b"
      using read_file_spec [OF ok True rd, of "e_stk e" "e_tid e" "e_now e" None 0] by blast
    have "map buf [0..<file_size ?ino] = file_bytes ?bl ?ino" using r(2) by (simp add: file_bytes_def)
    then have "client_get (e_stk e) (e_tid e) (e_now e) c fid = Inr (OK, file_bytes ?bl ?ino,
        c\<lparr>es := (es c)\<lparr>im := ?il\<lparr>il_bm := bl', il_rwlocks := after_read (il_rwlocks ?il) ?i\<rparr>\<rparr>\<rparr>)"
      using r(1) by (auto simp: client_get_def server_get_def Let_def)
    moreover note read_refines [OF fs True r(3,5,4,6)]
    ultimately show ?thesis using locks True by (simp add: client_inv_def abs_fs_def)
  qed
qed

lemma exec_getattr:
  assumes "client_inv n c"
  shows "\<exists>c'. exec e c (Getattr fid) = Inr (OK, fst (a_step (abs_fs (client_bl c)) (Getattr fid)), c') \<and>
    client_inv (Suc n) c' \<and> abs_fs (client_bl c') = snd (a_step (abs_fs (client_bl c)) (Getattr fid))"
proof -
  have "bl_ok (client_bl c)" using assms by (simp add: client_inv_def fs_inv_def)
  from il_getattr_spec [OF this, of "e_stk e" "inum_of fid" zero_attr]
  show ?thesis using assms locks_ok_mono
    by (auto simp: client_getattr_def server_getattr_def abs_fs_def file_bytes_def attr_of_def
        zero_attr_def file_size_def client_inv_def)
qed

lemma exec_remove:
  assumes inv: "client_inv n c" and cl: "clean (abs_fs (client_bl c)) (Remove fid)"
  shows "\<exists>c'. exec e c (Remove fid) = Inr (OK, fst (a_step (abs_fs (client_bl c)) (Remove fid)), c') \<and>
    client_inv (Suc n) c' \<and> abs_fs (client_bl c') = snd (a_step (abs_fs (client_bl c)) (Remove fid))"
proof -
  let ?i = "unat (inum_of fid)" and ?bl = "client_bl c"
  have fs: "fs_inv ?bl" and locks: "locks_ok (Suc n) (il_rwlocks (im (es c)))"
    using inv locks_ok_mono by (auto simp: client_inv_def)
  show ?thesis
  proof (cases "in_use ?bl ?i")
    case False
    have "bl_ok ?bl" using fs by (simp add: fs_inv_def)
    moreover have "(abs_fs ?bl)(?i := None) = abs_fs ?bl" using False
      by (intro fun_upd_idem) (simp add: abs_fs_None)
    ultimately show ?thesis using remove_file_absent [OF _ False] fs locks
      by (simp add: client_remove_def server_remove_def client_inv_def)
  next
    case True
    then obtain bl' where "remove_file (e_stk e) ?bl (inum_of fid) = Inr bl'" "fs_inv bl'"
        "abs_fs bl' = (abs_fs ?bl)(?i := None)"
      using remove_refines [OF fs True refl] cl by (auto simp: abs_fs_def file_bytes_def)
    with locks show ?thesis by (simp add: client_remove_def server_remove_def client_inv_def)
  qed
qed

subsection \<open>Every call and every sequence\<close>

lemma exec_refines:
  assumes "client_inv n c" and "n < 2 ^ 31" and "clean (abs_fs (client_bl c)) op"
  shows "\<exists>c'. exec e c op = Inr (OK, fst (a_step (abs_fs (client_bl c)) op), c') \<and>
    client_inv (Suc n) c' \<and> abs_fs (client_bl c') = snd (a_step (abs_fs (client_bl c)) op)"
proof (cases op)
  case (Create ty)
  with exec_create [OF assms(1), of ty e] assms(3) show ?thesis by simp
next
  case (Put fid s)
  with exec_put [OF assms(1,2), of fid s e] assms(3) show ?thesis by simp
next
  case (Get fid)
  with exec_get [OF assms(1,2), of fid e] assms(3) show ?thesis by simp
next
  case (Getattr fid)
  with exec_getattr [OF assms(1), of e fid] show ?thesis by simp
next
  case (Remove fid)
  with exec_remove [OF assms(1), of fid e] assms(3) show ?thesis by simp
qed

text \<open>
  The contract of a file service: from a state that satisfies the invariant a clean call
  returns the reply of the table. What clients use follows from it alone.
\<close>

locale table_service =
  fixes step :: "'e \<Rightarrow> 'c \<Rightarrow> fs_call \<Rightarrow> fault + (xxstatus \<times> fs_reply \<times> 'c)"
    and inv :: "nat \<Rightarrow> 'c \<Rightarrow> bool"
    and table :: "'c \<Rightarrow> afs"
  assumes step_table: "inv n c \<Longrightarrow> n < 2 ^ 31 \<Longrightarrow> clean (table c) op \<Longrightarrow>
    \<exists>c'. step e c op = Inr (OK, fst (a_step (table c) op), c') \<and> inv (Suc n) c' \<and>
      table c' = snd (a_step (table c) op)"
begin

lemma run_table:
  assumes "inv n c" and "n + length ops \<le> 2 ^ 31" and "clean_all (table c) (map snd ops)"
  shows "\<exists>c'. run_calls step c ops = Inr (fst (a_steps (table c) (map snd ops)), c') \<and>
    inv (n + length ops) c' \<and> table c' = snd (a_steps (table c) (map snd ops))"
  using assms
proof (induction ops arbitrary: n c)
  case (Cons eop ops)
  obtain e op where eop: "eop = (e, op)" by (cases eop)
  have cl: "clean (table c) op"
    and rest: "clean_all (snd (a_step (table c) op)) (map snd ops)"
    using Cons.prems(3) eop by auto
  obtain c1 where one: "step e c op = Inr (OK, fst (a_step (table c) op), c1)"
      "inv (Suc n) c1" "table c1 = snd (a_step (table c) op)"
    using step_table [OF Cons.prems(1) _ cl, of e] Cons.prems(2) by auto
  show ?case
    using Cons.IH [OF one(2)] one rest Cons.prems(2) eop by (auto simp: split_beta Let_def)
qed simp

text \<open>Two calls in a row.\<close>

lemma run_two:
  assumes "inv n c" and "n + 2 \<le> 2 ^ 31" and "clean (table c) p" and "clean (snd (a_step (table c) p)) q"
  obtains c1 c2 where "step e c p = Inr (OK, fst (a_step (table c) p), c1)"
    and "step e' c1 q = Inr (OK, fst (a_step (snd (a_step (table c) p)) q), c2)"
    and "inv (Suc (Suc n)) c2" and "table c2 = snd (a_step (snd (a_step (table c) p)) q)"
proof -
  obtain c1 where one: "step e c p = Inr (OK, fst (a_step (table c) p), c1)"
      "inv (Suc n) c1" "table c1 = snd (a_step (table c) p)"
    using step_table [OF assms(1) _ assms(3), of e] assms(2) by auto
  moreover obtain c2 where "step e' c1 q = Inr (OK, fst (a_step (table c1) q), c2)"
      "inv (Suc (Suc n)) c2" "table c2 = snd (a_step (table c1) q)"
    using step_table [OF one(2), of q e'] assms(2,4) one(3) by auto
  ultimately show thesis using that by simp
qed

lemma get_after_put:
  assumes "inv n c" and "n + 2 \<le> 2 ^ 31" and "clean (table c) (Put fid s)"
    and "table c (unat (inum_of fid)) \<noteq> None" and "length s \<le> 69632"
  obtains c1 c2 where "step e c (Put fid s) = Inr (OK, R_ok, c1)"
    and "step e' c1 (Get fid) = Inr (OK, R_data s, c2)"
  by (rule run_two [OF assms(1,2,3), of "Get fid" e e']) (use assms(3,4,5) in auto)

lemma get_other_after_put:
  assumes "inv n c" and "n + 2 \<le> 2 ^ 31" and "clean (table c) (Put fid s)"
    and "unat (inum_of gid) < 1024" and "inum_of gid \<noteq> inum_of fid"
  obtains c1 c2 where "step e c (Put fid s) = Inr (OK, R_ok, c1)"
    and "step e' c1 (Get gid) = Inr (OK, fst (a_step (table c) (Get gid)), c2)"
proof -
  have ne: "unat (inum_of gid) \<noteq> unat (inum_of fid)" using assms(5) by (simp add: word_unat_eq_iff)
  show thesis
    by (rule run_two [OF assms(1,2,3), of "Get gid" e e'])
      (use that assms(4) ne in \<open>auto split: option.splits if_splits\<close>)
qed

end

interpretation cl: table_service exec client_inv "\<lambda>c. abs_fs (client_bl c)"
  by unfold_locales (rule exec_refines)

lemma new_client_inv:
  "\<exists>c. new_fs_client stk ts False = Inr c \<and> client_inv 0 c \<and>
     abs_fs (client_bl c) = [0 \<mapsto> (1, [])]"
proof -
  obtain bl where new: "new_inode_layer stk ts False = Inr \<lparr>il_bm = bl, il_rwlocks = (\<lambda>_. new_a4_rwlock)\<rparr>"
      "bl_ok bl" "free_set bl = data_blocks"
      "\<forall>j<1024. inode_at bl j = (if j = 0 then new_inode ts 1 else decode_inode (\<lambda>_. 0) 0)"
    using new_inode_layer_spec by blast
  have "i_type (decode_inode (\<lambda>_. 0) 0) = 0" by (simp add: decode_inode_def)
  then have use: "in_use bl j \<longleftrightarrow> j = 0" for j
    using new(4) new_inode_type [of ts 1] by (cases "j = 0"; cases "j < 1024") (simp_all add: in_use_def)
  have "owned_at bl j = {}" for j using use new(4) file_ok_new(2) by (simp add: owned_at_def)
  then have "fs_inv bl"
    using new use file_ok_new(1) by (simp add: fs_inv_def disjoint_family_on_def)
  moreover have "abs_fs bl = [0 \<mapsto> (1, [])]"
    using use new(4) file_ok_new(3) new_inode_type [of ts 1] by (simp add: abs_fs_def fun_eq_iff)
  moreover have "locks_ok 0 (\<lambda>_. new_a4_rwlock)" by (simp add: locks_ok_def new_a4_rwlock_def)
  ultimately show ?thesis using new(1) by (simp add: new_fs_client_def new_fs_server_def client_inv_def)
qed

subsection \<open>Evaluating the table\<close>

lemma a_free_eqI:
  assumes "i < 1024" and "a i = None" and "\<And>j. j < i \<Longrightarrow> a j \<noteq> None"
  shows "a_free a = i"
proof -
  have "\<exists>i<1024. a i = None" using assms(1,2) by blast
  note m = a_free_least [OF this]
  show ?thesis using m(2) m(3) [of i] assms(2) assms(3) [of "a_free a"] by (metis linorder_neqE_nat)
qed

lemma a_blocks_empty: "a_blocks Map.empty = 0"
  by (simp add: a_blocks_def)

lemma blocks_needed_small: "0 < n \<Longrightarrow> n \<le> 512 \<Longrightarrow> blocks_needed n = 1" "blocks_needed 0 = 0"
  by (simp_all add: blocks_needed_def nblk_def)

subsection \<open>Properties\<close>

text \<open>
  C36: Writing over a file that already has an indirect block stores the new bytes, keeps the
  invariant and every other file, and takes or releases exactly the difference in data blocks, if
  the sizes are those of \<open>rewrite_ok\<close> and the additional blocks are free. \<open>rewrite_ok\<close>: the new
  size is from 4608 to 69632; a file that grows gets at least 512 bytes longer or keeps its number
  of blocks; a file that shrinks ends in a last block at least as full as the old one. Other
  sizes lose or leak blocks.
\<close>

theorem rewrite_large_file:
  assumes "il_ok il" and "fs_inv (il_bm il)" and "abs_fs (il_bm il) (unat inum) = Some (ty, old)"
    and "rewrite_ok (length old) (length s)"
    and "nblk (length s) \<le> nblk (length old) + card (free_set (il_bm il))"
  shows "\<exists>bl'. write_file stk t il inum (c_str s) (int (length s)) = Inr (il\<lparr>il_bm := bl'\<rparr>) \<and>
    fs_inv bl' \<and> abs_fs bl' = (abs_fs (il_bm il))(unat inum \<mapsto> (ty, s)) \<and>
    card (free_set bl') + nblk (length s) = card (free_set (il_bm il)) + nblk (length old)"
proof -
  let ?a = "abs_fs (il_bm il)" and ?i = "unat inum"
  have i: "?i < 1024" using abs_fs_Some(1) [OF assms(3)] by (simp add: in_use_def)
  have need: "blocks_needed (length s) = nblk (length s) + 1" "blocks_needed (length old) = nblk (length old) + 1"
    using assms(4) by (auto simp: blocks_needed_def rewrite_ok_def)
  have "?a(?i \<mapsto> (ty, old)) = ?a" using assms(3) by (simp add: fun_upd_idem)
  then have old: "a_blocks ?a = a_blocks (?a(?i := None)) + blocks_needed (length old)"
    using a_blocks_split [OF i, of ?a ty old] by simp
  note new = a_blocks_split [OF i, of ?a ty s] and cnt = free_count [OF assms(2)]
  obtain bl' where "write_file stk t il inum (c_str s) (int (length s)) = Inr (il\<lparr>il_bm := bl'\<rparr>)"
      "fs_inv bl'" "abs_fs bl' = ?a(?i \<mapsto> (ty, s))"
    using put_refines [OF assms(1-3), of s stk t] assms(4,5) old new cnt need by (auto simp: put_ok_def)
  with free_count [of bl'] old new cnt need show ?thesis by auto
qed

theorem rewrite_large_file_witness:
  "\<exists>c c' bl'. new_fs_client (\<lambda>_ _. 0) (0, 0, 0) False = Inr c \<and>
     client_put (\<lambda>_ _. 0) 3 c 0 (replicate 5000 7) = Inr (OK, c') \<and>
     write_file (\<lambda>_ _. 0) 4 (im (es c')) 0 (c_str (replicate 7000 8)) (int (length (replicate 7000 (8 :: byte)))) =
       Inr ((im (es c'))\<lparr>il_bm := bl'\<rparr>) \<and>
     abs_fs bl' = [0 \<mapsto> (1, replicate 7000 8)] \<and>
     card (free_set bl') + 14 = card (free_set (client_bl c')) + 10"
proof -
  obtain c where c: "new_fs_client (\<lambda>_ _. 0) (0, 0, 0) False = Inr c" "client_inv 0 c"
      "abs_fs (client_bl c) = [0 \<mapsto> (1, [])]"
    using new_client_inv by blast
  have z: "unat (inum_of 0) = 0" "inum_of 0 = 0" by (simp_all add: inum_of_def)
  have "clean (abs_fs (client_bl c)) (Put 0 (replicate 5000 7))"
    using c(3) z by (simp add: nblk_def put_ok_def a_blocks_split a_blocks_empty blocks_needed_def)
  from exec_put [OF c(2) _ this, of "\<lparr>e_stk = (\<lambda>_ _. 0), e_tid = 3, e_now = 0, e_times = (0, 0, 0)\<rparr>"]
  obtain c' where c': "client_put (\<lambda>_ _. 0) 3 c 0 (replicate 5000 7) = Inr (OK, c')" "client_inv 1 c'"
      "abs_fs (client_bl c') = [0 \<mapsto> (1, replicate 5000 7)]"
    using c(3) z by (auto simp: rbind_Inr_iff)
  have fs: "fs_inv (client_bl c')" using c'(2) by (simp add: client_inv_def)
  have il: "il_ok (im (es c'))" using client_inv_il [OF c'(2)] by simp
  have "a_blocks (abs_fs (client_bl c')) = 11"
    using c'(3) by (simp add: a_blocks_split a_blocks_empty blocks_needed_def nblk_def)
  then have "4 \<le> card (free_set (client_bl c'))" using free_count [OF fs] by simp
  then have "\<exists>bl'. write_file (\<lambda>_ _. 0) 4 (im (es c')) 0 (c_str (replicate 7000 8)) (int (length (replicate 7000 (8 :: byte)))) =
       Inr ((im (es c'))\<lparr>il_bm := bl'\<rparr>) \<and> fs_inv bl' \<and>
     abs_fs bl' = (abs_fs (client_bl c'))(unat (0 :: u32) \<mapsto> (1, replicate 7000 8)) \<and>
     card (free_set bl') + nblk (length (replicate 7000 (8 :: byte))) = card (free_set (client_bl c')) + nblk (length (replicate 5000 (7 :: byte)))"
    using c'(3)
    by (intro rewrite_large_file [OF il fs]) (simp_all add: rewrite_ok_def nblk_def)
  with c(1) c'(1,3) show ?thesis by (auto simp: nblk_def)
qed

end
