(* ===== verification/Interleave.thy ===== *)
theory Interleave
  imports Main
begin

text \<open>
  Threads over shared state, for the programs that start threads and join them. A thread has a
  local state; \<open>act t s (t', s')\<close> says that a thread at \<open>t\<close> can move to \<open>t'\<close> while the shared
  state changes from \<open>s\<close> to \<open>s'\<close>. The system is a list of threads; which one moves next is open.
\<close>

inductive interleave ::
    "('t \<Rightarrow> 's \<Rightarrow> 't \<times> 's \<Rightarrow> bool) \<Rightarrow> 't list \<times> 's \<Rightarrow> 't list \<times> 's \<Rightarrow> bool"
  for act where
  move: "k < length ts \<Longrightarrow> act (ts ! k) s (t', s') \<Longrightarrow> interleave act (ts, s) (ts[k := t'], s')"

inductive_cases interleaveE: "interleave act (ts, s) cfg"

text \<open>\<open>pthread_join\<close> for every thread: the shared states once all threads are finished.\<close>

definition joined ::
    "('t \<Rightarrow> 's \<Rightarrow> 't \<times> 's \<Rightarrow> bool) \<Rightarrow> ('t \<Rightarrow> bool) \<Rightarrow> 't list \<Rightarrow> 's \<Rightarrow> 's \<Rightarrow> bool" where
  "joined act finished ts s s' \<longleftrightarrow>
     (\<exists>ts'. (interleave act)\<^sup>*\<^sup>* (ts, s) (ts', s') \<and> list_all finished ts')"

text \<open>A run of one thread is a run of the system in which the others rest.\<close>

lemma interleave_thread:
  assumes "(\<lambda>(t, s). act t s)\<^sup>*\<^sup>* (t, s) (t', s')" and "k < length ts"
  shows "(interleave act)\<^sup>*\<^sup>* (ts[k := t], s) (ts[k := t'], s')"
  using assms(1)
proof (induction rule: rtranclp_induct2)
  case (step t1 s1 t2 s2)
  have "interleave act (ts[k := t1], s1) (ts[k := t1, k := t2], s2)"
    using assms(2) step(2) by (intro interleave.move) auto
  with step(3) show ?case by simp
qed simp

lemma sum_list_replace:
  fixes xs :: "nat list"
  assumes "k < length xs" and "y < xs ! k"
  shows "sum_list (xs[k := y]) < sum_list xs"
  using assms elem_le_sum_list [of k xs] by (simp add: sum_list_update)

text \<open>
  Threads whose calls exclude each other. Between calls the shared state is \<open>idle\<close> and every
  thread is \<open>outside\<close>; while a thread is \<open>inside\<close> a call, the others can move only outside. The
  index counts the steps so far, up to \<open>lim\<close>; \<open>rank\<close> bounds the steps a thread still takes.
\<close>

locale serialized_threads =
  fixes act :: "'t \<Rightarrow> 's \<Rightarrow> 't \<times> 's \<Rightarrow> bool"
    and idle :: "nat \<Rightarrow> 's \<Rightarrow> bool"
    and outside :: "'t \<Rightarrow> bool"
    and inside :: "nat \<Rightarrow> 't \<Rightarrow> 's \<Rightarrow> bool"
    and rank :: "'t \<Rightarrow> nat"
    and lim :: nat
  assumes idle_step: "idle n s \<Longrightarrow> n < lim \<Longrightarrow> outside t \<Longrightarrow> act t s (t', s') \<Longrightarrow>
      (idle (Suc n) s' \<and> outside t') \<or> inside (Suc n) t' s'"
    and other_step: "inside n u s \<Longrightarrow> n < lim \<Longrightarrow> outside t \<Longrightarrow> act t s (t', s') \<Longrightarrow>
      outside t' \<and> inside (Suc n) u s'"
    and inside_step: "inside n t s \<Longrightarrow> n < lim \<Longrightarrow> act t s (t', s') \<Longrightarrow>
      (idle (Suc n) s' \<and> outside t') \<or> inside (Suc n) t' s'"
    and outside_rank: "outside t \<Longrightarrow> act t s (t', s') \<Longrightarrow> rank t' < rank t"
    and inside_rank: "inside n t s \<Longrightarrow> act t s (t', s') \<Longrightarrow> rank t' < rank t"
    and idle_enabled: "idle n s \<Longrightarrow> n < lim \<Longrightarrow> outside t \<Longrightarrow> 0 < rank t \<Longrightarrow> \<exists>t' s'. act t s (t', s')"
    and inside_enabled: "inside n t s \<Longrightarrow> \<exists>t' s'. act t s (t', s')"
begin

definition system :: "nat \<Rightarrow> 't list \<Rightarrow> 's \<Rightarrow> bool" where
  "system n ts s \<longleftrightarrow>
     (idle n s \<and> (\<forall>k<length ts. outside (ts ! k))) \<or>
     (\<exists>k<length ts. inside n (ts ! k) s \<and> (\<forall>l<length ts. l \<noteq> k \<longrightarrow> outside (ts ! l)))"

lemma system_update:
  assumes "k < length ts" and "\<forall>l<length ts. l \<noteq> k \<longrightarrow> outside (ts ! l)"
    and "(idle n s \<and> outside t) \<or> inside n t s"
  shows "system n (ts[k := t]) s"
  using assms(3)
proof
  assume "idle n s \<and> outside t"
  then show ?thesis using assms(1,2) unfolding system_def by (auto simp: nth_list_update)
next
  assume "inside n t s"
  then show ?thesis using assms(1,2) unfolding system_def by (intro disjI2 exI [of _ k]) (auto simp: nth_list_update)
qed

lemma act_system:
  assumes sys: "system n ts s" and n: "n < lim" and k: "k < length ts" "act (ts ! k) s (t', s')"
  shows "system (Suc n) (ts[k := t']) s'" and "rank t' < rank (ts ! k)"
proof -
  consider (idle) "idle n s" "\<forall>l<length ts. outside (ts ! l)"
    | (self) "inside n (ts ! k) s" "\<forall>l<length ts. l \<noteq> k \<longrightarrow> outside (ts ! l)"
    | (other) j where "j < length ts" "j \<noteq> k" "inside n (ts ! j) s" "\<forall>l<length ts. l \<noteq> j \<longrightarrow> outside (ts ! l)"
    using sys unfolding system_def by blast
  then have "system (Suc n) (ts[k := t']) s' \<and> rank t' < rank (ts ! k)"
  proof cases
    case idle
    then show ?thesis
      using idle_step [OF idle(1) n _ k(2)] outside_rank [OF _ k(2)] k(1) system_update [OF k(1)] by blast
  next
    case self
    then show ?thesis
      using inside_step [OF self(1) n k(2)] inside_rank [OF self(1) k(2)] system_update [OF k(1)] by blast
  next
    case other
    then have "outside (ts ! k)" using k(1) by blast
    with other_step [OF other(3) n _ k(2)] have o: "outside t'" "inside (Suc n) (ts ! j) s'" by blast+
    with other k(1) have "system (Suc n) (ts[k := t']) s'"
      unfolding system_def by (intro disjI2 exI [of _ j]) (auto simp: nth_list_update)
    with outside_rank [OF \<open>outside (ts ! k)\<close> k(2)] show ?thesis by blast
  qed
  then show "system (Suc n) (ts[k := t']) s'" "rank t' < rank (ts ! k)" by blast+
qed

lemma system_step:
  assumes "system n ts s" and "n + sum_list (map rank ts) \<le> lim" and "interleave act (ts, s) (ts', s')"
  shows "system (Suc n) ts' s'" and "sum_list (map rank ts') < sum_list (map rank ts)"
proof -
  obtain k t' where k: "k < length ts" "act (ts ! k) s (t', s')" "ts' = ts[k := t']"
    using assms(3) by (auto elim: interleaveE)
  have "0 < rank (ts ! k)"
    using assms(1) k(1,2) outside_rank [OF _ k(2)] inside_rank [OF _ k(2)] unfolding system_def by (metis gr_zeroI not_less0)
  then have "n < lim" using assms(2) elem_le_sum_list [of k "map rank ts"] k(1) by simp
  note st = act_system [OF assms(1) this k(1,2)]
  show "system (Suc n) ts' s'" using st(1) k(3) by simp
  show "sum_list (map rank ts') < sum_list (map rank ts)"
    using sum_list_replace [of k "map rank ts"] st(2) k(1,3) by (simp add: map_update)
qed

text \<open>A run is no longer than the ranks allow, and the invariant holds at its end.\<close>

lemma run_bounded:
  assumes "(interleave act ^^ m) (ts, s) (ts', s')" and "system n ts s" and "n + sum_list (map rank ts) \<le> lim"
  shows "system (n + m) ts' s' \<and> m + sum_list (map rank ts') \<le> sum_list (map rank ts)"
  using assms
proof (induction m arbitrary: ts' s')
  case (Suc m)
  then obtain ts1 s1 where r: "(interleave act ^^ m) (ts, s) (ts1, s1)" "interleave act (ts1, s1) (ts', s')"
    by (auto simp: relcompp_apply)
  note IH = Suc.IH [OF r(1) Suc.prems(2,3)]
  then have "n + m + sum_list (map rank ts1) \<le> lim" using Suc.prems(3) by simp
  from system_step [OF _ this r(2)] IH show ?case by simp
qed simp

text \<open>A system that cannot move has finished all threads, and every system can finish.\<close>

lemma stuck_finished:
  assumes sys: "system n ts s" and "n + sum_list (map rank ts) \<le> lim" and stuck: "\<And>cfg. \<not> interleave act (ts, s) cfg"
  shows "list_all (\<lambda>t. rank t = 0) ts"
proof -
  have no: "\<not> act (ts ! k) s (t', s')" if "k < length ts" for k t' s'
    using stuck interleave.move [OF that] by metis
  then have idle: "idle n s" "\<forall>k<length ts. outside (ts ! k)"
    using sys inside_enabled unfolding system_def by metis+
  have "rank (ts ! k) = 0" if k: "k < length ts" for k
  proof (rule ccontr)
    assume r: "rank (ts ! k) \<noteq> 0"
    then have "n < lim" using assms(2) elem_le_sum_list [of k "map rank ts"] k by simp
    then show False using idle_enabled [OF idle(1) _ _, of "ts ! k"] idle(2) k r no by blast
  qed
  then show ?thesis by (simp add: list_all_length)
qed

lemma can_finish:
  assumes "system n ts s" and "n + sum_list (map rank ts) \<le> lim"
  shows "\<exists>s'. joined act (\<lambda>t. rank t = 0) ts s s'"
  using assms
proof (induction "sum_list (map rank ts)" arbitrary: ts s n rule: less_induct)
  case less
  show ?case
  proof (cases "\<exists>cfg. interleave act (ts, s) cfg")
    case False
    then have "list_all (\<lambda>t. rank t = 0) ts" using stuck_finished [OF less.prems] by blast
    then have "joined act (\<lambda>t. rank t = 0) ts s s" unfolding joined_def by blast
    then show ?thesis ..
  next
    case True
    then obtain ts1 s1 where one: "interleave act (ts, s) (ts1, s1)" by auto
    note st = system_step [OF less.prems one]
    have "\<exists>s'. joined act (\<lambda>t. rank t = 0) ts1 s1 s'" using less.prems(2) st by (intro less.hyps) auto
    then obtain ts' s' where "(interleave act)\<^sup>*\<^sup>* (ts1, s1) (ts', s')" "list_all (\<lambda>t. rank t = 0) ts'"
      by (auto simp: joined_def)
    with converse_rtranclp_into_rtranclp [where r = "interleave act", OF one] show ?thesis unfolding joined_def by blast
  qed
qed

text \<open>Once all threads have finished the state is idle.\<close>

lemma joined_idle:
  assumes "joined act (\<lambda>t. rank t = 0) ts s s'" and "system n ts s" and "n + sum_list (map rank ts) \<le> lim"
  obtains m where "idle m s'" and "m \<le> n + sum_list (map rank ts)"
proof -
  obtain ts' where run: "(interleave act)\<^sup>*\<^sup>* (ts, s) (ts', s')" and fin: "list_all (\<lambda>t. rank t = 0) ts'"
    using assms(1) by (auto simp: joined_def)
  obtain m where m: "(interleave act ^^ m) (ts, s) (ts', s')" using run by (auto dest: rtranclp_imp_relpowp)
  note r = run_bounded [OF m assms(2,3)]
  have "\<not> inside (n + m) (ts' ! k) s'" if "k < length ts'" for k
  proof
    assume i: "inside (n + m) (ts' ! k) s'"
    obtain t1 s1 where "act (ts' ! k) s' (t1, s1)" using inside_enabled [OF i] by blast
    then have "0 < rank (ts' ! k)" using inside_rank [OF i] by fastforce
    then show False using fin that by (simp add: list_all_length)
  qed
  with r have "idle (n + m) s'" unfolding system_def by blast
  with that r show thesis by simp
qed

end

text \<open>
  Critical sections: a thread is \<open>inside\<close> between taking a mutex and giving it back; \<open>held\<close> says
  of the shared state that the mutex is taken. The laws are about steps whose result is \<open>good\<close>.
\<close>

locale critical_sections =
  fixes act :: "'t \<Rightarrow> 's \<Rightarrow> 't \<times> 's \<Rightarrow> bool"
    and inside :: "'t \<Rightarrow> bool"
    and held :: "'s \<Rightarrow> bool"
    and good :: "'s \<Rightarrow> bool"
  assumes enter: "act t s (t', s') \<Longrightarrow> good s' \<Longrightarrow> \<not> inside t \<Longrightarrow> inside t' \<Longrightarrow> \<not> held s \<and> held s'"
    and leave: "act t s (t', s') \<Longrightarrow> good s' \<Longrightarrow> inside t \<Longrightarrow> \<not> inside t' \<Longrightarrow> \<not> held s'"
    and stay: "act t s (t', s') \<Longrightarrow> good s' \<Longrightarrow> inside t = inside t' \<Longrightarrow> held s' = held s"
begin

definition exclusive :: "'t list \<Rightarrow> 's \<Rightarrow> bool" where
  "exclusive ts s \<longleftrightarrow>
     (held s \<longleftrightarrow> (\<exists>k<length ts. inside (ts ! k))) \<and>
     (\<forall>k<length ts. \<forall>l<length ts. inside (ts ! k) \<longrightarrow> inside (ts ! l) \<longrightarrow> k = l)"

lemma exclusive_step:
  assumes "exclusive ts s" and "k < length ts" and "act (ts ! k) s (t', s')" and "good s'"
  shows "exclusive (ts[k := t']) s'"
proof -
  note laws = enter [OF assms(3,4)] leave [OF assms(3,4)] stay [OF assms(3,4)]
  show ?thesis
  proof (cases "inside (ts ! k) \<or> inside t'")
    case True
    then have "\<forall>l<length ts. l \<noteq> k \<longrightarrow> \<not> inside (ts ! l)"
      using assms(1,2) laws(1) unfolding exclusive_def by metis
    with True assms(1,2) laws show ?thesis unfolding exclusive_def by (auto simp: nth_list_update)
  next
    case False
    then have "inside (ts[k := t'] ! l) \<longleftrightarrow> inside (ts ! l)" for l
      using assms(2) by (cases "l = k") auto
    with False assms(1) laws(3) show ?thesis unfolding exclusive_def by simp
  qed
qed

lemma exclusive_others:
  "exclusive ts s \<Longrightarrow> k < length ts \<Longrightarrow> inside (ts ! k) \<Longrightarrow> l < length ts \<Longrightarrow> l \<noteq> k \<Longrightarrow> \<not> inside (ts ! l)"
  unfolding exclusive_def by blast

end

end
