(* ===== verification/Inode_Races.thy ===== *)
theory Inode_Races
  imports Inode Interleave
begin

text \<open>
  Threads inside the inode layer. \<open>read_file\<close> and \<open>write_file\<close> hold the lock of one inode while they
  store it, but \<open>put_inode\<close> reads and writes back a block that holds nine inodes, and
  \<open>alloc_inode\<close> holds no lock. Here \<open>put_inode\<close> is its two accesses to the disk, each a step, and
  \<open>alloc_inode\<close> its look-ups followed by them, so that calls of several threads can interleave. Calls on inodes of different
  blocks do not disturb each other; calls on two inodes of one block can lose one of the stores,
  and two threads that allocate can be given one number.
\<close>

subsection \<open>The two accesses of \<open>put_inode\<close>\<close>

definition inode_block :: "block_layer \<Rightarrow> u32 \<Rightarrow> u32" where
  "inode_block bl inum = word_of_nat (IBLOCK (unat inum) (unat (sb_nblocks (bl_sb bl))))"

definition put_fetch :: "stack \<Rightarrow> block_layer \<Rightarrow> u32 \<Rightarrow> fault + buf" where
  "put_fetch stk bl inum = bl_read_block bl (inode_block bl inum) (stk Scratch)"

definition put_store :: "block_layer \<Rightarrow> u32 \<Rightarrow> buf \<Rightarrow> inode \<Rightarrow> fault + block_layer" where
  "put_store bl inum buf ino =
     bl_write_block bl (inode_block bl inum) (encode_inode buf (inode_slot (unat inum)) ino)"

lemma put_inode_split:
  "unat inum < 1024 \<Longrightarrow>
     put_inode stk bl inum (Some ino) = rbind (put_fetch stk bl inum) (\<lambda>buf. put_store bl inum buf ino)"
  by (simp add: put_inode_def put_fetch_def put_store_def inode_block_def Let_def)

text \<open>A thread that runs \<open>put_inode\<close>: before the read, with the block in \<open>buf\<close>, after the write.\<close>

datatype put_pc = Fetch | Store buf | Stored

inductive put_act ::
    "u32 \<times> inode \<times> put_pc \<Rightarrow> fault + block_layer \<Rightarrow> (u32 \<times> inode \<times> put_pc) \<times> (fault + block_layer) \<Rightarrow> bool" where
  fetch: "put_fetch stk bl inum = Inr buf \<Longrightarrow> put_act (inum, ino, Fetch) (Inr bl) ((inum, ino, Store buf), Inr bl)"
| fetch_fault: "put_fetch stk bl inum = Inl f \<Longrightarrow> put_act (inum, ino, Fetch) (Inr bl) ((inum, ino, Stored), Inl f)"
| store: "put_store bl inum buf ino = Inr bl' \<Longrightarrow>
    put_act (inum, ino, Store buf) (Inr bl) ((inum, ino, Stored), Inr bl')"
| store_fault: "put_store bl inum buf ino = Inl f \<Longrightarrow>
    put_act (inum, ino, Store buf) (Inr bl) ((inum, ino, Stored), Inl f)"

inductive_cases put_actE: "put_act (inum, ino, pc) x p"

definition put_done :: "u32 \<times> inode \<times> put_pc \<Rightarrow> bool" where
  "put_done t \<longleftrightarrow> snd (snd t) = Stored"

subsection \<open>What each access does\<close>

lemma put_fetch_ok:
  assumes "bl_ok bl" and "unat inum < 1024"
  obtains buf where "put_fetch stk bl inum = Inr buf" and "eq_upto 512 buf (contents bl (9 + unat inum div 9))"
proof -
  let ?id = "word_of_nat (9 + unat inum div 9) :: u32"
  note id = unat_IBLOCK [OF assms(2)] and rng = IBLOCK_range [OF assms(2)]
  have "unat ?id < BLOCK_NUM" using id rng by (simp add: inode_blocks_def)
  from bs.rd_ok [OF this, of bl "stk Scratch"] id that bl_ok_nblocks [OF assms(1)] show thesis
    by (auto simp: put_fetch_def inode_block_def)
qed

lemma put_store_ok:
  assumes "bl_ok bl" and "unat inum < 1024" and "inode_ok ino"
  obtains bl' where "put_store bl inum buf ino = Inr bl'" and "bl_ok bl'" and "free_set bl' = free_set bl"
    and "\<And>b. b \<noteq> 9 + unat inum div 9 \<Longrightarrow> contents bl' b = contents bl b"
    and "\<And>j. j div 9 \<noteq> unat inum div 9 \<Longrightarrow> inode_at bl' j = inode_at bl j"
    and "\<And>j. j div 9 = unat inum div 9 \<Longrightarrow>
      inode_at bl' j = (if j = unat inum then ino else decode_inode buf (inode_slot j))"
proof -
  let ?i = "unat inum" and ?id = "word_of_nat (9 + unat inum div 9) :: u32"
  let ?x = "encode_inode buf (inode_slot ?i) ino"
  note id = unat_IBLOCK [OF assms(2)] and rng = IBLOCK_range [OF assms(2)]
  have lt: "unat ?id < BLOCK_NUM" using id rng by (simp add: inode_blocks_def)
  obtain bl' where wr: "bl_write_block bl ?id ?x = Inr bl'"
    and new: "eq_upto 512 (contents bl' (9 + ?i div 9)) ?x"
    and frame: "\<forall>j. j \<noteq> 9 + ?i div 9 \<longrightarrow> contents bl' j = contents bl j"
    using bs.wr_ok [OF lt, of bl ?x] id by auto
  have "unat ?id \<notin> bitmap_blocks" using id inode_blocks_apart(1) [OF rng] by simp
  from bs.wr_frees [OF assms(1) this wr] have ok: "bl_ok bl'" "free_set bl' = free_set bl" by auto
  show thesis
  proof (rule that [OF _ ok])
    show "put_store bl inum buf ino = Inr bl'"
      using wr bl_ok_nblocks [OF assms(1)] by (simp add: put_store_def inode_block_def)
    show "inode_at bl' j = inode_at bl j" if "j div 9 \<noteq> ?i div 9" for j
      using frame that by (simp add: inode_at_def)
    show "inode_at bl' j = (if j = ?i then ino else decode_inode buf (inode_slot j))" if j: "j div 9 = ?i div 9" for j
    proof -
      have "inode_at bl' j = decode_inode ?x (inode_slot j)"
        using eq_uptoD [OF new] inode_slot_fits [of j] j by (auto simp: inode_at_def intro!: decode_inode_cong)
      then show ?thesis
        using decode_encode_same [OF assms(3)] decode_encode_other [OF assms(3)] inode_slots_apart [OF j] by metis
    qed
  qed (use frame in simp)
qed

subsection \<open>Inodes of different blocks\<close>

text \<open>
  What holds of the disk \<open>bl\<close> while the threads \<open>ts\<close> run, \<open>bl0\<close> being the disk at the start: a
  thread between its two accesses has the block as it is now, a finished thread's inode is
  stored, and inodes that no thread stores are as at the start.
\<close>

definition thread_ok :: "block_layer \<Rightarrow> u32 \<times> inode \<times> put_pc \<Rightarrow> bool" where
  "thread_ok bl t \<longleftrightarrow>
     (case t of (inum, ino, pc) \<Rightarrow> unat inum < 1024 \<and> inode_ok ino \<and>
       (case pc of
          Fetch \<Rightarrow> True
        | Store buf \<Rightarrow> eq_upto 512 buf (contents bl (9 + unat inum div 9))
        | Stored \<Rightarrow> inode_at bl (unat inum) = ino))"

definition blk_of :: "u32 \<times> inode \<times> put_pc \<Rightarrow> nat" where
  "blk_of t = unat (fst t) div 9"

definition puts_inv :: "block_layer \<Rightarrow> (u32 \<times> inode \<times> put_pc) list \<Rightarrow> fault + block_layer \<Rightarrow> bool" where
  "puts_inv bl0 ts x \<longleftrightarrow>
     (\<exists>bl. x = Inr bl \<and> bl_ok bl \<and> free_set bl = free_set bl0 \<and> list_all (thread_ok bl) ts \<and> distinct (map blk_of ts) \<and>
        (\<forall>j<1024. j \<notin> unat ` fst ` set ts \<longrightarrow> inode_at bl j = inode_at bl0 j) \<and>
        (\<forall>b. b \<notin> inode_blocks \<longrightarrow> contents bl b = contents bl0 b))"

lemma thread_ok_other:
  assumes "thread_ok bl t" and "blk_of t \<noteq> n" and "\<And>b. b \<noteq> 9 + n \<Longrightarrow> contents bl' b = contents bl b"
  shows "thread_ok bl' t"
proof -
  obtain inum ino pc where t: "t = (inum, ino, pc)" by (cases t)
  have "contents bl' (9 + unat inum div 9) = contents bl (9 + unat inum div 9)"
    using assms(2,3) t by (simp add: blk_of_def)
  then show ?thesis using assms(1) t by (auto simp: thread_ok_def inode_at_def split: put_pc.splits)
qed

lemma puts_inv_update:
  assumes inv: "puts_inv bl0 ts (Inr bl)" and k: "k < length ts" and same: "fst t' = fst (ts ! k)"
    and bl': "bl_ok bl'" "free_set bl' = free_set bl" "\<And>b. b \<noteq> 9 + blk_of (ts ! k) \<Longrightarrow> contents bl' b = contents bl b"
    and new: "thread_ok bl' t'"
    and others: "\<And>j. j < 1024 \<Longrightarrow> j \<noteq> unat (fst (ts ! k)) \<Longrightarrow> inode_at bl' j = inode_at bl j"
  shows "puts_inv bl0 (ts[k := t']) (Inr bl')"
proof -
  have i: "free_set bl = free_set bl0" "list_all (thread_ok bl) ts" "distinct (map blk_of ts)"
      "\<forall>j<1024. j \<notin> unat ` fst ` set ts \<longrightarrow> inode_at bl j = inode_at bl0 j"
      "\<forall>b. b \<notin> inode_blocks \<longrightarrow> contents bl b = contents bl0 b"
    using inv by (auto simp: puts_inv_def)
  have "list_all (thread_ok bl') (ts[k := t'])"
    unfolding list_all_length
  proof (intro allI impI)
    fix j assume j: "j < length (ts[k := t'])"
    show "thread_ok bl' (ts[k := t'] ! j)"
    proof (cases "j = k")
      case False
      then have "blk_of (ts ! j) \<noteq> blk_of (ts ! k)" using i(3) j k by (simp add: distinct_conv_nth)
      then show ?thesis
        using thread_ok_other [OF _ _ bl'(3)] i(2) j False by (simp add: list_all_length)
    qed (use new k in simp)
  qed
  moreover have fst_eq: "map fst (ts[k := t']) = map fst ts" using same k by (simp add: map_update list_update_same_conv)
  moreover have "blk_of t' = blk_of (ts ! k)" using same by (simp add: blk_of_def)
  then have "map blk_of (ts[k := t']) = map blk_of ts" using k by (simp add: map_update list_update_same_conv)
  moreover have "fst ` set (ts[k := t']) = fst ` set ts" using arg_cong [OF fst_eq, of set] by (simp only: list.set_map)
  moreover have "ts ! k \<in> set ts" using k by simp
  then have "unat (fst (ts ! k)) \<in> unat ` fst ` set ts" by blast
  then have "\<forall>j<1024. j \<notin> unat ` fst ` set ts \<longrightarrow> inode_at bl' j = inode_at bl0 j" using others i(4) by metis
  moreover have "unat (fst (ts ! k)) < 1024"
    using i(2) k by (cases "ts ! k") (auto simp: list_all_length thread_ok_def dest!: spec [of _ k])
  then have "9 + blk_of (ts ! k) \<in> inode_blocks" unfolding blk_of_def by (rule IBLOCK_range)
  then have "\<forall>b. b \<notin> inode_blocks \<longrightarrow> contents bl' b = contents bl0 b" using bl'(3) i(5) by metis
  ultimately show ?thesis using bl'(1,2) i(1,3) by (simp add: puts_inv_def)
qed

lemma puts_step:
  assumes inv: "puts_inv bl0 ts x" and st: "interleave put_act (ts, x) (ts', x')"
  shows "puts_inv bl0 ts' x'" and "map (\<lambda>t. (fst t, fst (snd t))) ts' = map (\<lambda>t. (fst t, fst (snd t))) ts"
proof -
  obtain k t' where k: "k < length ts" "put_act (ts ! k) x (t', x')" "ts' = ts[k := t']"
    using st by (auto elim: interleaveE)
  obtain bl where x: "x = Inr bl" and ok: "bl_ok bl" "list_all (thread_ok bl) ts" using inv by (auto simp: puts_inv_def)
  obtain inum ino pc where t: "ts ! k = (inum, ino, pc)" by (cases "ts ! k")
  have th: "thread_ok bl (inum, ino, pc)" using ok(2) k(1) t by (simp add: list_all_length) metis
  then have i: "unat inum < 1024" "inode_ok ino" by (auto simp: thread_ok_def)
  note up = puts_inv_update [OF inv [unfolded x] k(1)]
  have "put_act (inum, ino, pc) (Inr bl) (t', x')" using k(2) t x by simp
  then have "puts_inv bl0 (ts[k := t']) x' \<and> fst t' = inum \<and> fst (snd t') = ino"
  proof (cases rule: put_act.cases)
    case (fetch stk buf)
    then have "eq_upto 512 buf (contents bl (9 + unat inum div 9))" using put_fetch_ok [OF ok(1) i(1), of stk] by auto
    then show ?thesis using fetch i t ok(1) up [of t' bl] by (auto simp: thread_ok_def)
  next
    case (fetch_fault stk f)
    then show ?thesis using put_fetch_ok [OF ok(1) i(1), of stk] by auto
  next
    case (store buf bl')
    have buf: "eq_upto 512 buf (contents bl (9 + unat inum div 9))" using th store by (simp add: thread_ok_def)
    obtain b1 where b1: "put_store bl inum buf ino = Inr b1" "bl_ok b1" "free_set b1 = free_set bl"
        "\<And>b. b \<noteq> 9 + unat inum div 9 \<Longrightarrow> contents b1 b = contents bl b"
        "\<And>j. j div 9 \<noteq> unat inum div 9 \<Longrightarrow> inode_at b1 j = inode_at bl j"
        "\<And>j. j div 9 = unat inum div 9 \<Longrightarrow>
          inode_at b1 j = (if j = unat inum then ino else decode_inode buf (inode_slot j))"
      by (rule put_store_ok [OF ok(1) i, of buf]) (rule that)
    have "inode_at b1 j = inode_at bl j" if "j \<noteq> unat inum" for j
    proof (cases "j div 9 = unat inum div 9")
      case True
      have "decode_inode buf (inode_slot j) = inode_at bl j"
        using eq_uptoD [OF buf] inode_slot_fits [of j] True by (auto simp: inode_at_def intro!: decode_inode_cong)
      with b1(6) [OF True] that show ?thesis by simp
    qed (rule b1(5))
    then show ?thesis
      using store t b1(1-4) b1(6) [OF refl] i up [of t' b1] by (auto simp: thread_ok_def blk_of_def)
  next
    case (store_fault buf f)
    then show ?thesis using put_store_ok [OF ok(1) i, of buf] by auto
  qed
  then show "puts_inv bl0 ts' x'" "map (\<lambda>t. (fst t, fst (snd t))) ts' = map (\<lambda>t. (fst t, fst (snd t))) ts"
    using k(1,3) t by (simp_all add: map_update list_update_same_conv)
qed

text \<open>Every run of the threads keeps the invariant.\<close>

lemma puts_run:
  assumes "(interleave put_act)\<^sup>*\<^sup>* (ts, x) (ts', x')" and "puts_inv bl0 ts x"
  shows "puts_inv bl0 ts' x' \<and> map (\<lambda>t. (fst t, fst (snd t))) ts' = map (\<lambda>t. (fst t, fst (snd t))) ts"
  using assms
proof (induction rule: rtranclp_induct2)
  case (step ts1 x1 ts2 x2)
  with puts_step [of bl0 ts1 x1 ts2 x2] show ?case by simp
qed simp

text \<open>The schedule in which two threads read before either writes.\<close>

lemma overlapped_puts:
  assumes "bl_ok bl" and "unat i < 1024" and "unat j < 1024" and "inode_ok ino_i" and "inode_ok ino_j"
  obtains bj bl1 bl2 where "joined put_act put_done [(i, ino_i, Fetch), (j, ino_j, Fetch)] (Inr bl) (Inr bl2)"
    and "eq_upto 512 bj (contents bl (9 + unat j div 9))" and "bl_ok bl1" and "put_store bl1 j bj ino_j = Inr bl2"
proof -
  obtain bi where bi: "put_fetch stk bl i = Inr bi" using put_fetch_ok [OF assms(1,2)] by metis
  obtain bj where bj: "put_fetch stk bl j = Inr bj" "eq_upto 512 bj (contents bl (9 + unat j div 9))"
    using put_fetch_ok [OF assms(1,3)] by metis
  obtain bl1 where bl1: "put_store bl i bi ino_i = Inr bl1" "bl_ok bl1"
    using put_store_ok [OF assms(1,2,4)] by metis
  obtain bl2 where bl2: "put_store bl1 j bj ino_j = Inr bl2"
    using put_store_ok [OF bl1(2) assms(3,5), of bj] by metis
  let ?F = "\<lambda>pi pj x. ([(i, ino_i, pi), (j, ino_j, pj)], x :: fault + block_layer)"
  have "interleave put_act (?F Fetch Fetch (Inr bl)) (?F (Store bi) Fetch (Inr bl))"
    using interleave.move [of 0 "[(i, ino_i, Fetch), (j, ino_j, Fetch)]" put_act] put_act.fetch [OF bi] by simp
  moreover have "interleave put_act (?F (Store bi) Fetch (Inr bl)) (?F (Store bi) (Store bj) (Inr bl))"
    using interleave.move [of 1 "[(i, ino_i, Store bi), (j, ino_j, Fetch)]" put_act] put_act.fetch [OF bj(1)] by simp
  moreover have "interleave put_act (?F (Store bi) (Store bj) (Inr bl)) (?F Stored (Store bj) (Inr bl1))"
    using interleave.move [of 0 "[(i, ino_i, Store bi), (j, ino_j, Store bj)]" put_act] put_act.store [OF bl1(1)] by simp
  moreover have "interleave put_act (?F Stored (Store bj) (Inr bl1)) (?F Stored Stored (Inr bl2))"
    using interleave.move [of 1 "[(i, ino_i, Stored), (j, ino_j, Store bj)]" put_act] put_act.store [OF bl2] by simp
  ultimately have "(interleave put_act)\<^sup>*\<^sup>* (?F Fetch Fetch (Inr bl)) (?F Stored Stored (Inr bl2))"
    by (meson converse_rtranclp_into_rtranclp rtranclp.rtrancl_refl)
  then have "joined put_act put_done [(i, ino_i, Fetch), (j, ino_j, Fetch)] (Inr bl) (Inr bl2)"
    unfolding joined_def by (intro exI conjI) (auto simp: put_done_def)
  then show thesis by (rule that [OF _ bj(2) bl1(2) bl2])
qed

subsection \<open>Threads that allocate\<close>

text \<open>
  A thread in \<open>alloc_inode\<close>: at the look-up of inode \<open>x\<close>, or in the \<open>put_inode\<close> of the number it
  found. Every look-up is a step, and so are the two accesses of \<open>put_inode\<close>.
\<close>

datatype alloc_pc = Search nat | Putting nat put_pc

type_synonym alloc_thread = "(u64 \<times> u64 \<times> u64) \<times> u32 \<times> alloc_pc"

inductive alloc_act ::
    "alloc_thread \<Rightarrow> fault + block_layer \<Rightarrow> alloc_thread \<times> (fault + block_layer) \<Rightarrow> bool" where
  used: "x < INODE_NUM \<Longrightarrow> get_inode stk bl (word_of_nat x) = Inr (Some ino) \<Longrightarrow>
    alloc_act (tm, ty, Search x) (Inr bl) ((tm, ty, Search (x + 1)), Inr bl)"
| free: "x < INODE_NUM \<Longrightarrow> get_inode stk bl (word_of_nat x) = Inr None \<Longrightarrow>
    alloc_act (tm, ty, Search x) (Inr bl) ((tm, ty, Putting x Fetch), Inr bl)"
| look_fault: "x < INODE_NUM \<Longrightarrow> get_inode stk bl (word_of_nat x) = Inl f \<Longrightarrow>
    alloc_act (tm, ty, Search x) (Inr bl) ((tm, ty, Search x), Inl f)"
| full: "\<not> x < INODE_NUM \<Longrightarrow> alloc_act (tm, ty, Search x) (Inr bl) ((tm, ty, Putting 0 Fetch), Inr bl)"
| put: "put_act (word_of_nat m, new_inode tm ty, pc) (Inr bl) ((inum, ino, pc'), s') \<Longrightarrow>
    alloc_act (tm, ty, Putting m pc) (Inr bl) ((tm, ty, Putting m pc'), s')"

abbreviation alloc_run :: "alloc_thread \<times> (fault + block_layer) \<Rightarrow> alloc_thread \<times> (fault + block_layer) \<Rightarrow> bool" where
  "alloc_run \<equiv> (\<lambda>(t, s). alloc_act t s)\<^sup>*\<^sup>*"

definition alloc_done :: "alloc_thread \<Rightarrow> bool" where
  "alloc_done t \<longleftrightarrow> (\<exists>m. snd (snd t) = Putting m Stored)"

lemma alloc_run_step: "alloc_act t s p \<Longrightarrow> alloc_run p q \<Longrightarrow> alloc_run (t, s) q"
  by (rule converse_rtranclp_into_rtranclp) simp_all

lemma search_run:
  assumes "find_free_inode stk bl x = Inr m"
  shows "alloc_run ((tm, ty, Search x), Inr bl) ((tm, ty, Putting m Fetch), Inr bl)"
  using assms
proof (induction stk bl x rule: find_free_inode.induct)
  case (1 stk bl x)
  show ?case
  proof (cases "x < INODE_NUM")
    case False
    with "1.prems" have "m = 0" by (subst (asm) find_free_inode.simps) simp
    with alloc_run_step [OF alloc_act.full [OF False]] show ?thesis by simp
  next
    case True
    with "1.prems" obtain r where r: "get_inode stk bl (word_of_nat x) = Inr r"
        "(if r = None then Inr x else find_free_inode stk bl (x + 1)) = Inr m"
      by (subst (asm) find_free_inode.simps) (auto simp: rbind_Inr_iff)
    show ?thesis
    proof (cases r)
      case None
      with r have "alloc_act (tm, ty, Search x) (Inr bl) ((tm, ty, Putting m Fetch), Inr bl)"
        using alloc_act.free [OF True] by simp
      then show ?thesis by (rule alloc_run_step) simp
    next
      case (Some ino)
      with r have "alloc_act (tm, ty, Search x) (Inr bl) ((tm, ty, Search (x + 1)), Inr bl)"
        using alloc_act.used [OF True] by simp
      moreover have "alloc_run ((tm, ty, Search (x + 1)), Inr bl) ((tm, ty, Putting m Fetch), Inr bl)"
        using "1.IH" [OF True, of r] r Some by simp
      ultimately show ?thesis by (rule alloc_run_step)
    qed
  qed
qed

lemma putting_run:
  assumes "put_inode stk bl (word_of_nat m) (Some (new_inode tm ty)) = Inr bl'" and "m < 1024"
  shows "alloc_run ((tm, ty, Putting m Fetch), Inr bl) ((tm, ty, Putting m Stored), Inr bl')"
proof -
  let ?T = "\<lambda>pc. (tm, ty, Putting m pc)"
  obtain buf where buf: "put_fetch stk bl (word_of_nat m) = Inr buf"
      "put_store bl (word_of_nat m) buf (new_inode tm ty) = Inr bl'"
    using assms put_inode_split [of "word_of_nat m" stk bl] by (auto simp: rbind_Inr_iff)
  have "alloc_act (?T Fetch) (Inr bl) (?T (Store buf), Inr bl)" by (rule alloc_act.put [OF put_act.fetch [OF buf(1)]])
  moreover have "alloc_act (?T (Store buf)) (Inr bl) (?T Stored, Inr bl')"
    by (rule alloc_act.put [OF put_act.store [OF buf(2)]])
  then have "alloc_run (?T (Store buf), Inr bl) (?T Stored, Inr bl')" by (rule alloc_run_step) simp
  ultimately show ?thesis by (rule alloc_run_step)
qed

text \<open>The calls of \<open>alloc_inode\<close> by one thread are runs of the system.\<close>

lemma alloc_inode_run:
  assumes "bl_ok bl" and "alloc_inode stk tm bl ty = Inr (r, bl')"
  shows "\<exists>m. r = word_of_nat m \<and> alloc_run ((tm, ty, Search 0), Inr bl) ((tm, ty, Putting m Stored), Inr bl')"
proof -
  obtain m where m: "find_free_inode stk bl 0 = Inr m" "m < 1024"
    using find_free_inode_bound [OF assms(1)] by metis
  with assms(2) have "r = word_of_nat m" "put_inode stk bl (word_of_nat m) (Some (new_inode tm ty)) = Inr bl'"
    by (auto simp: alloc_inode_def rbind_Inr_iff)
  with search_run [OF m(1)] putting_run [OF _ m(2)] show ?thesis by (blast intro: rtranclp_trans)
qed

subsection \<open>Properties\<close>

text \<open>
  C28: Threads that store inodes of pairwise different blocks do not disturb each other: when they
  have all finished, under whatever schedule, every inode is stored, all other inodes are as
  before, and no thread has met a fault.
\<close>

theorem disjoint_puts_all_stored:
  assumes "bl_ok bl" and "distinct (map (\<lambda>(inum, ino). unat inum div 9) jobs)"
    and "\<forall>(inum, ino) \<in> set jobs. unat inum < 1024 \<and> inode_ok ino"
    and "joined put_act put_done (map (\<lambda>(inum, ino). (inum, ino, Fetch)) jobs) (Inr bl) x"
  shows "\<exists>bl'. x = Inr bl' \<and> bl_ok bl' \<and> (\<forall>(inum, ino) \<in> set jobs. inode_at bl' (unat inum) = ino) \<and>
    (\<forall>j<1024. j \<notin> unat ` fst ` set jobs \<longrightarrow> inode_at bl' j = inode_at bl j)"
proof -
  let ?ts = "map (\<lambda>(inum, ino). (inum, ino, Fetch)) jobs"
  have fsts: "fst ` set ?ts = fst ` set jobs" by force
  have "map blk_of ?ts = map (\<lambda>(inum, ino). unat inum div 9) jobs" by (auto simp: blk_of_def)
  then have "distinct (map blk_of ?ts)" by (simp only: assms(2))
  moreover have "list_all (thread_ok bl) ?ts" using assms(3) by (auto simp: list_all_iff thread_ok_def)
  ultimately have inv: "puts_inv bl ?ts (Inr bl)" using assms(1) unfolding puts_inv_def by blast
  obtain ts' where run: "(interleave put_act)\<^sup>*\<^sup>* (?ts, Inr bl) (ts', x)" "list_all put_done ts'"
    using assms(4) by (auto simp: joined_def)
  note res = puts_run [OF run(1) inv]
  then obtain bl' where x: "x = Inr bl'" "bl_ok bl'" "list_all (thread_ok bl') ts'"
      "\<forall>j<1024. j \<notin> unat ` fst ` set ts' \<longrightarrow> inode_at bl' j = inode_at bl j"
    by (auto simp: puts_inv_def)
  have jobs: "map (\<lambda>t. (fst t, fst (snd t))) ts' = jobs" using res by (simp add: comp_def case_prod_beta)
  then have "fst ` set ts' = fst ` set jobs" by force
  moreover have "inode_at bl' (unat inum) = ino" if job: "(inum, ino) \<in> set jobs" for inum ino
  proof -
    have "(inum, ino) \<in> (\<lambda>t. (fst t, fst (snd t))) ` set ts'" using job unfolding jobs [symmetric] list.set_map .
    then obtain t where t: "t \<in> set ts'" "fst t = inum" "fst (snd t) = ino" by auto
    then have "thread_ok bl' t" "put_done t" using x(3) run(2) by (auto simp: list_all_iff)
    with t(2,3) show ?thesis by (auto simp: thread_ok_def put_done_def split: prod.splits)
  qed
  ultimately show ?thesis using x by auto
qed

theorem disjoint_puts_all_stored_witness:
  "\<exists>bl'. joined put_act put_done [(0, new_inode (1, 2, 3) 1, Fetch), (9, new_inode (4, 5, 6) 2, Fetch)]
       (Inr (new_block_layer False)) (Inr bl') \<and>
     inode_at bl' 0 = new_inode (1, 2, 3) 1 \<and> inode_at bl' 9 = new_inode (4, 5, 6) 2 \<and>
     inode_at bl' 5 = inode_at (new_block_layer False) 5"
proof -
  let ?jobs = "[(0, new_inode (1, 2, 3) 1), (9, new_inode (4, 5, 6) 2)] :: (u32 \<times> inode) list"
  obtain bl' where j: "joined put_act put_done [(0, new_inode (1, 2, 3) 1, Fetch), (9, new_inode (4, 5, 6) 2, Fetch)]
      (Inr (new_block_layer False)) (Inr bl')"
    by (rule overlapped_puts [OF new_block_layer_facts(1) _ _ new_inode_ok new_inode_ok,
          of 0 9 "(1, 2, 3)" 1 "(4, 5, 6)" 2]) (simp, simp, rule that)
  have "\<forall>(inum, ino) \<in> set ?jobs. unat inum < 1024 \<and> inode_ok ino" by (simp add: new_inode_ok)
  with disjoint_puts_all_stored [OF new_block_layer_facts(1), of ?jobs "Inr bl'"] j
  show ?thesis by auto
qed

text \<open>
  C29: Two threads that store two inodes of one block can lose an update: when both read the block
  before either writes it, both calls return and the first inode has its old contents.
\<close>

theorem put_inode_lost_update:
  assumes "bl_ok bl" and "unat i < 1024" and "unat j < 1024" and "unat i div 9 = unat j div 9" and "i \<noteq> j"
    and "inode_ok ino_i" and "inode_ok ino_j"
  shows "\<exists>bl'. joined put_act put_done [(i, ino_i, Fetch), (j, ino_j, Fetch)] (Inr bl) (Inr bl') \<and>
    inode_at bl' (unat j) = ino_j \<and> inode_at bl' (unat i) = inode_at bl (unat i)"
proof -
  obtain bj bl1 bl2 where run: "joined put_act put_done [(i, ino_i, Fetch), (j, ino_j, Fetch)] (Inr bl) (Inr bl2)"
      "eq_upto 512 bj (contents bl (9 + unat j div 9))" "bl_ok bl1" "put_store bl1 j bj ino_j = Inr bl2"
    by (rule overlapped_puts [OF assms(1-3,6,7)]) (rule that)
  have at: "inode_at bl2 k = (if k = unat j then ino_j else decode_inode bj (inode_slot k))" if "k div 9 = unat j div 9" for k
    using put_store_ok [OF run(3) assms(3,7), of bj] run(4) that by (metis sum.inject(2))
  have "unat i \<noteq> unat j" using assms(5) by (simp add: word_unat_eq_iff)
  moreover have "decode_inode bj (inode_slot (unat i)) = inode_at bl (unat i)"
    using eq_uptoD [OF run(2)] inode_slot_fits [of "unat i"] assms(4)
    by (auto simp: inode_at_def intro!: decode_inode_cong)
  ultimately show ?thesis using run(1) at assms(4) by auto
qed

theorem put_inode_lost_update_witness:
  "\<exists>bl'. joined put_act put_done [(1, new_inode (1, 2, 3) 1, Fetch), (2, new_inode (4, 5, 6) 2, Fetch)]
       (Inr (new_block_layer False)) (Inr bl') \<and>
     inode_at bl' 2 = new_inode (4, 5, 6) 2 \<and> \<not> in_use bl' 1"
proof -
  have "\<not> in_use (new_block_layer False) 1" using new_block_layer_facts(4) by simp
  moreover have "unat (1 :: u32) < 1024" "unat (2 :: u32) < 1024" "unat (1 :: u32) div 9 = unat (2 :: u32) div 9" "(1 :: u32) \<noteq> 2"
    by simp_all
  note put_inode_lost_update [OF new_block_layer_facts(1) this new_inode_ok new_inode_ok, of "(1, 2, 3)" 1 "(4, 5, 6)" 2]
  ultimately show ?thesis by (auto simp: in_use_def)
qed

text \<open>
  C30: Two threads that create a file can be given the same inode: as \<open>alloc_inode\<close> holds no lock, a
  thread that has found the lowest unused number \<open>m\<close> can be overtaken by a whole call of another
  thread. Both calls end with \<open>m\<close> as their result and only the inode of the overtaken call remains.
\<close>

theorem create_race:
  assumes "bl_ok bl" and "y < 1024" and "\<not> in_use bl y"
  shows "\<exists>m bl'. \<not> in_use bl m \<and> (\<forall>z<m. in_use bl z) \<and>
    (interleave alloc_act)\<^sup>*\<^sup>* ([(tm, ty, Search 0), (tm', ty', Search 0)], Inr bl)
      ([(tm, ty, Putting m Stored), (tm', ty', Putting m Stored)], Inr bl') \<and>
    bl_ok bl' \<and> (\<forall>j<1024. inode_at bl' j = (if j = m then new_inode tm ty else inode_at bl j))"
proof -
  obtain m where m: "find_free_inode stk bl 0 = Inr m" "m < 1024" "\<not> in_use bl m" "\<forall>z<m. in_use bl z"
    using find_free_inode_bound [OF assms(1)] assms(2,3) by metis
  then have u: "unat (word_of_nat m :: u32) = m" "unat (word_of_nat m :: u32) < 1024" by simp_all
  obtain b1 where b1: "put_inode stk bl (word_of_nat m) (Some (new_inode tm' ty')) = Inr b1" "bl_ok b1"
      "\<forall>j<1024. inode_at b1 j = (if j = m then new_inode tm' ty' else inode_at bl j)"
    using put_inode_spec [OF assms(1) u(2) new_inode_ok] u(1) by metis
  obtain b2 where b2: "put_inode stk b1 (word_of_nat m) (Some (new_inode tm ty)) = Inr b2" "bl_ok b2"
      "\<forall>j<1024. inode_at b2 j = (if j = m then new_inode tm ty else inode_at b1 j)"
    using put_inode_spec [OF b1(2) u(2) new_inode_ok] u(1) by metis
  let ?c = "\<lambda>p q s. ([(tm, ty, p), (tm', ty', q)], s :: fault + block_layer)"
  have "(interleave alloc_act)\<^sup>*\<^sup>* (?c (Search 0) (Search 0) (Inr bl)) (?c (Putting m Fetch) (Search 0) (Inr bl))"
    using interleave_thread [OF search_run [OF m(1)], of 0 "[_, (tm', ty', Search 0)]" tm ty] by simp
  also have "(interleave alloc_act)\<^sup>*\<^sup>* \<dots> (?c (Putting m Fetch) (Putting m Fetch) (Inr bl))"
    using interleave_thread [OF search_run [OF m(1)], of 1 "[(tm, ty, Putting m Fetch), _]" tm' ty'] by simp
  also have "(interleave alloc_act)\<^sup>*\<^sup>* \<dots> (?c (Putting m Fetch) (Putting m Stored) (Inr b1))"
    using interleave_thread [OF putting_run [OF b1(1) m(2)], of 1 "[(tm, ty, Putting m Fetch), _]"] by simp
  also have "(interleave alloc_act)\<^sup>*\<^sup>* \<dots> (?c (Putting m Stored) (Putting m Stored) (Inr b2))"
    using interleave_thread [OF putting_run [OF b2(1) m(2)], of 0 "[_, (tm', ty', Putting m Stored)]"] by simp
  finally show ?thesis using m(3,4) b1(3) b2(2,3) by (intro exI [of _ m] exI [of _ b2]) auto
qed

theorem create_race_witness:
  "\<exists>bl'. (interleave alloc_act)\<^sup>*\<^sup>*
       ([((1, 2, 3), 2, Search 0), ((4, 5, 6), 1, Search 0)], Inr (new_block_layer False))
       ([((1, 2, 3), 2, Putting 0 Stored), ((4, 5, 6), 1, Putting 0 Stored)], Inr bl') \<and>
     inode_at bl' 0 = new_inode (1, 2, 3) 2"
proof -
  obtain m bl' where r: "\<forall>z<m. in_use (new_block_layer False) z"
      "(interleave alloc_act)\<^sup>*\<^sup>*
         ([((1, 2, 3), 2, Search 0), ((4, 5, 6), 1, Search 0)], Inr (new_block_layer False))
         ([((1, 2, 3), 2, Putting m Stored), ((4, 5, 6), 1, Putting m Stored)], Inr bl')"
      "\<forall>j<1024. inode_at bl' j = (if j = m then new_inode (1, 2, 3) 2 else inode_at (new_block_layer False) j)"
    using create_race [OF new_block_layer_facts(1), of 0 "(1, 2, 3)" 2 "(4, 5, 6)" 1]
      new_block_layer_facts(4) by auto
  from r(1) new_block_layer_facts(4) have "m = 0" by blast
  with r show ?thesis by auto
qed

end
