(* ===== verification/Fs_Damage.thy ===== *)
theory Fs_Damage
  imports Fs_Runs Inode_Races
begin

text \<open>
  What happens outside the clean calls, on runs of ordinary calls that return \<open>OK\<close>. Here an empty
  \<open>put\<close> leaves pointers to released blocks, so that a later \<open>put\<close> to the same file releases a block
  of another one. The lemmas on small files are shared with \<open>Fs_Overwrite\<close> and \<open>Fs_Full\<close>.
\<close>

subsection \<open>Client calls as calls of the inode layer\<close>

abbreviation client_of :: "inode_layer \<Rightarrow> fs_client" where
  "client_of il \<equiv> \<lparr>es = \<lparr>im = il\<rparr>\<rparr>"

lemma client_put_il:
  assumes "write_file stk t il (inum_of fid) (c_str s) (int (length s)) = Inr il'" and "length s < 2 ^ 31"
  shows "client_put stk t (client_of il) fid s = Inr (OK, client_of il')"
  using assms by (simp add: client_put_def server_put_def int_size_small)

lemma client_create_il:
  assumes "alloc_inode stk ts (il_bm il) ty = Inr (inum, bl)"
  shows "client_create stk ts (client_of il) ty = Inr (OK, ucast inum, client_of (il\<lparr>il_bm := bl\<rparr>))"
  using assms by (simp add: client_create_def server_create_def)

lemma client_get_il:
  assumes "read_file stk t now il (inum_of fid) (Some None) (Some 0) = Inr (Some (Some buf), Some (int n), il')"
  shows "client_get stk t now (client_of il) fid = Inr (OK, map buf [0..<n], client_of il')"
  using assms by (auto simp: client_get_def server_get_def Let_def)

subsection \<open>Files of at most one block\<close>

text \<open>
  A write of one block takes the lowest block that is free once the old direct blocks are
  released; an empty write takes none. Neither clears a pointer it does not use.
\<close>

lemma write_loop_one:
  assumes "bl_ok bl0" and "free_set bl0 \<noteq> {}" and "length (i_blocks ino) = 9" and "0 < s" and "s \<le> 512"
    and "write_loop stk buf (int s) old (start_write stk bl0 ino (int s)) = Inr w"
  shows "i_blocks (w_ino w) ! 0 = word_of_nat (Min (free_set bl0))"
proof -
  let ?w = "start_write stk bl0 ino (int s)"
  obtain bl1 where "alloc_block (stk Scratch) bl0 = Inr (word_of_nat (Min (free_set bl0)), bl1)"
    using alloc_block_spec [OF assms(1,2), of "stk Scratch"] by blast
  moreover obtain w1 where w1: "write_body stk buf (int s) old ?w = Inr w1" "write_loop stk buf (int s) old w1 = Inr w"
    using assms(4,6) by (subst (asm) write_loop.simps) (auto simp: start_write_def rbind_Inr_iff)
  ultimately have p: "i_blocks (w_ino w1) ! 0 = word_of_nat (Min (free_set bl0))"
    using assms(3) by (auto simp: write_body_def write_direct_def start_write_def advance_def Let_def rbind_Inr_iff)
  have "remaining_bytes_to_write w1 \<le> 0"
    using write_body_rem [OF w1(1)] assms(5) by (simp add: start_write_def)
  then have "w1 = w" using w1(2) by (subst (asm) write_loop.simps) simp
  with p show ?thesis by simp
qed

text \<open>A file of at most one block, with the pointer \<open>p\<close>.\<close>

definition slim :: "block_layer \<Rightarrow> nat \<Rightarrow> nat \<Rightarrow> nat \<Rightarrow> bool" where
  "slim bl i p n \<longleftrightarrow> in_use bl i \<and> p < 32768 \<and> n \<le> 512 \<and> file_size (inode_at bl i) = n \<and>
     i_blocks (inode_at bl i) = word_of_nat p # replicate 8 0"

lemma slim_pointers:
  assumes "slim bl i p n"
  shows "pointers_ok (inode_at bl i)" and "direct_blocks (inode_at bl i) = {p} \<inter> data_blocks"
    and "length (i_blocks (inode_at bl i)) = 9" and "i < 1024"
proof -
  have b: "i_blocks (inode_at bl i) = word_of_nat p # replicate 8 0" and p: "p < 32768"
    using assms by (auto simp: slim_def)
  have u: "unat (word_of_nat p :: u32) = p" using p by (intro unat_of_nat32) simp
  show "pointers_ok (inode_at bl i)" using b u p by (simp add: pointers_ok_def inode_ok_def del: replicate.simps)
  show "direct_blocks (inode_at bl i) = {p} \<inter> data_blocks"
    using b u by (auto simp: direct_blocks_def data_blocks_def)
  show "length (i_blocks (inode_at bl i)) = 9" "i < 1024" using b assms by (simp_all add: slim_def in_use_def)
qed

lemma one_pointer:
  assumes "length bs = 9" and "bs ! 0 = q" and "\<And>k. k < 9 \<Longrightarrow> 0 < k \<Longrightarrow> bs ! k = 0"
  shows "bs = q # replicate 8 0"
  using assms by (intro nth_equalityI) (auto simp: nth_Cons' less_Suc_eq_0_disj)

text \<open>The pointers after the loop: the first is that of the new block, or the old one if nothing is written.\<close>

lemma slim_pointer_kept:
  assumes slim: "i_blocks ino = word_of_nat p # replicate 8 0" and s: "s \<le> 512" and len: "length (i_blocks ino') = 9"
    and first: "s > 0 \<Longrightarrow> i_blocks ino' ! 0 = word_of_nat (Min F)" and q: "q = (if s = 0 then p else Min F)"
    and stale: "\<And>k. k < 9 \<Longrightarrow> nblk s \<le> k \<Longrightarrow> i_blocks ino' ! k = i_blocks ino ! k"
  shows "i_blocks ino' = word_of_nat q # replicate 8 0"
proof (rule one_pointer [OF len])
  show "i_blocks ino' ! 0 = word_of_nat q"
    using first stale [of 0] slim q by (cases "s = 0") (simp_all add: nblk_def)
  show "i_blocks ino' ! k = 0" if "k < 9" "0 < k" for k
    using stale [of k] that s slim by (cases k) (auto simp: nblk_def nth_Cons')
qed

lemma write_slim_run:
  assumes ok: "bl_ok bl" and slim: "slim bl (unat inum) p n" and s: "s \<le> 512"
    and F: "F = free_set bl \<union> ({p} \<inter> data_blocks)" "F \<noteq> {}" and q: "q = (if s = 0 then p else Min F)"
  obtains bl' ids where "write_inode stk bl inum (inode_at bl (unat inum)) buf (int s) = Inr bl'"
    and "rewritten bl (unat inum) s buf bl'" and "i_blocks (inode_at bl' (unat inum)) = word_of_nat q # replicate 8 0"
    and "length ids = nblk s" and "set ids \<subseteq> F" and "free_set bl' = F - set ids"
    and "s > 0 \<Longrightarrow> word_of_nat (ids ! 0) = (word_of_nat q :: u32)"
proof -
  let ?i = "unat inum" and ?ino = "inode_at bl (unat inum)"
  note sp = slim_pointers [OF slim]
  have b: "i_blocks ?ino = word_of_nat p # replicate 8 0" and n: "file_size ?ino = n" "n \<le> 512"
    using slim by (auto simp: slim_def)
  have old: "sint (i_size ?ino) = int (file_size ?ino)" using n by (intro file_size_sint) simp
  have "\<And>b. b \<in> set (take 8 (i_blocks ?ino)) \<Longrightarrow> unat b < 32768"
    using sp(1) by (auto simp: pointers_ok_def dest: in_set_takeD)
  with free_direct_blocks_spec [OF ok, of "take 8 (i_blocks ?ino)" stk] sp(2) F(1)
  obtain bl0 where f: "free_direct_blocks stk bl (take 8 (i_blocks ?ino)) = Inr bl0" "bl_ok bl0" "free_set bl0 = F"
      "\<forall>j. j \<notin> bitmap_blocks \<longrightarrow> contents bl0 j = contents bl j"
    by (auto simp: direct_blocks_def)
  have "card F \<noteq> 0" using F f(3) finite_free_set [of bl0] by auto
  then have room: "blocks_needed s \<le> card (free_set bl0)" using s f(3) by (cases "s = 0") (simp_all add: blocks_needed_small)
  have sz: "fresh_write_ok (file_size ?ino) s" using s by (simp add: fresh_write_ok_def)
  obtain w bl1 ino' ids where loop: "write_loop stk buf (int s) (int (file_size ?ino))
        (start_write stk bl0 ?ino (int s)) = Inr w"
      "finish_write stk (int s) (int (file_size ?ino)) w = Inr (bl1, ino')"
    and wr: "written bl0 s buf bl1 ino'"
    and attr: "attr_of ino' = (attr_of ?ino)\<lparr>a_size := word_of_nat s\<rparr>"
    and blk: "\<And>k. k < nblk s \<Longrightarrow> file_block bl1 ino' k = word_of_nat (ids ! k)"
    and ids: "length ids = nblk s" "set ids \<subseteq> free_set bl0"
    and free: "free_set bl1 = (free_set bl0 - (set ids \<union> (if s > 4096 then {unat (i_blocks ino' ! 8)} else {}))) \<union>
           (if s \<le> 4096 then {unat (i_blocks ?ino ! 8)} \<inter> data_blocks else {})"
    and stale: "\<And>k. k < 9 \<Longrightarrow> nblk s \<le> k \<Longrightarrow> i_blocks ino' ! k = i_blocks ?ino ! k"
    by (rule write_finish_fresh [OF f(2) sp(1) sz room, of stk buf]) (rule that)
  obtain bl' where pt: "put_inode stk bl1 inum (Some ino') = Inr bl'" "bl_ok bl'"
      "inode_at bl' ?i = ino'" "readable bl' ino'" "file_size ino' = s"
      "\<And>i. i < s \<Longrightarrow> file_data bl' ino' i = buf i"
      "\<And>j. j < 1024 \<Longrightarrow> j \<noteq> ?i \<Longrightarrow> inode_at bl' j = inode_at bl j"
      "\<And>b. b \<in> data_blocks \<Longrightarrow> b \<notin> free_set bl0 \<Longrightarrow> contents bl' b = contents bl b"
      "free_set bl' = free_set bl1"
    by (rule store_written [OF wr sp(4) f(4), of stk]) (rule that)
  have len: "length (i_blocks ino') = 9" using wr by (simp add: written_def readable_def inode_ok_def)
  have "i_blocks ino' = i_blocks (w_ino w)" using loop(2) by (auto simp: finish_write_def rbind_Inr_iff)
  then have "i_blocks ino' ! 0 = word_of_nat (Min F)" if "s > 0"
    using write_loop_one [OF f(2) _ sp(3) _ s loop(1)] f(3) F(2) that by simp
  note ptr = slim_pointer_kept [OF b s len this q stale]
  moreover have "write_inode stk bl inum ?ino buf (int s) = Inr bl'"
    using f(1) loop pt(1) old by (simp add: write_inode_def)
  moreover have "rewritten bl ?i s buf bl'"
    using pt attr f(3) F(1) sp(2) by (simp add: rewritten_def)
  moreover have "free_set bl' = F - set ids" using free pt(9) s f(3) b by (auto simp: data_blocks_def)
  moreover have "word_of_nat (ids ! 0) = (word_of_nat q :: u32)" if "s > 0"
    using blk [of 0] that s ptr by (simp add: file_block_def nblk_def)
  ultimately show thesis using that ids f(3) pt(3) by blast
qed

lemma slim_write:
  assumes ok: "il_ok il" and slim: "slim (il_bm il) (unat inum) p n" and s: "s \<le> 512"
    and F: "F = free_set (il_bm il) \<union> ({p} \<inter> data_blocks)" "F \<noteq> {}" and q: "q = (if s = 0 then p else Min F)"
  obtains bl' where "write_file stk t il inum buf (int s) = Inr (il\<lparr>il_bm := bl'\<rparr>)"
    and "il_ok (il\<lparr>il_bm := bl'\<rparr>)" and "slim bl' (unat inum) q s"
    and "free_set bl' = F - (if s = 0 then {} else {q})"
    and "\<And>k. k < s \<Longrightarrow> contents bl' q k = buf k"
    and "\<And>j. j < 1024 \<Longrightarrow> j \<noteq> unat inum \<Longrightarrow> inode_at bl' j = inode_at (il_bm il) j"
proof -
  have bl: "bl_ok (il_bm il)" using ok by (simp add: il_ok_def)
  have use: "in_use (il_bm il) (unat inum)" using slim by (simp add: slim_def)
  obtain bl' ids where w: "write_inode stk (il_bm il) inum (inode_at (il_bm il) (unat inum)) buf (int s) = Inr bl'"
      "rewritten (il_bm il) (unat inum) s buf bl'" "i_blocks (inode_at bl' (unat inum)) = word_of_nat q # replicate 8 0"
      "length ids = nblk s" "set ids \<subseteq> F" "free_set bl' = F - set ids"
      "s > 0 \<Longrightarrow> word_of_nat (ids ! 0) = (word_of_nat q :: u32)"
    by (rule write_slim_run [OF bl slim s F q, of stk buf]) (rule that)
  have "F \<subseteq> data_blocks" using F(1) free_set_data by blast
  moreover have "Min F \<in> F" using F free_set_data finite_free_set by (intro Min_in) auto
  ultimately have lt: "q < 32768" "s > 0 \<Longrightarrow> q \<in> data_blocks"
    using q slim by (auto simp: slim_def data_blocks_def)
  have ids: "set ids = (if s = 0 then {} else {q})"
  proof (cases "s = 0")
    case False
    then have "length ids = Suc 0" using w(4) s by (simp add: nblk_def)
    then obtain x where x: "ids = [x]" by (auto simp: length_Suc_conv)
    then have "x \<in> data_blocks" using w(5) \<open>F \<subseteq> data_blocks\<close> by auto
    moreover have "word_of_nat x = (word_of_nat q :: u32)" "q \<in> data_blocks" using x w(7) False lt(2) by auto
    ultimately have "x = q" by (metis word_of_nat_data)
    with x False show ?thesis by simp
  qed (use w(4) in \<open>simp add: nblk_def\<close>)
  have u: "unat (word_of_nat q :: u32) = q" using lt(1) by (intro unat_of_nat32) simp
  have r: "bl_ok bl'" "file_size (inode_at bl' (unat inum)) = s"
      "\<forall>k. k < s \<longrightarrow> file_data bl' (inode_at bl' (unat inum)) k = buf k"
      "\<forall>j<1024. j \<noteq> unat inum \<longrightarrow> inode_at bl' j = inode_at (il_bm il) j"
    using w(2) by (auto simp: rewritten_def)
  show thesis
  proof (rule that)
    show "write_file stk t il inum buf (int s) = Inr (il\<lparr>il_bm := bl'\<rparr>)"
      using s by (intro write_file_run [OF ok use _ w(1)]) simp
    show "il_ok (il\<lparr>il_bm := bl'\<rparr>)" using ok r(1) by (simp add: il_ok_def)
    show "slim bl' (unat inum) q s" using rewritten_in_use [OF w(2) use] lt(1) s r(2) w(3) by (simp add: slim_def)
    show "free_set bl' = F - (if s = 0 then {} else {q})" using w(6) ids by simp
    show "contents bl' q k = buf k" if "k < s" for k
      using r(3) that s w(3) u by (simp add: file_data_def file_block_def)
  qed (use r(4) in blast)
qed

subsection \<open>Released blocks that are still pointed to\<close>

text \<open>The inodes below \<open>m\<close> are in use and the free blocks are \<open>F\<close>.\<close>

definition small_state :: "inode_layer \<Rightarrow> nat \<Rightarrow> nat set \<Rightarrow> bool" where
  "small_state il m F \<longleftrightarrow> il_ok il \<and> (\<forall>j<1024. in_use (il_bm il) j \<longleftrightarrow> j < m) \<and> free_set (il_bm il) = F"

lemma slim_frame: "slim bl j p n \<Longrightarrow> inode_at bl' j = inode_at bl j \<Longrightarrow> slim bl' j p n"
  by (simp add: slim_def in_use_def)

lemma small_create:
  assumes "small_state il m F" and "m < 1024" and "(ucast ty :: u16) \<noteq> 0"
  shows "\<exists>il'. client_create stk ts (client_of il) ty = Inr (OK, word_of_nat m, client_of il') \<and>
    small_state il' (Suc m) F \<and> slim (il_bm il') m 0 0 \<and>
    (\<forall>j p n. slim (il_bm il) j p n \<longrightarrow> slim (il_bm il') j p n)"
proof -
  have st: "il_ok il" "\<forall>j<1024. in_use (il_bm il) j \<longleftrightarrow> j < m" "free_set (il_bm il) = F" "bl_ok (il_bm il)"
    using assms(1) by (auto simp: small_state_def il_ok_def)
  have "find_free_inode stk (il_bm il) 0 = Inr m"
    using st(2) assms(2) by (intro find_free_inode_found [OF st(4) _ assms(2)]) auto
  then obtain bl' where al: "alloc_inode stk ts (il_bm il) ty = Inr (word_of_nat m, bl')" "bl_ok bl'"
      "\<forall>j<1024. inode_at bl' j = (if j = m then new_inode ts ty else inode_at (il_bm il) j)"
      "free_set bl' = free_set (il_bm il)"
    using alloc_inode_at [OF st(4) _ assms(2)] by blast
  have new: "i_type (new_inode ts ty) \<noteq> 0" "i_blocks (new_inode ts ty) = replicate 9 0" "file_size (new_inode ts ty) = 0"
    using new_inode_type assms(3) by (cases ts; simp add: new_inode_def file_size_def)+
  have "in_use bl' j \<longleftrightarrow> j < Suc m" if "j < 1024" for j
    using al(3) st(2) that new(1) by (cases "j = m") (auto simp: in_use_def)
  then have ss: "small_state (il\<lparr>il_bm := bl'\<rparr>) (Suc m) F"
    using st al(2,4) by (simp add: small_state_def il_ok_def)
  have "slim bl' m 0 0" using new al(3) assms(2) by (simp add: slim_def in_use_def eval_nat_numeral)
  moreover have "slim bl' j p n" if "slim (il_bm il) j p n" for j p n
  proof (rule slim_frame [OF that])
    have "j < 1024" "j < m" using that st(2) by (auto simp: slim_def in_use_def)
    with al(3) show "inode_at bl' j = inode_at (il_bm il) j" by simp
  qed
  moreover have "ucast (word_of_nat m :: u32) = (word_of_nat m :: u64)"
    using assms(2) by (intro word_unat_eq_iff [THEN iffD2]) (simp add: unsigned_ucast_eq unsigned_of_nat take_bit_nat_eq_self)
  ultimately show ?thesis using client_create_il [OF al(1)] ss by (intro exI [of _ "il\<lparr>il_bm := bl'\<rparr>"]) simp
qed

lemma small_put:
  assumes "small_state il m G" and "slim (il_bm il) (unat (inum_of fid)) p n" and "length s \<le> 512"
    and F: "F = G \<union> ({p} \<inter> data_blocks)" "F \<noteq> {}" and q: "q = (if s = [] then p else Min F)"
  obtains il' where "client_put stk t (client_of il) fid s = Inr (OK, client_of il')"
    and "small_state il' m (F - (if s = [] then {} else {q}))"
    and "slim (il_bm il') (unat (inum_of fid)) q (length s)"
    and "\<And>k. k < length s \<Longrightarrow> contents (il_bm il') q k = s ! k"
    and "\<And>j p n. slim (il_bm il) j p n \<Longrightarrow> j \<noteq> unat (inum_of fid) \<Longrightarrow> slim (il_bm il') j p n"
proof -
  let ?i = "unat (inum_of fid)"
  have st: "il_ok il" "\<forall>j<1024. in_use (il_bm il) j \<longleftrightarrow> j < m" "F = free_set (il_bm il) \<union> ({p} \<inter> data_blocks)"
    using assms(1) F(1) by (auto simp: small_state_def)
  have q': "q = (if length s = 0 then p else Min F)" using q by simp
  obtain bl' where w: "write_file stk t il (inum_of fid) (c_str s) (int (length s)) = Inr (il\<lparr>il_bm := bl'\<rparr>)"
      "il_ok (il\<lparr>il_bm := bl'\<rparr>)" "slim bl' ?i q (length s)" "free_set bl' = F - (if length s = 0 then {} else {q})"
      "\<And>k. k < length s \<Longrightarrow> contents bl' q k = c_str s k"
      "\<And>j. j < 1024 \<Longrightarrow> j \<noteq> ?i \<Longrightarrow> inode_at bl' j = inode_at (il_bm il) j"
    by (rule slim_write [OF st(1) assms(2,3) st(3) F(2) q', of stk t "c_str s"]) (rule that)
  have "in_use bl' j \<longleftrightarrow> j < m" if "j < 1024" for j
    using st(2) w(3,6) assms(2) that by (cases "j = ?i") (auto simp: in_use_def slim_def)
  then have "small_state (il\<lparr>il_bm := bl'\<rparr>) m (F - (if s = [] then {} else {q}))"
    using w(2,4) by (simp add: small_state_def)
  moreover have "slim bl' j p n" if "slim (il_bm il) j p n" "j \<noteq> ?i" for j p n
    using slim_frame [OF that(1)] w(6) that slim_pointers(4) [OF that(1)] by blast
  moreover have "client_put stk t (client_of il) fid s = Inr (OK, client_of (il\<lparr>il_bm := bl'\<rparr>))"
    using w(1) assms(3) by (intro client_put_il) simp_all
  ultimately show thesis using that [of "il\<lparr>il_bm := bl'\<rparr>"] w(3,5) by (simp add: c_str_def)
qed

lemma small_get:
  assumes "il_ok il" and "slim (il_bm il) (unat (inum_of fid)) p n" and "n > 0 \<Longrightarrow> p \<in> data_blocks"
  shows "\<exists>c'. client_get stk t now (client_of il) fid = Inr (OK, map (contents (il_bm il) p) [0..<n], c')"
proof -
  let ?i = "unat (inum_of fid)"
  let ?ino = "inode_at (il_bm il) ?i"
  have b: "i_blocks ?ino = word_of_nat p # replicate 8 0" "file_size ?ino = n" "n \<le> 512" "in_use (il_bm il) ?i" "p < 32768"
    using assms(2) by (auto simp: slim_def)
  have u: "unat (word_of_nat p :: u32) = p" using b(5) by (intro unat_of_nat32) simp
  have "unat (file_block (il_bm il) ?ino k) \<in> data_blocks" if "k < nblk n" for k
  proof -
    have "k = 0" "0 < n" using that b(3) by (auto simp: nblk_less_iff)
    then show ?thesis using b(1) u assms(3) by (simp add: file_block_def)
  qed
  then have "readable (il_bm il) ?ino" using b by (simp add: readable_def inode_ok_def)
  then obtain buf il' where "read_file stk t now il (inum_of fid) (Some None) (Some 0) = Inr (Some (Some buf), Some (int n), il')"
      "\<forall>k<n. buf k = file_data (il_bm il) ?ino k"
    using read_file_spec [OF assms(1) b(4), of stk t now None 0] b(2) by blast
  moreover have "file_data (il_bm il) ?ino k = contents (il_bm il) p k" if "k < n" for k
    using that b u by (simp add: file_data_def file_block_def)
  ultimately have "map buf [0..<n] = map (contents (il_bm il) p) [0..<n]"
    "client_get stk t now (client_of il) fid = Inr (OK, map buf [0..<n], client_of il')"
    using client_get_il by auto
  then show ?thesis by auto
qed

lemma data_blocks_least: "Min data_blocks = 123" "123 \<in> data_blocks" "data_blocks - {123} \<union> ({123} \<inter> data_blocks) = data_blocks"
  by (auto simp: data_blocks_def intro: Min_eqI)

lemma inum_of_numeral: "inum_of 1 = 1" "inum_of 2 = 2" "inum_of 3 = 3"
  by (simp_all add: inum_of_def)

lemma fresh_small_state:
  obtains il where "new_fs_client stk ts False = Inr (client_of il)" and "small_state il 1 data_blocks"
proof -
  obtain bl where new: "new_inode_layer stk ts False = Inr \<lparr>il_bm = bl, il_rwlocks = (\<lambda>_. new_a4_rwlock)\<rparr>"
      "bl_ok bl" "free_set bl = data_blocks"
      "\<forall>j<1024. inode_at bl j = (if j = 0 then new_inode ts 1 else decode_inode (\<lambda>_. 0) 0)"
    using new_inode_layer_spec by blast
  have "i_type (decode_inode (\<lambda>_. 0) 0) = 0" by (simp add: decode_inode_def)
  then have "in_use bl j \<longleftrightarrow> j < 1" if "j < 1024" for j
    using new(4) new_inode_type [of ts 1] that by (cases "j = 0") (simp_all add: in_use_def)
  then have "small_state \<lparr>il_bm = bl, il_rwlocks = (\<lambda>_. new_a4_rwlock)\<rparr> 1 data_blocks"
    using new(2,3) rw_idle_new by (simp add: small_state_def il_ok_def)
  with that new(1) show thesis by (simp add: new_fs_client_def new_fs_server_def)
qed

text \<open>A put of one block when all data blocks are free, or all but the file's own.\<close>

lemma first_block_put:
  assumes "small_state il m G" and "slim (il_bm il) (unat (inum_of fid)) p n" and "s \<noteq> []" and "length s \<le> 512"
    and "G = data_blocks \<and> p \<in> {0, 123}"
  shows "\<exists>il'. client_put stk t (client_of il) fid s = Inr (OK, client_of il') \<and>
    small_state il' m (data_blocks - {123}) \<and> slim (il_bm il') (unat (inum_of fid)) 123 (length s) \<and>
    map (contents (il_bm il') 123) [0..<length s] = s \<and>
    (\<forall>j p n. slim (il_bm il) j p n \<longrightarrow> j \<noteq> unat (inum_of fid) \<longrightarrow> slim (il_bm il') j p n)"
proof -
  have F: "data_blocks = G \<union> ({p} \<inter> data_blocks)" using assms(5) data_blocks_least(2) by auto
  have ne: "data_blocks \<noteq> {}" using data_blocks_least(2) by blast
  have q: "123 = (if s = [] then p else Min data_blocks)" using assms(3) data_blocks_least(1) by simp
  obtain il' where w: "client_put stk t (client_of il) fid s = Inr (OK, client_of il')"
      "small_state il' m (data_blocks - (if s = [] then {} else {123}))" "slim (il_bm il') (unat (inum_of fid)) 123 (length s)"
      "\<And>k. k < length s \<Longrightarrow> contents (il_bm il') 123 k = s ! k"
      "\<And>j p n. slim (il_bm il) j p n \<Longrightarrow> j \<noteq> unat (inum_of fid) \<Longrightarrow> slim (il_bm il') j p n"
    by (rule small_put [OF assms(1,2,4) F ne q]) (rule that)
  moreover have "map (contents (il_bm il') 123) [0..<length s] = s" using w(4) by (intro nth_equalityI) simp_all
  ultimately show ?thesis using assms(3) by auto
qed

lemma empty_put:
  assumes "small_state il m (data_blocks - {123})" and "slim (il_bm il) (unat (inum_of fid)) 123 n"
  shows "\<exists>il'. client_put stk t (client_of il) fid [] = Inr (OK, client_of il') \<and>
    small_state il' m data_blocks \<and> slim (il_bm il') (unat (inum_of fid)) 123 0 \<and>
    (\<forall>j p n. slim (il_bm il) j p n \<longrightarrow> j \<noteq> unat (inum_of fid) \<longrightarrow> slim (il_bm il') j p n)"
proof -
  have F: "data_blocks = data_blocks - {123} \<union> ({123} \<inter> data_blocks)" "data_blocks \<noteq> {}"
    using data_blocks_least(2) by auto
  show ?thesis
    by (rule small_put [OF assms _ F, of "[]" 123 stk t]) auto
qed

text \<open>After five calls the files 1 and 2 point to the same block.\<close>

lemma shared_block:
  assumes "x \<noteq> []" and "length x \<le> 512" and "y \<noteq> []" and "length y \<le> 512"
  obtains il0 il where "new_fs_client stk ts False = Inr (client_of il0)"
    and "exec_all (client_of il0) [(e1, Create 2), (e2, Put 1 x), (e3, Put 1 []), (e4, Create 2), (e5, Put 2 y)] =
           Inr ([R_id 1, R_ok, R_ok, R_id 2, R_ok], client_of il)"
    and "small_state il 3 (data_blocks - {123})" and "slim (il_bm il) 1 123 0" and "slim (il_bm il) 2 123 (length y)"
proof -
  note I = inum_of_numeral
  have ty: "(ucast (2 :: u32) :: u16) \<noteq> 0" by simp
  obtain il0 where s0: "new_fs_client stk ts False = Inr (client_of il0)" "small_state il0 1 data_blocks"
    by (rule fresh_small_state) (rule that)
  obtain il1 where s1: "client_create (e_stk e1) (e_times e1) (client_of il0) 2 = Inr (OK, word_of_nat 1, client_of il1)"
      "small_state il1 2 data_blocks" "slim (il_bm il1) 1 0 0"
    using small_create [OF s0(2) _ ty, of "e_stk e1" "e_times e1"] by (auto simp: numeral_2_eq_2)
  obtain il2 where s2: "client_put (e_stk e2) (e_tid e2) (client_of il1) 1 x = Inr (OK, client_of il2)"
      "small_state il2 2 (data_blocks - {123})" "slim (il_bm il2) 1 123 (length x)"
    using first_block_put [OF s1(2), of 1 0 0 x "e_stk e2" "e_tid e2"] s1(3) assms(1,2) I by auto
  obtain il3 where s3: "client_put (e_stk e3) (e_tid e3) (client_of il2) 1 [] = Inr (OK, client_of il3)"
      "small_state il3 2 data_blocks" "slim (il_bm il3) 1 123 0"
    using empty_put [OF s2(2), of 1 "length x" "e_stk e3" "e_tid e3"] s2(3) I by auto
  obtain il4 where s4: "client_create (e_stk e4) (e_times e4) (client_of il3) 2 = Inr (OK, word_of_nat 2, client_of il4)"
      "small_state il4 3 data_blocks" "slim (il_bm il4) 2 0 0" "slim (il_bm il4) 1 123 0"
    using small_create [OF s3(2) _ ty, of "e_stk e4" "e_times e4"] s3(3) by auto
  obtain il5 where s5: "client_put (e_stk e5) (e_tid e5) (client_of il4) 2 y = Inr (OK, client_of il5)"
      "small_state il5 3 (data_blocks - {123})" "slim (il_bm il5) 2 123 (length y)" "slim (il_bm il5) 1 123 0"
    using first_block_put [OF s4(2), of 2 0 0 y "e_stk e5" "e_tid e5"] s4(3,4) assms(3,4) I by auto
  show thesis
    by (rule that [OF s0(1), of il5]) (use s1(1) s2(1) s3(1) s4(1) s5 in \<open>simp_all add: exec_all_def\<close>)
qed

subsection \<open>Properties\<close>

text \<open>
  C20: An empty \<open>put\<close> releases the blocks of a file and keeps the pointers to them. A second file
  that is given such a block loses it to a third one when the first file is written again: a
  \<open>get\<close> of the second file then returns the bytes of the third. Every call of the run returns \<open>OK\<close>.
\<close>

theorem stale_pointer_damage:
  assumes "x \<noteq> []" and "length x \<le> 512" and "y \<noteq> []" and "length y \<le> 512" and "length z = length y"
  shows "\<exists>c c'. new_fs_client stk ts False = Inr c \<and>
    exec_all c [(e1, Create 2), (e2, Put 1 x), (e3, Put 1 []), (e4, Create 2), (e5, Put 2 y),
                (e6, Put 1 []), (e7, Create 2), (e8, Put 3 z), (e9, Get 2)] =
      Inr ([R_id 1, R_ok, R_ok, R_id 2, R_ok, R_ok, R_id 3, R_ok, R_data z], c')"
proof -
  note I = inum_of_numeral
  obtain il0 il5 where a: "new_fs_client stk ts False = Inr (client_of il0)"
      "exec_all (client_of il0) [(e1, Create 2), (e2, Put 1 x), (e3, Put 1 []), (e4, Create 2), (e5, Put 2 y)] =
         Inr ([R_id 1, R_ok, R_ok, R_id 2, R_ok], client_of il5)"
      "small_state il5 3 (data_blocks - {123})" "slim (il_bm il5) 1 123 0" "slim (il_bm il5) 2 123 (length y)"
    by (rule shared_block [OF assms(1-4), of stk ts e1 e2 e3 e4 e5]) (rule that)
  obtain il6 where s6: "client_put (e_stk e6) (e_tid e6) (client_of il5) 1 [] = Inr (OK, client_of il6)"
      "small_state il6 3 data_blocks" "slim (il_bm il6) 2 123 (length y)"
    using empty_put [OF a(3), of 1 0 "e_stk e6" "e_tid e6"] a(4,5) I by auto
  obtain il7 where s7: "client_create (e_stk e7) (e_times e7) (client_of il6) 2 = Inr (OK, word_of_nat 3, client_of il7)"
      "small_state il7 (Suc 3) data_blocks" "slim (il_bm il7) 3 0 0" "slim (il_bm il7) 2 123 (length y)"
    using small_create [OF s6(2), of 2 "e_stk e7" "e_times e7"] s6(3) by auto
  have z: "z \<noteq> []" "length z \<le> 512" using assms(3-5) by auto
  obtain il8 where s8: "client_put (e_stk e8) (e_tid e8) (client_of il7) 3 z = Inr (OK, client_of il8)"
      "small_state il8 (Suc 3) (data_blocks - {123})" "slim (il_bm il8) 2 123 (length y)"
      "map (contents (il_bm il8) 123) [0..<length z] = z"
    using first_block_put [OF s7(2), of 3 0 0 z "e_stk e8" "e_tid e8"] s7(3,4) z I by auto
  obtain c9 where "client_get (e_stk e9) (e_tid e9) (e_now e9) (client_of il8) 2 = Inr (OK, z, c9)"
    using small_get [of il8 2 123 "length y" "e_stk e9" "e_tid e9" "e_now e9"] s8(2-4) assms(5) I
    by (auto simp: small_state_def data_blocks_def)
  then have "exec_all (client_of il5) [(e6, Put 1 []), (e7, Create 2), (e8, Put 3 z), (e9, Get 2)] =
      Inr ([R_ok, R_id 3, R_ok, R_data z], c9)"
    using s6(1) s7(1) s8(1) by (simp add: exec_all_def)
  then show ?thesis using a(1,2) by (auto simp: exec_all_def rbind_Inr_iff)
qed

theorem stale_pointer_damage_witness:
  "\<exists>c c'. new_fs_client (\<lambda>_ _. 0) (0, 0, 0) False = Inr c \<and>
     exec_all c (map (Pair \<lparr>e_stk = (\<lambda>_ _. 0), e_tid = 0, e_now = 0, e_times = (0, 0, 0)\<rparr>)
       [Create 2, Put 1 [10], Put 1 [], Create 2, Put 2 [20], Put 1 [], Create 2, Put 3 [30], Get 2]) =
     Inr ([R_id 1, R_ok, R_ok, R_id 2, R_ok, R_ok, R_id 3, R_ok, R_data [30]], c')"
  using stale_pointer_damage [of "[10]" "[20]" "[30]" "\<lambda>_ _. 0" "(0, 0, 0)"] by simp

end
