(* ===== verification/Fs_Overwrite.thy ===== *)
theory Fs_Overwrite
  imports Fs_Damage
begin

text \<open>
  A file of 4100 to 4607 bytes has its ninth data block where the indirect block belongs. When
  it is written again with 4608 bytes, \<open>write_file\<close> takes the first word of that block, which is
  part of the old contents, for the number of the data block to overwrite. So two calls
  of \<open>put\<close> write 512 bytes of the client's choice to a block of its choice.
\<close>

subsection \<open>The ninth round of the second write\<close>

lemma bl_write_ok: "bl_ok bl \<Longrightarrow> bl_write_block bl b x = Inr bl' \<Longrightarrow> bl_ok bl'"
  by (auto simp: bl_write_block_def rbind_Inr_iff bl_ok_def)

text \<open>The state after that round: block \<open>b\<close> holds the last 512 bytes.\<close>

definition injected :: "buf \<Rightarrow> u32 \<Rightarrow> nat \<Rightarrow> write_state \<Rightarrow> bool" where
  "injected buf p8 b w \<longleftrightarrow>
     wcount 4608 9 w \<and> need_to_overwrite_indirect w \<and> bl_ok (w_bl w) \<and> length (i_blocks (w_ino w)) = 9 \<and>
     i_blocks (w_ino w) ! 8 = p8 \<and> (\<forall>i<512. contents (w_bl w) b i = buf (4096 + i))"

lemma ninth_round:
  assumes inv: "direct_inv stk bl0 ino 4608 buf 8 w" and len: "length (i_blocks ino) = 9"
    and old: "4096 < old" "old \<le> 4608" and q: "unat (i_blocks ino ! 8) < 32768" "unat (i_blocks ino ! 8) \<notin> free_set bl0"
      "unat (i_blocks ino ! 8) \<notin> bitmap_blocks"
    and ptr: "get32 (contents bl0 (unat (i_blocks ino ! 8))) 0 = word_of_nat b" and b: "b < 32768"
  shows "\<exists>w'. write_body stk buf 4608 old w = Inr w' \<and> injected buf (i_blocks ino ! 8) b w'"
proof -
  let ?p = "i_blocks ino ! 8"
  obtain ids M where ids: "length ids = 8" "wrote bl0 4608 buf (w_bl w) ids (set ids) M"
      "w_ino w = ino\<lparr>i_blocks := map word_of_nat ids @ drop 8 (i_blocks ino)\<rparr>"
    and c: "wcount 4608 8 w" "indirect_index w = 0"
    using inv by (auto simp: direct_inv_def)
  have p8: "i_blocks (w_ino w) ! 8 = ?p" "length (i_blocks (w_ino w)) = 9" using ids(1,3) len by (simp_all add: nth_append)
  have ok: "bl_ok (w_bl w)" using ids(2) by (simp add: wrote_def)
  have "unat ?p \<notin> set ids" using wrote_free(2) [OF ids(2)] q(2) by blast
  then have same: "contents (w_bl w) (unat ?p) = contents bl0 (unat ?p)" by (rule wrote_frame [OF ids(2) _ q(3)])
  obtain ind where ind: "bl_read_block (w_bl w) ?p (stk (Indirect_block_at 8)) = Inr ind"
      "\<And>i. i < 512 \<Longrightarrow> ind i = contents (w_bl w) (unat ?p) i"
    by (rule read_array_byte [OF q(1), of "w_bl w" "stk (Indirect_block_at 8)"]) (rule that)
  have word: "get32 ind 0 = word_of_nat b" using ind(2) same ptr by (simp add: get32_def)
  let ?x = "fill_buffer (stk (Temp_buffer 8)) buf (w\<lparr>need_to_overwrite_indirect := True\<rparr>)"
  have u: "unat (word_of_nat b :: u32) = b" using b by (intro unat_of_nat32) simp
  then obtain bl' where wr: "bl_write_block (w_bl w) (word_of_nat b) ?x = Inr bl'" "eq_upto 512 (contents bl' b) ?x"
    using bs.wr_ok [of "word_of_nat b" "w_bl w" ?x] b by auto
  have idx: "w_index w = 8" "num_bytes_already_written w = 4096" using c(1) by (simp_all add: wcount_def)
  let ?w = "w\<lparr>need_to_overwrite_indirect := True, w_bl := bl',
      final_indirect_block := put32 (final_indirect_block w) 0 (word_of_nat b), indirect_index := 1\<rparr>"
  have "write_old_indirect stk buf (w\<lparr>need_to_overwrite_indirect := True\<rparr>) = Inr (?w\<lparr>indirect_index := 0\<rparr>)"
    using ind(1) word wr(1) idx c(2) p8(1) by (simp add: write_old_indirect_def)
  then have "write_body stk buf 4608 old w = Inr (advance ?w)"
    using old idx c(2) by (simp add: write_body_def write_indirect_def)
  moreover have "wcount 4608 9 (advance ?w)"
    using wcount_advance [OF wcount_cong [OF c(1), of ?w]] by simp
  moreover have "holds_chunk 4608 buf 8 ?x" by (intro fill_buffer_holds wcount_cong [OF c(1)]) simp_all
  then have "contents bl' b i = buf (4096 + i)" if "i < 512" for i
    using eq_uptoD [OF wr(2) that] that by (simp add: holds_chunk_def)
  ultimately show ?thesis
    using bl_write_ok [OF ok wr(1)] p8 by (auto simp: injected_def advance_def Let_def)
qed

lemma injected_loop:
  assumes ok: "bl_ok bl0" and len: "length (i_blocks ino) = 9" and room: "8 \<le> card (free_set bl0)"
    and old: "4096 < old" "old \<le> 4608" and q: "unat (i_blocks ino ! 8) < 32768" "unat (i_blocks ino ! 8) \<notin> free_set bl0"
      "unat (i_blocks ino ! 8) \<notin> bitmap_blocks"
    and ptr: "get32 (contents bl0 (unat (i_blocks ino ! 8))) 0 = word_of_nat b" and b: "b < 32768"
  shows "\<exists>w. write_loop stk buf (int 4608) old (start_write stk bl0 ino (int 4608)) = Inr w \<and>
           injected buf (i_blocks ino ! 8) b w"
proof -
  let ?I = "\<lambda>k w. if k \<le> 8 then direct_inv stk bl0 ino 4608 buf k w else k = 9 \<and> injected buf (i_blocks ino ! 8) b w"
  have n: "nblk 4608 = 9" by (simp add: nblk_def)
  have "\<exists>w. write_loop stk buf (int 4608) old (start_write stk bl0 ino (int 4608)) = Inr w \<and> ?I 9 w"
  proof (rule write_loop_invariant [where I = ?I and k = 0])
    show "\<exists>w'. write_body stk buf (int 4608) old w = Inr w' \<and> ?I (Suc k) w'" if "k < 9" "?I k w" for k w
    proof (cases "k = 8")
      case True
      with that ninth_round [OF _ len old q ptr b, of stk buf w] show ?thesis by simp
    next
      case False
      with that direct_inv_step [of stk bl0 ino 4608 buf k w "int 4608" old] len room n show ?thesis by simp
    qed
    show "remaining_bytes_to_write w > 0 \<longleftrightarrow> k < 9" if "?I k w" for k w
      using that wcount_running [of 4608 k w] n by (auto simp: direct_inv_def injected_def split: if_splits)
  qed (simp_all add: direct_inv_start [OF ok, of stk ino 4608 buf, simplified])
  then show ?thesis by simp
qed

text \<open>What follows the loop leaves block \<open>b\<close> alone, unless it is the ninth block or the inode's own.\<close>

lemma finish_injected:
  assumes w: "injected buf p8 b w" and i: "unat inum < 1024" and old: "old \<le> 4608"
    and p8: "unat p8 < 32768" "unat p8 \<noteq> b" and b: "b \<noteq> 9 + unat inum div 9"
  shows "\<exists>bl'. rbind (finish_write stk 4608 old w) (\<lambda>(bl, ino). put_inode stk bl inum (Some ino)) = Inr bl' \<and>
           (\<forall>k<512. contents bl' b k = buf (4096 + k))"
proof -
  have d: "need_to_overwrite_indirect w" "bl_ok (w_bl w)" "length (i_blocks (w_ino w)) = 9" "i_blocks (w_ino w) ! 8 = p8"
      "\<forall>i<512. contents (w_bl w) b i = buf (4096 + i)"
    using w by (auto simp: injected_def)
  obtain bl1 where wr: "bl_write_block (w_bl w) p8 (final_indirect_block w) = Inr bl1"
      "\<forall>j. j \<noteq> unat p8 \<longrightarrow> contents bl1 j = contents (w_bl w) j"
    using bs.wr_ok [of p8 "w_bl w" "final_indirect_block w"] p8(1) by auto
  let ?ino = "(w_ino w)\<lparr>i_size := word_of_int 4608\<rparr>"
  have ok: "bl_ok bl1" "inode_ok ?ino" using bl_write_ok [OF d(2) wr(1)] d(3) by (simp_all add: inode_ok_def)
  have fin: "finish_write stk 4608 old w = Inr (bl1, ?ino)" using d(1,4) wr(1) old by (simp add: finish_write_def)
  obtain c where c: "put_fetch stk bl1 inum = Inr c" using put_fetch_ok [OF ok(1) i] by metis
  obtain bl2 where bl2: "put_store bl1 inum c ?ino = Inr bl2"
      "\<And>j. j \<noteq> 9 + unat inum div 9 \<Longrightarrow> contents bl2 j = contents bl1 j"
    using put_store_ok [OF ok(1) i ok(2), of c] by metis
  have "put_inode stk bl1 inum (Some ?ino) = Inr bl2" using put_inode_split [OF i] c bl2(1) by simp
  then show ?thesis using fin bl2(2) [OF b] wr(2) p8(2) d(5) by auto
qed

lemma inject_write:
  assumes ok: "bl_ok bl" "unat inum < 1024" and ino: "pointers_ok ino" "4096 < file_size ino" "file_size ino \<le> 4608"
    and room: "8 \<le> card (free_set bl \<union> direct_blocks ino)"
    and q: "unat (i_blocks ino ! 8) \<in> data_blocks" "unat (i_blocks ino ! 8) \<notin> free_set bl \<union> direct_blocks ino"
    and ptr: "get32 (contents bl (unat (i_blocks ino ! 8))) 0 = word_of_nat b" and b: "b < 32768"
      "unat (i_blocks ino ! 8) \<noteq> b" "b \<noteq> 9 + unat inum div 9"
  shows "\<exists>bl'. write_inode stk bl inum ino buf (int 4608) = Inr bl' \<and> (\<forall>k<512. contents bl' b k = buf (4096 + k))"
proof -
  let ?p = "i_blocks ino ! 8"
  have len: "length (i_blocks ino) = 9" using ino(1) by (simp add: pointers_ok_def inode_ok_def)
  have p8: "unat ?p < 32768" "unat ?p \<notin> bitmap_blocks" using q(1) data_not_bitmap by (auto simp: data_blocks_def)
  have old: "sint (i_size ino) = int (file_size ino)" using ino(3) by (intro file_size_sint) simp
  have "\<And>b. b \<in> set (take 8 (i_blocks ino)) \<Longrightarrow> unat b < 32768"
    using ino(1) by (auto simp: pointers_ok_def dest: in_set_takeD)
  with free_direct_blocks_spec [OF ok(1), of "take 8 (i_blocks ino)" stk]
  obtain bl0 where f: "free_direct_blocks stk bl (take 8 (i_blocks ino)) = Inr bl0" "bl_ok bl0"
      "free_set bl0 = free_set bl \<union> direct_blocks ino" "\<forall>j. j \<notin> bitmap_blocks \<longrightarrow> contents bl0 j = contents bl j"
    by (auto simp: direct_blocks_def)
  have "get32 (contents bl0 (unat ?p)) 0 = word_of_nat b" using f(4) p8(2) ptr by simp
  then obtain w where w: "write_loop stk buf (int 4608) (int (file_size ino)) (start_write stk bl0 ino (int 4608)) = Inr w"
      "injected buf ?p b w"
    using injected_loop [OF f(2) len _ _ _ p8(1) _ p8(2) _ b(1), of "int (file_size ino)" stk buf] room q(2) ino(2,3)
    by (auto simp: f(3))
  obtain bl' where "rbind (finish_write stk 4608 (int (file_size ino)) w) (\<lambda>(bl, ino). put_inode stk bl inum (Some ino)) = Inr bl'"
      "\<forall>k<512. contents bl' b k = buf (4096 + k)"
    using finish_injected [OF w(2) ok(2) _ p8(1) b(2,3), of "int (file_size ino)" stk] ino(3) by auto
  then show ?thesis using f(1) w(1) old by (auto simp: write_inode_def)
qed

text \<open>An inode whose nine pointers are all in use.\<close>

lemma nine_pointers:
  assumes "i_blocks ino = map word_of_nat ids" and "length ids = 9" and "distinct ids" and "set ids \<subseteq> data_blocks"
  shows "pointers_ok ino" and "unat (i_blocks ino ! 8) = ids ! 8" and "direct_blocks ino = set (take 8 ids)"
    and "card (direct_blocks ino) = 8" and "ids ! 8 \<notin> direct_blocks ino"
proof -
  have u: "unat (word_of_nat b :: u32) = b" if "b \<in> set ids" for b using that assms(4) word_of_nat_data by blast
  show "pointers_ok ino" using assms(1,2,4) u by (auto simp: pointers_ok_def inode_ok_def data_blocks_def)
  show "unat (i_blocks ino ! 8) = ids ! 8" using assms(1,2) u [of "ids ! 8"] by simp
  have "unat ` set (take 8 (i_blocks ino)) = set (take 8 ids)"
    using u assms(1) by (force simp: take_map dest: in_set_takeD)
  then show dir: "direct_blocks ino = set (take 8 ids)" using assms(4) by (auto simp: direct_blocks_def dest: in_set_takeD)
  show "card (direct_blocks ino) = 8" using assms(2,3) by (simp add: dir distinct_card)
  show "ids ! 8 \<notin> direct_blocks ino" using assms(2,3) by (auto simp: dir in_set_conv_nth nth_eq_iff_index_eq)
qed

text \<open>Both writes.\<close>

lemma two_writes:
  assumes il: "il_ok il" and use: "in_use (il_bm il) (unat inum)" and ptrs: "pointers_ok (inode_at (il_bm il) (unat inum))"
    and A: "A = free_set (il_bm il) \<union> direct_blocks (inode_at (il_bm il) (unat inum))" "9 \<le> card A"
    and b: "b < 32768" "b \<notin> A" "b \<noteq> 9 + unat inum div 9"
    and s1: "4100 \<le> n" "n < 4608" "get32 buf 4096 = word_of_nat b"
  shows "\<exists>bl1 bl2. write_file stk t il inum buf (int n) = Inr (il\<lparr>il_bm := bl1\<rparr>) \<and>
    write_file stk' t' (il\<lparr>il_bm := bl1\<rparr>) inum buf' (int 4608) = Inr (il\<lparr>il_bm := bl2\<rparr>) \<and>
    (\<forall>k<512. contents bl2 b k = buf' (4096 + k))"
proof -
  let ?i = "unat inum" and ?bl = "il_bm il"
  have ok: "bl_ok ?bl" "?i < 1024" using il use by (auto simp: il_ok_def in_use_def)
  obtain bl1 ids where w: "write_inode stk ?bl inum (inode_at ?bl ?i) buf (int n) = Inr bl1"
      "bl_ok bl1" "i_blocks (inode_at bl1 ?i) = map word_of_nat ids" "length ids = 9" "distinct ids" "set ids \<subseteq> A"
      "free_set bl1 = A - set ids"
      "attr_of (inode_at bl1 ?i) = (attr_of (inode_at ?bl ?i))\<lparr>a_size := word_of_nat n\<rparr>"
      "\<forall>k<512. 4096 + k < n \<longrightarrow> contents bl1 (ids ! 8) k = buf (4096 + k)"
    using write_inode_ninth [OF ok refl ptrs _ s1(2), of stk buf] s1(1) A by auto
  let ?ino = "inode_at bl1 ?i"
  have data: "set ids \<subseteq> data_blocks" using w(6) A(1) free_set_data by (auto simp: direct_blocks_def)
  note np = nine_pointers [OF w(3,4,5) data]
  have q: "ids ! 8 \<in> set ids" using w(4) by simp
  have sz: "i_type ?ino = i_type (inode_at ?bl ?i)" "file_size ?ino = n"
    using w(8) s1(2) by (simp_all add: attr_of_def scast16_inject file_size_def)
  have il1: "il_ok (il\<lparr>il_bm := bl1\<rparr>)" "in_use bl1 ?i" using il use w(2) sz(1) by (simp_all add: il_ok_def in_use_def)
  have "8 \<le> card (free_set bl1 \<union> direct_blocks ?ino)"
    using card_mono [of "free_set bl1 \<union> direct_blocks ?ino" "direct_blocks ?ino"] np(3,4) by simp
  moreover have "get32 (contents bl1 (ids ! 8)) 0 = word_of_nat b" using w(9) s1 by (simp add: get32_def)
  moreover have "ids ! 8 \<noteq> b" "ids ! 8 \<notin> free_set bl1 \<union> direct_blocks ?ino" using b(2) w(6,7) q np(5) by auto
  ultimately obtain bl2 where "write_inode stk' bl1 inum ?ino buf' (int 4608) = Inr bl2" "\<forall>k<512. contents bl2 b k = buf' (4096 + k)"
    using inject_write [OF w(2) ok(2) np(1), of b stk' buf'] sz(2) s1 b(1,3) np(2) q data by auto
  then show ?thesis
    using write_file_run [OF il use _ w(1)] write_file_run [OF il1(1), of inum 4608 stk' buf' bl2 t'] il1(2) s1(2) by auto
qed

lemma client_of_im: "client_of (im (es c)) = c"
  by (cases c, cases "es c") simp

subsection \<open>Properties\<close>

text \<open>
  C11: Two calls of \<open>put\<close> on one file write 512 bytes of the client's choice to any block of
  the disk that is neither free nor one of the file's own nor the block of its inode: a
  block of another file, a block of the bitmap, other inodes. The number of the block is the bytes
  4096 to 4099 of the first \<open>put\<close>, the bytes are the last 512 of the second; both return \<open>OK\<close>.
\<close>

theorem client_overwrites_block:
  assumes inv: "client_inv n c" "n < 2 ^ 31" and at: "abs_fs (client_bl c) (unat (inum_of fid)) = Some (ty, old)"
    and old: "length old \<le> 4096" and room: "9 \<le> card (free_set (client_bl c)) + nblk (length old)"
    and b: "b < 32768" "b \<notin> free_set (client_bl c)" "b \<notin> owned_at (client_bl c) (unat (inum_of fid))"
      "b \<noteq> 9 + unat (inum_of fid) div 9"
    and s1: "4100 \<le> length s1" "length s1 < 4608" "get32 (c_str s1) 4096 = word_of_nat b" and s2: "length s2 = 4608"
  shows "\<exists>c1 c2. client_put stk t c fid s1 = Inr (OK, c1) \<and> client_put stk' t' c1 fid s2 = Inr (OK, c2) \<and>
    map (contents (client_bl c2) b) [0..<512] = drop 4096 s2"
proof -
  let ?il = "im (es c)" and ?bl = "client_bl c" and ?i = "unat (inum_of fid)"
  let ?ino = "inode_at ?bl ?i"
  have il: "il_ok ?il" using client_inv_il [OF inv] .
  have fs: "fs_inv ?bl" "bl_ok ?bl" using inv(1) by (auto simp: client_inv_def fs_inv_def)
  note o = abs_fs_Some [OF at]
  have i: "?i < 1024" using o(1) by (simp add: in_use_def)
  have fok: "file_ok ?bl ?ino" using fs(1) o(1) by (simp add: fs_inv_def)
  have own: "owned_at ?bl ?i = direct_blocks ?ino"
    using file_ok_direct(1) [OF fok] o(1,4) old by (simp add: owned_at_def)
  have "card (free_set ?bl \<union> direct_blocks ?ino) = card (free_set ?bl) + card (direct_blocks ?ino)"
    using owned_not_free [OF fs(1) i] own by (intro card_Un_disjoint) (auto simp: direct_blocks_def)
  moreover have "card (direct_blocks ?ino) = nblk (length old)"
    using fok o(4) own old o(1) by (simp add: file_ok_def owned_at_def blocks_needed_def)
  ultimately have room9: "9 \<le> card (free_set ?bl \<union> direct_blocks ?ino)" using room by simp
  have ptrs: "pointers_ok ?ino" using fok by (simp add: file_ok_def)
  obtain bl1 bl2 where w: "write_file stk t ?il (inum_of fid) (c_str s1) (int (length s1)) = Inr (?il\<lparr>il_bm := bl1\<rparr>)"
      "write_file stk' t' (?il\<lparr>il_bm := bl1\<rparr>) (inum_of fid) (c_str s2) (int (length s2)) = Inr (?il\<lparr>il_bm := bl2\<rparr>)"
      "\<forall>k<512. contents bl2 b k = c_str s2 (4096 + k)"
    using two_writes [OF il o(1) ptrs refl room9 b(1) _ b(4) s1, of stk t stk' t' "c_str s2"] b(2,3) own s2 by auto
  have "map (contents bl2 b) [0..<512] = drop 4096 s2"
    using w(3) s2 by (intro nth_equalityI) (simp_all add: c_str_def)
  moreover have "client_put stk t c fid s1 = Inr (OK, client_of (?il\<lparr>il_bm := bl1\<rparr>))"
    using client_put_il [OF w(1)] s1(2) by (simp add: client_of_im)
  ultimately show ?thesis using client_put_il [OF w(2)] s2 by auto
qed

theorem client_overwrites_block_witness:
  "\<exists>c c1 c2. new_fs_client (\<lambda>_ _. 0) (0, 0, 0) False = Inr c \<and>
     client_put (\<lambda>_ _. 0) 1 c 0 (replicate 4096 0 @ [1, 0, 0, 0]) = Inr (OK, c1) \<and>
     client_put (\<lambda>_ _. 0) 1 c1 0 (replicate 4096 0 @ replicate 512 255) = Inr (OK, c2) \<and>
     map (contents (client_bl c2) 1) [0..<512] = replicate 512 255"
proof -
  obtain c where c: "new_fs_client (\<lambda>_ _. 0) (0, 0, 0) False = Inr c" "client_inv 0 c" "abs_fs (client_bl c) = [0 \<mapsto> (1, [])]"
    using new_client_inv by blast
  let ?s1 = "replicate 4096 0 @ [1, 0, 0, 0] :: byte list" and ?s2 = "replicate 4096 0 @ replicate 512 255 :: byte list"
  have z: "unat (inum_of 0) = 0" by (simp add: inum_of_def)
  have fs: "fs_inv (client_bl c)" using c(2) by (simp add: client_inv_def)
  have "a_blocks (abs_fs (client_bl c)) = 0" using c(3) by (simp add: a_blocks_split a_blocks_empty blocks_needed_small)
  then have "9 \<le> card (free_set (client_bl c))" using free_count [OF fs] by simp
  moreover have "1 \<notin> data_blocks" by (simp add: data_blocks_def)
  then have "1 \<notin> free_set (client_bl c)" "1 \<notin> owned_at (client_bl c) 0"
    using free_set_data owned_at_data [OF fs] by blast+
  moreover have "get32 (c_str ?s1) 4096 = word_of_nat 1" by (simp add: get32_def c_str_def nth_append)
  ultimately have "\<exists>c1 c2. client_put (\<lambda>_ _. 0) 1 c 0 ?s1 = Inr (OK, c1) \<and> client_put (\<lambda>_ _. 0) 1 c1 0 ?s2 = Inr (OK, c2) \<and>
      map (contents (client_bl c2) 1) [0..<512] = drop 4096 ?s2"
    using c(3) z by (intro client_overwrites_block [OF c(2), where ty = 1 and old = "[]"]) simp_all
  with c(1) show ?thesis by simp
qed

end
