(* ===== verification/Fs_Full.thy ===== *)
theory Fs_Full
  imports Fs_Damage
begin

text \<open>
  A \<open>put\<close> when no block is free. \<open>alloc_block\<close> returns -1, which \<open>write_file\<close> stores as a
  pointer without looking at it; writes to and reads from block -1 are ignored by the disk. The
  call returns \<open>OK\<close>, the size is recorded, and a \<open>get\<close> returns the uninitialised arrays
  that \<open>read_file\<close> meant to read into.
\<close>

subsection \<open>Writing\<close>

definition full_inv :: "block_layer \<Rightarrow> inode \<Rightarrow> nat \<Rightarrow> nat \<Rightarrow> write_state \<Rightarrow> bool" where
  "full_inv bl0 ino0 s k w \<longleftrightarrow>
     wcount s k w \<and> \<not> need_to_overwrite_indirect w \<and> w_bl w = bl0 \<and>
     w_ino w = ino0\<lparr>i_blocks := replicate k (- 1) @ drop k (i_blocks ino0)\<rparr>"

lemma full_inv_step:
  assumes inv: "full_inv bl0 ino0 s k w" and "k < nblk s" and "s \<le> 4096" and "bl_ok bl0" and "free_set bl0 = {}"
    and "length (i_blocks ino0) = 9"
  shows "\<exists>w'. write_body stk buf sz old w = Inr w' \<and> full_inv bl0 ino0 s (Suc k) w'"
proof -
  have c: "wcount s k w" "\<not> need_to_overwrite_indirect w" "w_bl w = bl0"
      "w_ino w = ino0\<lparr>i_blocks := replicate k (- 1) @ drop k (i_blocks ino0)\<rparr>"
    using inv by (auto simp: full_inv_def)
  have k: "k < 8" "512 * k < s" using assms(2,3) nblk_less_iff [of k s] by linarith+
  have idx: "w_index w = k" using c(1) by (simp add: wcount_def)
  let ?w = "w\<lparr>w_ino := (w_ino w)\<lparr>i_blocks := (i_blocks (w_ino w))[k := - 1]\<rparr>\<rparr>"
  have "write_direct stk buf w = Inr ?w"
    using alloc_block_full [OF assms(4,5), of "stk Scratch"] c(3,4) idx k(1) assms(6) by (simp add: write_direct_def)
  moreover have "num_bytes_already_written w < int (8 * BLOCK_SIZE)" using wcount_direct [OF c(1)] k(1) by blast
  ultimately have "write_body stk buf sz old w = Inr (advance ?w)" by (simp add: write_body_def)
  moreover have "wcount s (Suc k) (advance ?w)" by (intro wcount_advance wcount_cong [OF c(1)] k(2)) simp_all
  moreover have "(replicate k (- 1) @ drop k (i_blocks ino0))[k := - 1] = replicate (Suc k) (- 1) @ drop (Suc k) (i_blocks ino0)"
    using k(1) assms(6) by (simp add: list_update_append upd_conv_take_nth_drop replicate_append_same)
  ultimately show ?thesis using c by (auto simp: full_inv_def advance_def Let_def)
qed

lemma write_loop_full:
  assumes "s \<le> 4096" and "bl_ok bl0" and "free_set bl0 = {}" and "length (i_blocks ino0) = 9"
  shows "\<exists>w. write_loop stk buf (int s) old (start_write stk bl0 ino0 (int s)) = Inr w \<and> full_inv bl0 ino0 s (nblk s) w"
proof (rule write_loop_invariant [where I = "full_inv bl0 ino0 s" and k = 0])
  show "\<exists>w'. write_body stk buf (int s) old w = Inr w' \<and> full_inv bl0 ino0 s (Suc k) w'"
    if "k < nblk s" "full_inv bl0 ino0 s k w" for k w
    using full_inv_step [OF that(2,1) assms] .
  show "remaining_bytes_to_write w > 0 \<longleftrightarrow> k < nblk s" if "full_inv bl0 ino0 s k w" for k w
    using that wcount_running by (auto simp: full_inv_def)
  show "full_inv bl0 ino0 s 0 (start_write stk bl0 ino0 (int s))"
    using wcount_start [of s stk bl0 ino0] by (simp add: full_inv_def start_write_def)
qed simp

text \<open>A file without blocks: all nine pointers are zero.\<close>

lemma write_inode_full:
  assumes ok: "bl_ok bl" "unat inum < 1024" and ino: "i_blocks ino = replicate 9 0" "file_size ino \<le> 69632"
    and full: "free_set bl = {}" and s: "s \<le> 4096"
  shows "\<exists>bl'. write_inode stk bl inum ino buf (int s) = Inr bl' \<and> bl_ok bl' \<and>
    inode_at bl' (unat inum) = ino\<lparr>i_blocks := replicate (nblk s) (- 1) @ replicate (9 - nblk s) 0, i_size := word_of_nat s\<rparr>"
proof -
  have "unat b < 32768" if "b \<in> set (take 8 (i_blocks ino))" for b using that ino(1) by (auto dest: in_set_takeD)
  moreover have "unat ` set (take 8 (i_blocks ino)) \<inter> data_blocks = {}"
    using ino(1) by (auto simp: data_blocks_def dest!: in_set_takeD)
  ultimately obtain bl0 where f: "free_direct_blocks stk bl (take 8 (i_blocks ino)) = Inr bl0" "bl_ok bl0" "free_set bl0 = {}"
    using free_direct_blocks_spec [OF ok(1), of "take 8 (i_blocks ino)" stk] full by auto
  have n: "nblk s \<le> 8" using s nblk_le [of s 8] by simp
  obtain w where w: "write_loop stk buf (int s) (sint (i_size ino)) (start_write stk bl0 ino (int s)) = Inr w"
      "full_inv bl0 ino s (nblk s) w"
    using write_loop_full [OF s f(2,3), of ino stk buf "sint (i_size ino)"] ino(1) by auto
  then have d: "w_bl w = bl0" "w_ino w = ino\<lparr>i_blocks := replicate (nblk s) (- 1) @ replicate (9 - nblk s) 0\<rparr>"
      "\<not> need_to_overwrite_indirect w"
    using ino(1) by (auto simp: full_inv_def)
  have "i_blocks (w_ino w) ! 8 = 0" using d(2) n by (simp add: nth_append)
  then obtain bl1 where fin: "finish_write stk (int s) (sint (i_size ino)) w = Inr (bl1, (w_ino w)\<lparr>i_size := word_of_nat s\<rparr>)" "bl_ok bl1"
    using free_block_spec [OF f(2), of 0 "stk Scratch"] d(1,3) s by (auto simp: finish_write_def)
  have "inode_ok ((w_ino w)\<lparr>i_size := word_of_nat s\<rparr>)" using d(2) n by (simp add: inode_ok_def)
  from put_inode_spec [OF fin(2) ok(2) this, of stk] show ?thesis
    using f(1) w(1) fin(1) d(2) ok(2) by (auto simp: write_inode_def)
qed

subsection \<open>Reading\<close>

lemma read_loop_direct:
  assumes "512 * k < n" and "k < 8" and "length (i_blocks ino) = 9"
  shows "read_loop stk bl ino ind (int n - 512 * int k) (512 * int k) k 0 buf =
     rbind (bl_read_block bl (i_blocks ino ! k) (stk (Full_direct_buffer k))) (\<lambda>full.
       read_loop stk bl ino ind (int n - 512 * int k - min 512 (int n - 512 * int k))
         (512 * int k + min 512 (int n - 512 * int k)) (k + 1) 0
         (memcpy buf (512 * k) full 0 (min 512 (n - 512 * k))))"
proof -
  have "nat (min 512 (int n - 512 * int k)) = min 512 (n - 512 * k)" using assms(1) by auto
  then show ?thesis using assms by (subst read_loop.simps) (simp add: Let_def mult.commute)
qed

text \<open>What \<open>read_file\<close> copies when all its reads are ignored.\<close>

definition junk_data :: "stack \<Rightarrow> buf" where
  "junk_data stk i = stk (Full_direct_buffer (i div 512)) (i mod 512)"

lemma read_loop_ignored:
  assumes ptr: "\<And>j. j < nblk n \<Longrightarrow> i_blocks ino ! j = - 1" and len: "length (i_blocks ino) = 9" and n: "n \<le> 4096"
    and "\<And>i. i < 512 * k \<Longrightarrow> i < n \<Longrightarrow> buf i = junk_data stk i"
  shows "\<exists>buf'. read_loop stk bl ino ind (int n - 512 * int k) (512 * int k) k 0 buf = Inr buf' \<and>
           (\<forall>i<n. buf' i = junk_data stk i)"
  using assms(4)
proof (induction "nblk n - k" arbitrary: k buf)
  case 0
  then have "n \<le> 512 * k" using nblk_less_iff [of k n] by linarith
  with 0 show ?case by (simp add: read_loop_done)
next
  case (Suc d)
  have k: "512 * k < n" "k < nblk n" using Suc(2) nblk_less_iff [of k n] by linarith+
  then have k8: "k < 8" using n by linarith
  let ?full = "stk (Full_direct_buffer k)"
  let ?buf = "memcpy buf (512 * k) ?full 0 (min 512 (n - 512 * k))"
  have rd: "bl_read_block bl (i_blocks ino ! k) ?full = Inr ?full"
    using ptr [OF k(2)] by simp
  have pre: "?buf i = junk_data stk i" if "i < 512 * (k + 1)" "i < n" for i
    using Suc(3) that by (intro copy_block_prefix) (auto simp: junk_data_def)
  note step = read_loop_direct [OF k(1) k8 len, of stk bl ind buf]
  show ?case
  proof (cases "512 * (k + 1) < n")
    case True
    then have "min 512 (int n - 512 * int k) = 512" by simp
    then have "read_loop stk bl ino ind (int n - 512 * int k) (512 * int k) k 0 buf =
        read_loop stk bl ino ind (int n - 512 * int (k + 1)) (512 * int (k + 1)) (k + 1) 0 ?buf"
      using step rd by (simp add: algebra_simps)
    with Suc(1) [of "k + 1" ?buf] Suc(2) pre show ?thesis by simp
  next
    case False
    then have "int n - 512 * int k - min 512 (int n - 512 * int k) \<le> 0" by simp
    then have "read_loop stk bl ino ind (int n - 512 * int k) (512 * int k) k 0 buf = Inr ?buf"
      using step rd by (simp add: read_loop_done)
    with pre False show ?thesis by auto
  qed
qed

text \<open>A file all of whose pointers in use are -1 reads as what the local arrays happened to hold.\<close>

lemma read_file_ignored:
  assumes use: "il_ok il" "in_use (il_bm il) (unat inum)" and ino: "ino = inode_at (il_bm il) (unat inum)"
    and n: "file_size ino = n" "n \<le> 4096"
    and ptr: "i_blocks ino = replicate (nblk n) (- 1) @ replicate (9 - nblk n) 0"
  shows "\<exists>buf il'. read_file stk t now il inum (Some b0) (Some n0) = Inr (Some (Some buf), Some (int n), il') \<and>
    (\<forall>i<n. buf i = junk_data stk i)"
proof -
  let ?ino = "ino\<lparr>i_atime := ucast now\<rparr>"
  have k: "nblk n \<le> 8" using n(2) nblk_le [of n 8] by simp
  have p8: "i_blocks ?ino ! 8 = 0" and len: "length (i_blocks ?ino) = 9"
    using ptr k by (simp_all add: nth_append)
  have sz: "sint (i_size ?ino) = int n" using file_size_sint [of ino] n by simp
  obtain bl' ind il' where run: "read_file stk t now il inum (Some b0) (Some n0) =
      rbind (read_loop stk bl' ?ino ind (int n) 0 0 0 (stk Malloc_buf)) (\<lambda>buf. Inr (Some (Some buf), Some (int n), il'))"
    using read_file_run [OF use refl, of now stk t b0 n0] ino p8 sz by (metis unat_0 zero_less_numeral)
  have "i_blocks ?ino ! j = - 1" if "j < nblk n" for j using ptr that by (simp add: nth_append)
  then obtain buf where "read_loop stk bl' ?ino ind (int n) 0 0 0 (stk Malloc_buf) = Inr buf" "\<forall>i<n. buf i = junk_data stk i"
    using read_loop_ignored [of n ?ino 0 "stk Malloc_buf" stk bl' ind] len n(2) by auto
  with run show ?thesis by simp
qed

subsection \<open>Properties\<close>

text \<open>
  C33: On a full disk \<open>put\<close> of up to 4096 bytes to an empty file that never had a block (its nine
  pointers are zero) returns \<open>OK\<close> and stores none of them; the next \<open>get\<close> returns as many bytes of
  uninitialised memory. (A file that owns direct blocks has them released and reused instead.)
\<close>

theorem full_disk_put:
  assumes "il_ok il" and "in_use (il_bm il) (unat (inum_of fid))" and "free_set (il_bm il) = {}"
    and "i_blocks (inode_at (il_bm il) (unat (inum_of fid))) = replicate 9 0"
    and "file_size (inode_at (il_bm il) (unat (inum_of fid))) = 0" and "length s \<le> 4096"
  shows "\<exists>c1 c2. client_put stk t \<lparr>es = \<lparr>im = il\<rparr>\<rparr> fid s = Inr (OK, c1) \<and>
    client_get stk' t' now c1 fid = Inr (OK, map (junk_data stk') [0..<length s], c2)"
proof -
  let ?i = "unat (inum_of fid)" and ?n = "length s"
  let ?ino = "inode_at (il_bm il) ?i"
  have ok: "bl_ok (il_bm il)" "?i < 1024" using assms(1,2) by (auto simp: il_ok_def in_use_def)
  obtain bl' where w: "write_inode stk (il_bm il) (inum_of fid) ?ino (c_str s) (int ?n) = Inr bl'" "bl_ok bl'"
      "inode_at bl' ?i = ?ino\<lparr>i_blocks := replicate (nblk ?n) (- 1) @ replicate (9 - nblk ?n) 0, i_size := word_of_nat ?n\<rparr>"
    using write_inode_full [OF ok assms(4) _ assms(3,6), of stk "c_str s"] assms(5) by auto
  let ?il = "il\<lparr>il_bm := bl'\<rparr>"
  have "write_file stk t il (inum_of fid) (c_str s) (int ?n) = Inr ?il"
    using assms(6) by (intro write_file_run [OF assms(1,2) _ w(1)]) simp
  then have put: "client_put stk t (client_of il) fid s = Inr (OK, client_of ?il)"
    using assms(6) by (intro client_put_il) simp_all
  have use: "il_ok ?il" "in_use (il_bm ?il) ?i" using assms(1,2) w(2,3) by (simp_all add: il_ok_def in_use_def)
  have "file_size (inode_at (il_bm ?il) ?i) = ?n"
    using w(3) assms(6) by (simp add: file_size_def)
  then obtain buf il' where "read_file stk' t' now ?il (inum_of fid) (Some None) (Some 0) = Inr (Some (Some buf), Some (int ?n), il')"
      "\<forall>i<?n. buf i = junk_data stk' i"
    using read_file_ignored [OF use refl, of ?n stk' t' now None 0] w(3) assms(6) by auto
  then have "client_get stk' t' now (client_of ?il) fid = Inr (OK, map (junk_data stk') [0..<?n], client_of il')"
    using client_get_il [of stk' t' now ?il fid buf ?n il'] by simp
  with put show ?thesis by blast
qed

theorem full_disk_put_witness:
  "\<exists>il c1 c2. free_set (il_bm il) = {} \<and> client_put (\<lambda>_ _. 0) 1 \<lparr>es = \<lparr>im = il\<rparr>\<rparr> 0 [1, 2] = Inr (OK, c1) \<and>
     client_get (\<lambda>_ _. 99) 1 0 c1 0 = Inr (OK, [99, 99], c2)"
proof -
  obtain il0 where il0: "il_ok il0" "in_use (il_bm il0) 0" "pointers_ok (inode_at (il_bm il0) 0)" "slim (il_bm il0) 0 0 0"
  proof -
    obtain bl where new: "bl_ok bl" "inode_at bl 0 = new_inode (0, 0, 0) 1"
      using new_inode_layer_spec [of "\<lambda>_ _. 0" "(0, 0, 0)"] by auto
    then have "slim bl 0 0 0" using new_inode_type [of "(0, 0, 0)" 1]
      by (simp add: slim_def in_use_def new_inode_def file_size_def eval_nat_numeral)
    with new that [of "\<lparr>il_bm = bl, il_rwlocks = (\<lambda>_. new_a4_rwlock)\<rparr>"] slim_pointers(1) [of bl 0 0 0] rw_idle_new
    show thesis by (simp add: il_ok_def slim_def)
  qed
  let ?bl = "(il_bm il0)\<lparr>bl_d := \<lparr>blocks = (\<lambda>j. if j \<in> bitmap_blocks then (\<lambda>_. 255) else contents (il_bm il0) j)\<rparr>\<rparr>"
  let ?il = "il0\<lparr>il_bm := ?bl\<rparr>"
  have "9 + (0 :: nat) div 9 \<notin> bitmap_blocks" by (simp add: bitmap_blocks_def)
  then have at: "inode_at ?bl 0 = inode_at (il_bm il0) 0" by (simp add: inode_at_def contents_def)
  have "used \<lparr>blocks = (\<lambda>j. if j \<in> bitmap_blocks then (\<lambda>_. 255) else contents (il_bm il0) j)\<rparr> b" if "b \<in> data_blocks" for b
  proof -
    have "bit (255 :: byte) (bit_offset_in_byte b)"
      using offsets_bound(2) [of b] bit_mask_iff [of 8 "bit_offset_in_byte b", where 'a = "8 word"]
      by (simp add: mask_eq_exp_minus_1)
    then show ?thesis using that BBLOCK_bitmap [of b] by (simp add: used_def data_blocks_def)
  qed
  then have full: "free_set ?bl = {}" by (auto simp: free_set_def)
  have z: "unat (inum_of 0) = 0" by (simp add: inum_of_def)
  have "il_ok ?il" "in_use (il_bm ?il) 0" using il0(1,2) at by (simp_all add: il_ok_def bl_ok_def in_use_def)
  moreover have "i_blocks (inode_at (il_bm ?il) 0) = replicate 9 0" "file_size (inode_at (il_bm ?il) 0) = 0"
    using il0(4) at by (simp_all add: slim_def eval_nat_numeral)
  ultimately have "\<exists>c1 c2. client_put (\<lambda>_ _. 0) 1 \<lparr>es = \<lparr>im = ?il\<rparr>\<rparr> 0 [1, 2] = Inr (OK, c1) \<and>
      client_get (\<lambda>_ _. 99) 1 0 c1 0 = Inr (OK, map (junk_data (\<lambda>_ _. 99)) [0..<length [1, 2 :: byte]], c2)"
    using full z by (intro full_disk_put) simp_all
  then show ?thesis using full by (intro exI [of _ ?il]) (simp add: junk_data_def)
qed

end
