(* ===== verification/Fifo.thy ===== *)
theory Fifo
  imports Prelude
begin

text \<open>
  \<open>rpc/fifo.h\<close>: the bounded queue of the thread pool. Each call holds the mutex (a \<open>ScopedLock\<close>)
  except while it waits on a condition variable, so one passage through its loop is atomic;
  the threads are a step relation over such passages.
\<close>

type_synonym thread = nat

subsection \<open>The operations\<close>

record 'a fifo =
  fifo_q :: "'a list"
  fifo_max :: u32

definition new_fifo :: "int \<Rightarrow> 'a fifo" where
  "new_fifo limit = \<lparr>fifo_q = [], fifo_max = word_of_int limit\<rparr>"

text \<open>
  The whole constructor and the destructor, with the results of \<open>pthread_mutex_init\<close> and
  \<open>pthread_cond_init\<close>, or of the functions that destroy, in the order of the calls.
\<close>

definition construct_fifo :: "int \<times> int \<times> int \<Rightarrow> int \<Rightarrow> fault + 'a fifo" where
  "construct_fifo rcs limit =
     (case rcs of (m, ne, sp) \<Rightarrow>
        rbind (VERIFY (m = 0)) (\<lambda>_. rbind (VERIFY (ne = 0)) (\<lambda>_. rbind (VERIFY (sp = 0)) (\<lambda>_.
          Inr (new_fifo limit)))))"

definition destroy_fifo :: "int \<times> int \<times> int \<Rightarrow> fault + unit" where
  "destroy_fifo rcs =
     (case rcs of (m, ne, sp) \<Rightarrow>
        rbind (VERIFY (m = 0)) (\<lambda>_. rbind (VERIFY (ne = 0)) (\<lambda>_. VERIFY (sp = 0))))"

lemma fifo_life:
  "construct_fifo rcs limit = (if rcs = (0, 0, 0) then Inr (new_fifo limit) else Inl Verify_failed)"
  "destroy_fifo rcs = (if rcs = (0, 0, 0) then Inr () else Inl Verify_failed)"
  by (auto simp: construct_fifo_def destroy_fifo_def VERIFY_def split: prod.splits)

text \<open>The result type of \<open>size\<close> is \<open>bool\<close>.\<close>

definition fifo_size :: "'a fifo \<Rightarrow> bool" where
  "fifo_size f \<longleftrightarrow> length (fifo_q f) \<noteq> 0"

datatype 'a enq_result = Stored "'a fifo" | Refused | Must_wait

text \<open>One passage through the loop of \<open>enq\<close>; \<open>Stored\<close> is followed by a signal on \<open>non_empty_c_\<close>.\<close>

definition enq_pass :: "'a fifo \<Rightarrow> 'a \<Rightarrow> bool \<Rightarrow> 'a enq_result" where
  "enq_pass f e blocking =
     (if fifo_max f = 0 \<or> length (fifo_q f) < unat (fifo_max f) then Stored (f\<lparr>fifo_q := fifo_q f @ [e]\<rparr>)
      else if blocking then Must_wait else Refused)"

text \<open>
  One passage through the loop of \<open>deq\<close>: the element, the queue left, and whether
  \<open>has_space_c_\<close> is signalled; \<open>None\<close> when the thread must wait.
\<close>

definition deq_pass :: "'a fifo \<Rightarrow> ('a \<times> 'a fifo \<times> bool) option" where
  "deq_pass f =
     (case fifo_q f of
        [] \<Rightarrow> None
      | x # xs \<Rightarrow> Some (x, f\<lparr>fifo_q := xs\<rparr>, fifo_max f \<noteq> 0 \<and> length xs < unat (fifo_max f)))"

subsection \<open>Threads\<close>

datatype 'a fifo_pc =
    F_idle
  | F_enq 'a bool    \<comment> \<open>in \<open>enq\<close>, able to take the mutex\<close>
  | F_enq_wait 'a    \<comment> \<open>waiting on \<open>has_space_c_\<close>\<close>
  | F_deq            \<comment> \<open>in \<open>deq\<close>, able to take the mutex\<close>
  | F_deq_wait       \<comment> \<open>waiting on \<open>non_empty_c_\<close>\<close>

record 'a fifo_sys =
  fs_fifo :: "'a fifo"
  fs_pc :: "thread \<Rightarrow> 'a fifo_pc"
  fs_in :: "'a list"   \<comment> \<open>everything stored so far\<close>
  fs_out :: "'a list"  \<comment> \<open>everything taken so far\<close>

text \<open>\<open>pthread_cond_signal\<close>: one waiting thread, if there is one, can go on.\<close>

definition signal_deq :: "(thread \<Rightarrow> 'a fifo_pc) \<Rightarrow> (thread \<Rightarrow> 'a fifo_pc) \<Rightarrow> bool" where
  "signal_deq pc pc' \<longleftrightarrow>
     (if \<exists>t. pc t = F_deq_wait then \<exists>t. pc t = F_deq_wait \<and> pc' = pc(t := F_deq) else pc' = pc)"

definition signal_enq :: "(thread \<Rightarrow> 'a fifo_pc) \<Rightarrow> (thread \<Rightarrow> 'a fifo_pc) \<Rightarrow> bool" where
  "signal_enq pc pc' \<longleftrightarrow>
     (if \<exists>t e. pc t = F_enq_wait e
      then \<exists>t e. pc t = F_enq_wait e \<and> pc' = pc(t := F_enq e True) else pc' = pc)"

inductive fifo_step :: "'a fifo_sys \<Rightarrow> 'a fifo_sys \<Rightarrow> bool" where
  call_enq: "fs_pc s t = F_idle \<Longrightarrow> fifo_step s (s\<lparr>fs_pc := (fs_pc s)(t := F_enq e b)\<rparr>)"
| call_deq: "fs_pc s t = F_idle \<Longrightarrow> fifo_step s (s\<lparr>fs_pc := (fs_pc s)(t := F_deq)\<rparr>)"
| enq_store: "fs_pc s t = F_enq e b \<Longrightarrow> enq_pass (fs_fifo s) e b = Stored f \<Longrightarrow>
    signal_deq ((fs_pc s)(t := F_idle)) pc' \<Longrightarrow>
    fifo_step s (s\<lparr>fs_fifo := f, fs_pc := pc', fs_in := fs_in s @ [e]\<rparr>)"
| enq_refuse: "fs_pc s t = F_enq e b \<Longrightarrow> enq_pass (fs_fifo s) e b = Refused \<Longrightarrow>
    fifo_step s (s\<lparr>fs_pc := (fs_pc s)(t := F_idle)\<rparr>)"
| enq_wait: "fs_pc s t = F_enq e b \<Longrightarrow> enq_pass (fs_fifo s) e b = Must_wait \<Longrightarrow>
    fifo_step s (s\<lparr>fs_pc := (fs_pc s)(t := F_enq_wait e)\<rparr>)"
| deq_take: "fs_pc s t = F_deq \<Longrightarrow> deq_pass (fs_fifo s) = Some (x, f, sig) \<Longrightarrow>
    (if sig then signal_enq ((fs_pc s)(t := F_idle)) pc' else pc' = (fs_pc s)(t := F_idle)) \<Longrightarrow>
    fifo_step s (s\<lparr>fs_fifo := f, fs_pc := pc', fs_out := fs_out s @ [x]\<rparr>)"
| deq_wait: "fs_pc s t = F_deq \<Longrightarrow> deq_pass (fs_fifo s) = None \<Longrightarrow>
    fifo_step s (s\<lparr>fs_pc := (fs_pc s)(t := F_deq_wait)\<rparr>)"
| wake_enq: "fs_pc s t = F_enq_wait e \<Longrightarrow> fifo_step s (s\<lparr>fs_pc := (fs_pc s)(t := F_enq e True)\<rparr>)"
| wake_deq: "fs_pc s t = F_deq_wait \<Longrightarrow> fifo_step s (s\<lparr>fs_pc := (fs_pc s)(t := F_deq)\<rparr>)"

definition fifo_start :: "int \<Rightarrow> 'a fifo_sys" where
  "fifo_start limit = \<lparr>fs_fifo = new_fifo limit, fs_pc = (\<lambda>_. F_idle), fs_in = [], fs_out = []\<rparr>"

inductive fifo_reachable :: "int \<Rightarrow> 'a fifo_sys \<Rightarrow> bool" for limit where
  start: "fifo_reachable limit (fifo_start limit)"
| step: "fifo_reachable limit s \<Longrightarrow> fifo_step s s' \<Longrightarrow> fifo_reachable limit s'"

subsection \<open>The invariant\<close>

text \<open>The threads inside \<open>enq\<close> and \<open>deq\<close>, running and waiting.\<close>

definition enqs :: "(thread \<Rightarrow> 'a fifo_pc) \<Rightarrow> thread set" where
  "enqs pc = {t. \<exists>e b. pc t = F_enq e b}"

definition enq_waits :: "(thread \<Rightarrow> 'a fifo_pc) \<Rightarrow> thread set" where
  "enq_waits pc = {t. \<exists>e. pc t = F_enq_wait e}"

definition deqs :: "(thread \<Rightarrow> 'a fifo_pc) \<Rightarrow> thread set" where
  "deqs pc = {t. pc t = F_deq}"

definition deq_waits :: "(thread \<Rightarrow> 'a fifo_pc) \<Rightarrow> thread set" where
  "deq_waits pc = {t. pc t = F_deq_wait}"

text \<open>
  Order and capacity, and the accounting behind the signals: a thread waits in \<open>deq\<close> only while
  every element left has a running \<open>deq\<close> to take it, and waits in \<open>enq\<close> only while every free
  place has a running \<open>enq\<close> to fill it.
\<close>

definition fifo_inv :: "'a fifo_sys \<Rightarrow> bool" where
  "fifo_inv s \<longleftrightarrow>
     finite (enqs (fs_pc s)) \<and> finite (deqs (fs_pc s)) \<and>
     fs_in s = fs_out s @ fifo_q (fs_fifo s) \<and>
     (fifo_max (fs_fifo s) \<noteq> 0 \<longrightarrow> length (fifo_q (fs_fifo s)) \<le> unat (fifo_max (fs_fifo s))) \<and>
     (deq_waits (fs_pc s) \<noteq> {} \<longrightarrow> length (fifo_q (fs_fifo s)) \<le> card (deqs (fs_pc s))) \<and>
     (enq_waits (fs_pc s) \<noteq> {} \<longrightarrow> fifo_max (fs_fifo s) \<noteq> 0 \<and>
        unat (fifo_max (fs_fifo s)) \<le> length (fifo_q (fs_fifo s)) + card (enqs (fs_pc s)))"

lemma sets_upd:
  "enqs (pc(t := p)) = (case p of F_enq e b \<Rightarrow> insert t (enqs pc) | _ \<Rightarrow> enqs pc - {t})"
  "enq_waits (pc(t := p)) = (case p of F_enq_wait e \<Rightarrow> insert t (enq_waits pc) | _ \<Rightarrow> enq_waits pc - {t})"
  "deqs (pc(t := p)) = (case p of F_deq \<Rightarrow> insert t (deqs pc) | _ \<Rightarrow> deqs pc - {t})"
  "deq_waits (pc(t := p)) = (case p of F_deq_wait \<Rightarrow> insert t (deq_waits pc) | _ \<Rightarrow> deq_waits pc - {t})"
  by (auto simp: enqs_def enq_waits_def deqs_def deq_waits_def split: fifo_pc.splits)

lemma sets_mem:
  "t \<in> enqs pc \<longleftrightarrow> (\<exists>e b. pc t = F_enq e b)" "t \<in> enq_waits pc \<longleftrightarrow> (\<exists>e. pc t = F_enq_wait e)"
  "t \<in> deqs pc \<longleftrightarrow> pc t = F_deq" "t \<in> deq_waits pc \<longleftrightarrow> pc t = F_deq_wait"
  by (simp_all add: enqs_def enq_waits_def deqs_def deq_waits_def)

text \<open>A thread moves between disjoint sets.\<close>

lemma sets_move:
  "pc t = F_idle \<Longrightarrow> enqs pc - {t} = enqs pc \<and> enq_waits pc - {t} = enq_waits pc \<and>
     deqs pc - {t} = deqs pc \<and> deq_waits pc - {t} = deq_waits pc"
  "pc t = F_enq e b \<Longrightarrow> enq_waits pc - {t} = enq_waits pc \<and>
     deqs pc - {t} = deqs pc \<and> deq_waits pc - {t} = deq_waits pc"
  "pc t = F_deq \<Longrightarrow> enqs pc - {t} = enqs pc \<and> enq_waits pc - {t} = enq_waits pc \<and>
     deq_waits pc - {t} = deq_waits pc"
  "pc t = F_enq_wait e \<Longrightarrow> enqs pc - {t} = enqs pc \<and> deqs pc - {t} = deqs pc \<and>
     deq_waits pc - {t} = deq_waits pc"
  "pc t = F_deq_wait \<Longrightarrow> enqs pc - {t} = enqs pc \<and> deqs pc - {t} = deqs pc \<and>
     enq_waits pc - {t} = enq_waits pc"
  by (auto simp: enqs_def enq_waits_def deqs_def deq_waits_def)

lemma signal_deq_sets:
  assumes "signal_deq pc pc'" and "finite (deqs pc)"
  shows "enqs pc' = enqs pc \<and> enq_waits pc' = enq_waits pc \<and> finite (deqs pc')"
    and "deq_waits pc' \<noteq> {} \<Longrightarrow> card (deqs pc') = Suc (card (deqs pc)) \<and> deq_waits pc \<noteq> {}"
proof -
  consider "deq_waits pc = {}" "pc' = pc" | t where "pc t = F_deq_wait" "pc' = pc(t := F_deq)"
    using assms(1) by (auto simp: signal_deq_def deq_waits_def split: if_splits)
  then have "(enqs pc' = enqs pc \<and> enq_waits pc' = enq_waits pc \<and> finite (deqs pc')) \<and>
      (deq_waits pc' \<noteq> {} \<longrightarrow> card (deqs pc') = Suc (card (deqs pc)) \<and> deq_waits pc \<noteq> {})"
    by cases (use assms(2) in \<open>auto simp: sets_upd sets_move sets_mem\<close>)
  then show "enqs pc' = enqs pc \<and> enq_waits pc' = enq_waits pc \<and> finite (deqs pc')"
    and "deq_waits pc' \<noteq> {} \<Longrightarrow> card (deqs pc') = Suc (card (deqs pc)) \<and> deq_waits pc \<noteq> {}"
    by blast+
qed

lemma signal_enq_sets:
  assumes "signal_enq pc pc'" and "finite (enqs pc)"
  shows "deqs pc' = deqs pc \<and> deq_waits pc' = deq_waits pc \<and> finite (enqs pc')"
    and "enq_waits pc' \<noteq> {} \<Longrightarrow> card (enqs pc') = Suc (card (enqs pc)) \<and> enq_waits pc \<noteq> {}"
proof -
  consider "enq_waits pc = {}" "pc' = pc"
    | t e where "pc t = F_enq_wait e" "pc' = pc(t := F_enq e True)"
    using assms(1) by (auto simp: signal_enq_def enq_waits_def split: if_splits)
  then have "(deqs pc' = deqs pc \<and> deq_waits pc' = deq_waits pc \<and> finite (enqs pc')) \<and>
      (enq_waits pc' \<noteq> {} \<longrightarrow> card (enqs pc') = Suc (card (enqs pc)) \<and> enq_waits pc \<noteq> {})"
    by cases (use assms(2) in \<open>auto simp: sets_upd sets_move sets_mem\<close>)
  then show "deqs pc' = deqs pc \<and> deq_waits pc' = deq_waits pc \<and> finite (enqs pc')"
    and "enq_waits pc' \<noteq> {} \<Longrightarrow> card (enqs pc') = Suc (card (enqs pc)) \<and> enq_waits pc \<noteq> {}"
    by blast+
qed

lemma card_leave: "finite A \<Longrightarrow> t \<in> A \<Longrightarrow> Suc (card (A - {t})) = card A"
  by (rule card_Suc_Diff1)

text \<open>The two steps that signal.\<close>

lemma enq_store_inv:
  assumes "fifo_inv s" and "fs_pc s t = F_enq e b" and "enq_pass (fs_fifo s) e b = Stored f"
    and "signal_deq ((fs_pc s)(t := F_idle)) pc'"
  shows "fifo_inv (s\<lparr>fs_fifo := f, fs_pc := pc', fs_in := fs_in s @ [e]\<rparr>)"
proof -
  let ?pc = "(fs_pc s)(t := F_idle)"
  have f: "f = (fs_fifo s)\<lparr>fifo_q := fifo_q (fs_fifo s) @ [e]\<rparr>"
    "fifo_max (fs_fifo s) = 0 \<or> length (fifo_q (fs_fifo s)) < unat (fifo_max (fs_fifo s))"
    using assms(3) by (auto simp: enq_pass_def split: if_splits)
  have fin: "finite (deqs ?pc)" "finite (enqs (fs_pc s))"
    using assms(1) assms(2) by (auto simp: fifo_inv_def sets_upd sets_move)
  have pc: "enqs ?pc = enqs (fs_pc s) - {t}" "enq_waits ?pc = enq_waits (fs_pc s)"
    "deqs ?pc = deqs (fs_pc s)" "deq_waits ?pc = deq_waits (fs_pc s)"
    using assms(2) by (simp_all add: sets_upd sets_move)
  have "Suc (card (enqs ?pc)) = card (enqs (fs_pc s))"
    using fin(2) assms(2) unfolding pc by (intro card_leave) (auto simp: sets_mem)
  with signal_deq_sets [OF assms(4) fin(1)] f pc assms(1) show ?thesis
    by (auto simp: fifo_inv_def)
qed

lemma deq_take_inv:
  assumes "fifo_inv s" and "fs_pc s t = F_deq" and "deq_pass (fs_fifo s) = Some (x, f, sig)"
    and "if sig then signal_enq ((fs_pc s)(t := F_idle)) pc' else pc' = (fs_pc s)(t := F_idle)"
  shows "fifo_inv (s\<lparr>fs_fifo := f, fs_pc := pc', fs_out := fs_out s @ [x]\<rparr>)"
proof -
  let ?pc = "(fs_pc s)(t := F_idle)"
  obtain xs where q: "fifo_q (fs_fifo s) = x # xs" "f = (fs_fifo s)\<lparr>fifo_q := xs\<rparr>"
    "sig \<longleftrightarrow> fifo_max (fs_fifo s) \<noteq> 0 \<and> length xs < unat (fifo_max (fs_fifo s))"
    using assms(3) by (auto simp: deq_pass_def split: list.splits)
  have fin: "finite (enqs ?pc)" "finite (deqs (fs_pc s))"
    using assms(1) assms(2) by (auto simp: fifo_inv_def sets_upd sets_move)
  have pc: "deqs ?pc = deqs (fs_pc s) - {t}" "enq_waits ?pc = enq_waits (fs_pc s)"
    "enqs ?pc = enqs (fs_pc s)" "deq_waits ?pc = deq_waits (fs_pc s)"
    using assms(2) by (simp_all add: sets_upd sets_move)
  have c: "Suc (card (deqs ?pc)) = card (deqs (fs_pc s))"
    using fin(2) assms(2) unfolding pc by (intro card_leave) (auto simp: sets_mem)
  show ?thesis
  proof (cases sig)
    case True
    with assms(4) have "signal_enq ?pc pc'" by simp
    from signal_enq_sets [OF this fin(1)] q pc c fin assms(1) show ?thesis
      by (auto simp: fifo_inv_def)
  next
    case False
    with assms(4) have pc': "pc' = ?pc" by simp
    from False q assms(1) have "fifo_max (fs_fifo s) = 0" by (auto simp: fifo_inv_def)
    with pc' q pc c fin assms(1) show ?thesis by (auto simp: fifo_inv_def)
  qed
qed

lemma fifo_step_inv:
  assumes "fifo_step s s'" and "fifo_inv s"
  shows "fifo_inv s'"
  using assms
proof (induction rule: fifo_step.induct)
  case (enq_store s t e b f pc')
  then show ?case by (intro enq_store_inv)
next
  case (deq_take s t x f sig pc')
  then show ?case by (intro deq_take_inv)
next
  case (enq_wait s t e b)
  then show ?case
    by (auto simp: fifo_inv_def sets_upd sets_move enq_pass_def split: if_splits)
next
  case (enq_refuse s t e b)
  then show ?case
    by (auto simp: fifo_inv_def sets_upd sets_move enq_pass_def split: if_splits)
next
  case (deq_wait s t)
  then show ?case
    by (auto simp: fifo_inv_def sets_upd sets_move deq_pass_def split: list.splits)
qed (auto simp: fifo_inv_def sets_upd sets_move sets_mem card_insert_if)

lemma fifo_reachable_inv: "fifo_reachable limit s \<Longrightarrow> fifo_inv s"
proof (induction rule: fifo_reachable.induct)
  case start
  show ?case by (simp add: fifo_inv_def fifo_start_def new_fifo_def enqs_def deqs_def enq_waits_def deq_waits_def)
qed (rule fifo_step_inv)

lemma fifo_reachable_max: "fifo_reachable limit s \<Longrightarrow> fifo_max (fs_fifo s) = word_of_int limit"
proof (induction rule: fifo_reachable.induct)
  case (step s s')
  from step.hyps(2) have "fifo_max (fs_fifo s') = fifo_max (fs_fifo s)"
    by cases (auto simp: enq_pass_def deq_pass_def split: if_splits list.splits)
  with step.IH show ?case by simp
qed (simp add: fifo_start_def new_fifo_def)

lemma fifo_inv_live:
  assumes "fifo_inv s" and "enqs (fs_pc s) = {}" and "deqs (fs_pc s) = {}"
  shows "(fifo_q (fs_fifo s) = [] \<or> deq_waits (fs_pc s) = {}) \<and>
    (enq_waits (fs_pc s) = {} \<or>
       deq_waits (fs_pc s) = {} \<and> length (fifo_q (fs_fifo s)) = unat (fifo_max (fs_fifo s)))"
proof -
  have "fifo_q (fs_fifo s) = []" if "deq_waits (fs_pc s) \<noteq> {}"
    using assms(1,3) that by (auto simp: fifo_inv_def)
  moreover have "fifo_max (fs_fifo s) \<noteq> 0 \<and> length (fifo_q (fs_fifo s)) = unat (fifo_max (fs_fifo s))"
    if "enq_waits (fs_pc s) \<noteq> {}" using assms(1,2) that by (auto simp: fifo_inv_def)
  ultimately show ?thesis by (metis list.size(3) unat_eq_zero)
qed

subsection \<open>Properties\<close>

text \<open>
  C15: With any number of threads, elements leave the queue in the order they were stored, none
  is lost or duplicated, and a queue with a limit never holds more than the limit.
\<close>

theorem fifo_order_capacity:
  assumes "fifo_reachable limit s"
  shows "fs_in s = fs_out s @ fifo_q (fs_fifo s) \<and>
    (0 < limit \<and> limit < 2 ^ 32 \<longrightarrow> int (length (fifo_q (fs_fifo s))) \<le> limit)"
proof -
  have inv: "fifo_inv s" and max: "fifo_max (fs_fifo s) = word_of_int limit"
    using fifo_reachable_inv [OF assms] fifo_reachable_max [OF assms] by auto
  have "int (length (fifo_q (fs_fifo s))) \<le> limit" if "0 < limit" "limit < 2 ^ 32"
  proof -
    have "uint (word_of_int limit :: u32) = limit" using that by (simp add: uint_word_of_int)
    then have "int (unat (fifo_max (fs_fifo s))) = limit" "fifo_max (fs_fifo s) \<noteq> 0"
      using max that by auto
    with inv show ?thesis unfolding fifo_inv_def by (metis of_nat_le_iff)
  qed
  with inv show ?thesis by (simp add: fifo_inv_def)
qed

lemma one_enq_reachable:
  "fifo_reachable 1 \<lparr>fs_fifo = \<lparr>fifo_q = [e], fifo_max = 1\<rparr>, fs_pc = (\<lambda>_. F_idle), fs_in = [e], fs_out = []\<rparr>"
proof -
  let ?s0 = "fifo_start 1 :: 'a fifo_sys"
  let ?s1 = "?s0\<lparr>fs_pc := (fs_pc ?s0)(0 := F_enq e True)\<rparr>"
  have "fifo_step ?s0 ?s1" by (rule fifo_step.call_enq) (simp add: fifo_start_def)
  moreover have "fifo_step ?s1 (?s1\<lparr>fs_fifo := \<lparr>fifo_q = [e], fifo_max = 1\<rparr>, fs_pc := (\<lambda>_. F_idle),
      fs_in := fs_in ?s1 @ [e]\<rparr>)"
    by (rule fifo_step.enq_store [of _ 0 _ True])
      (auto simp: fifo_start_def new_fifo_def enq_pass_def signal_deq_def)
  ultimately have "fifo_reachable 1 (?s1\<lparr>fs_fifo := \<lparr>fifo_q = [e], fifo_max = 1\<rparr>, fs_pc := (\<lambda>_. F_idle),
      fs_in := fs_in ?s1 @ [e]\<rparr>)"
    by (meson fifo_reachable.intros)
  then show ?thesis by (simp add: fifo_start_def)
qed

theorem fifo_order_capacity_witness:
  "\<exists>s. fifo_reachable 1 s \<and> fs_in s = [True] \<and> fs_out s @ fifo_q (fs_fifo s) = [True] \<and>
     int (length (fifo_q (fs_fifo s))) \<le> 1"
  using fifo_order_capacity [OF one_enq_reachable [of True]] one_enq_reachable [of True] by fastforce

text \<open>
  C16: No wake-up is lost: in every reachable state in which no thread inside the queue can run,
  threads wait in \<open>deq\<close> only on an empty queue and in \<open>enq\<close> only on a full one, and not both.
\<close>

theorem fifo_live:
  assumes "fifo_reachable limit s" and "enqs (fs_pc s) = {}" and "deqs (fs_pc s) = {}"
  shows "(fifo_q (fs_fifo s) = [] \<or> deq_waits (fs_pc s) = {}) \<and>
    (enq_waits (fs_pc s) = {} \<or>
       deq_waits (fs_pc s) = {} \<and> length (fifo_q (fs_fifo s)) = unat (fifo_max (fs_fifo s)))"
  using fifo_inv_live [OF fifo_reachable_inv [OF assms(1)] assms(2,3)] .

theorem fifo_live_witness:
  "\<exists>s :: bool fifo_sys. fifo_reachable 1 s \<and> fifo_q (fs_fifo s) = [True] \<and> deq_waits (fs_pc s) = {}"
proof -
  let ?s = "\<lparr>fs_fifo = \<lparr>fifo_q = [True], fifo_max = 1\<rparr>, fs_pc = (\<lambda>_. F_idle), fs_in = [True], fs_out = []\<rparr>"
  have "enqs (fs_pc ?s) = {}" "deqs (fs_pc ?s) = {}" by (simp_all add: enqs_def deqs_def)
  from fifo_live [OF one_enq_reachable this] one_enq_reachable [of True] show ?thesis
    by (intro exI [of _ ?s]) simp
qed

end
