(* ===== verification/Marshall.thy ===== *)
theory Marshall
  imports Fs_Protocol
begin

text \<open>
  \<open>rpc/marshall.h\<close>: the buffers that hold a request or a reply, their headers, and the
  operators for vectors, maps and file attributes. The operators for single values and
  \<open>pack\<close>, \<open>unpack\<close>, \<open>okdone\<close> are compiled into \<open>librpc.a\<close>; they are arguments here, with
  \<open>appends\<close>, \<open>consumes\<close>, \<open>packs\<close>, \<open>unpacks\<close> and \<open>checks_done\<close> as what is relied on.
\<close>

subsection \<open>Headers\<close>

record req_header =
  rq_xid :: u32
  rq_proc :: u32
  rq_clt_nonce :: u32
  rq_srv_nonce :: u32
  rq_xid_rep :: u32

record reply_header =
  rp_xid :: u32
  rp_ret :: u32

definition static_max :: "int \<Rightarrow> int \<Rightarrow> int" where
  "static_max a b = (if a > b then a else b)"

definition static_min :: "int \<Rightarrow> int \<Rightarrow> int" where
  "static_min a b = (if a < b then a else b)"

definition DEFAULT_RPC_SZ :: nat where
  "DEFAULT_RPC_SZ = 1024"

text \<open>The position after the size word and, with \<open>RPC_CHECKSUMMING\<close>, the checksum.\<close>

definition header_start :: "bool \<Rightarrow> nat" where
  "header_start chk = 4 + (if chk then 8 else 0)"

definition RPC_HEADER_SZ :: "bool \<Rightarrow> nat" where
  "RPC_HEADER_SZ chk =
     (if chk then nat (static_max 20 8 + 4 + 8) else nat (static_max 20 8 + 4))"

lemma RPC_HEADER_SZ_eq: "RPC_HEADER_SZ chk = header_start chk + 20"
  by (simp add: RPC_HEADER_SZ_def header_start_def static_max_def)

subsection \<open>Marshalling buffers\<close>

record marshall =
  m_buf :: "buf option"
  m_capa :: nat
  m_ind :: nat

text \<open>\<open>junk\<close> is what the fresh block of \<open>malloc\<close> holds.\<close>

definition new_marshall :: "bool \<Rightarrow> buf \<Rightarrow> marshall" where
  "new_marshall chk junk = \<lparr>m_buf = Some junk, m_capa = DEFAULT_RPC_SZ, m_ind = RPC_HEADER_SZ chk\<rparr>"

definition get_content :: "bool \<Rightarrow> marshall \<Rightarrow> fault + byte list" where
  "get_content chk m =
     (case m_buf m of
        None \<Rightarrow> Inl Null_deref
      | Some b \<Rightarrow> if m_ind m < RPC_HEADER_SZ chk then Inl Length_error
                  else Inr (map b [RPC_HEADER_SZ chk..<m_ind m]))"

definition pack_req_header :: "(marshall \<Rightarrow> u32 \<Rightarrow> marshall) \<Rightarrow> bool \<Rightarrow> marshall \<Rightarrow> req_header \<Rightarrow> marshall" where
  "pack_req_header pack chk m h =
     (let saved_sz = m_ind m;
          m = m\<lparr>m_ind := header_start chk\<rparr>;
          m = pack m (rq_xid h);
          m = pack m (rq_proc h);
          m = pack m (rq_clt_nonce h);
          m = pack m (rq_srv_nonce h);
          m = pack m (rq_xid_rep h)
      in m\<lparr>m_ind := saved_sz\<rparr>)"

definition pack_reply_header :: "(marshall \<Rightarrow> u32 \<Rightarrow> marshall) \<Rightarrow> bool \<Rightarrow> marshall \<Rightarrow> reply_header \<Rightarrow> marshall" where
  "pack_reply_header pack chk m h =
     (let saved_sz = m_ind m;
          m = m\<lparr>m_ind := header_start chk\<rparr>;
          m = pack m (rp_xid h);
          m = pack m (rp_ret h)
      in m\<lparr>m_ind := saved_sz\<rparr>)"

definition m_take_buf :: "marshall \<Rightarrow> (buf option \<times> nat) \<times> marshall" where
  "m_take_buf m = ((m_buf m, m_ind m), m\<lparr>m_buf := None, m_ind := 0\<rparr>)"

definition m_size :: "marshall \<Rightarrow> nat" where
  "m_size m = m_ind m"

definition m_cstr :: "marshall \<Rightarrow> buf option" where
  "m_cstr m = m_buf m"

text \<open>The destructor: the buffer it hands to \<open>free\<close>, if any.\<close>

definition m_destroy :: "marshall \<Rightarrow> buf option" where
  "m_destroy m = (case m_buf m of None \<Rightarrow> None | Some b \<Rightarrow> Some b)"

subsection \<open>Unmarshalling buffers\<close>

record unmarshall =
  u_buf :: "buf option"
  u_sz :: nat
  u_ind :: nat
  u_ok :: bool

definition new_unmarshall :: unmarshall where
  "new_unmarshall = \<lparr>u_buf = None, u_sz = 0, u_ind = 0, u_ok = False\<rparr>"

definition unmarshall_buf :: "buf option \<Rightarrow> nat \<Rightarrow> unmarshall" where
  "unmarshall_buf b sz = \<lparr>u_buf = b, u_sz = sz, u_ind = 0, u_ok = True\<rparr>"

text \<open>\<open>realloc\<close> keeps the bytes of the old block; the rest is \<open>junk\<close>.\<close>

definition take_content :: "bool \<Rightarrow> buf \<Rightarrow> unmarshall \<Rightarrow> byte list \<Rightarrow> unmarshall" where
  "take_content chk junk u s =
     (let old = (case u_buf u of None \<Rightarrow> junk | Some b \<Rightarrow> (\<lambda>i. if i < u_sz u then b i else junk i))
      in u\<lparr>u_sz := length s + RPC_HEADER_SZ chk,
           u_buf := Some (memcpy old (RPC_HEADER_SZ chk) (\<lambda>i. s ! i) 0 (length s)),
           u_ind := RPC_HEADER_SZ chk, u_ok := True\<rparr>)"

definition unmarshall_string :: "bool \<Rightarrow> buf \<Rightarrow> byte list \<Rightarrow> unmarshall" where
  "unmarshall_string chk junk s = take_content chk junk new_unmarshall s"

definition u_take_buf :: "unmarshall \<Rightarrow> (buf option \<times> nat) \<times> unmarshall" where
  "u_take_buf u = ((u_buf u, u_sz u), u\<lparr>u_sz := 0, u_ind := 0, u_buf := None\<rparr>)"

definition u_okay :: "unmarshall \<Rightarrow> bool" where
  "u_okay u = u_ok u"

definition u_cstr :: "unmarshall \<Rightarrow> buf option" where
  "u_cstr u = u_buf u"

definition u_position :: "unmarshall \<Rightarrow> nat" where
  "u_position u = u_ind u"

definition u_size :: "unmarshall \<Rightarrow> nat" where
  "u_size u = u_sz u"

definition u_destroy :: "unmarshall \<Rightarrow> buf option" where
  "u_destroy u = (case u_buf u of None \<Rightarrow> None | Some b \<Rightarrow> Some b)"

definition unpack_req_header ::
    "(unmarshall \<Rightarrow> u32 \<times> unmarshall) \<Rightarrow> bool \<Rightarrow> unmarshall \<Rightarrow> req_header \<times> unmarshall" where
  "unpack_req_header unpack chk u =
     (let u = u\<lparr>u_ind := header_start chk\<rparr>;
          (xid, u) = unpack u;
          (proc, u) = unpack u;
          (clt_nonce, u) = unpack u;
          (srv_nonce, u) = unpack u;
          (xid_rep, u) = unpack u
      in (\<lparr>rq_xid = xid, rq_proc = proc, rq_clt_nonce = clt_nonce, rq_srv_nonce = srv_nonce,
           rq_xid_rep = xid_rep\<rparr>, u\<lparr>u_ind := RPC_HEADER_SZ chk\<rparr>))"

definition unpack_reply_header ::
    "(unmarshall \<Rightarrow> u32 \<times> unmarshall) \<Rightarrow> bool \<Rightarrow> unmarshall \<Rightarrow> reply_header \<times> unmarshall" where
  "unpack_reply_header unpack chk u =
     (let u = u\<lparr>u_ind := header_start chk\<rparr>;
          (xid, u) = unpack u;
          (ret, u) = unpack u
      in (\<lparr>rp_xid = xid, rp_ret = ret\<rparr>, u\<lparr>u_ind := RPC_HEADER_SZ chk\<rparr>))"

subsection \<open>Operators for compound values\<close>

text \<open>
  A writer is \<open>operator<<\<close>; a reader is \<open>operator>>\<close>, which gets the variable it assigns to,
  with its old value, by reference.
\<close>

type_synonym 'a writer = "marshall \<Rightarrow> 'a \<Rightarrow> marshall"
type_synonym 'a reader = "unmarshall \<Rightarrow> 'a \<Rightarrow> 'a \<times> unmarshall"

text \<open>The \<open>unsigned\<close> counter of the loop reaches the size of a vector of fewer than \<open>2\<^sup>3\<^sup>2\<close> elements.\<close>

definition put_vector :: "u32 writer \<Rightarrow> 'a writer \<Rightarrow> 'a list writer" where
  "put_vector put_uint put m v = foldl put (put_uint m (word_of_nat (length v))) v"

text \<open>\<open>z0\<close> is what a fresh local of the element type holds.\<close>

primrec get_elements :: "'a reader \<Rightarrow> 'a \<Rightarrow> nat \<Rightarrow> 'a list reader" where
  "get_elements get z0 0 u v = (v, u)"
| "get_elements get z0 (Suc n) u v =
     (let (z, u) = get u z0 in get_elements get z0 n u (v @ [z]))"

definition get_vector :: "u32 reader \<Rightarrow> u32 \<Rightarrow> 'a reader \<Rightarrow> 'a \<Rightarrow> 'a list reader" where
  "get_vector get_uint n0 get z0 u v =
     (let (n, u) = get_uint u n0 in get_elements get z0 (unat n) u v)"

text \<open>A \<open>std::map\<close> is its list of entries in key order.\<close>

fun map_assign :: "('k :: linorder \<times> 'v) list \<Rightarrow> 'k \<Rightarrow> 'v \<Rightarrow> ('k \<times> 'v) list" where
  "map_assign [] a b = [(a, b)]"
| "map_assign ((k, v) # d) a b =
     (if a < k then (a, b) # (k, v) # d
      else if a = k then (k, b) # d
      else (k, v) # map_assign d a b)"

definition put_map :: "u32 writer \<Rightarrow> 'k writer \<Rightarrow> 'v writer \<Rightarrow> ('k \<times> 'v) list writer" where
  "put_map put_uint putk putv m d =
     foldl (\<lambda>m (k, v). putv (putk m k) v) (put_uint m (word_of_nat (length d))) d"

primrec get_entries ::
    "'k :: linorder reader \<Rightarrow> 'k \<Rightarrow> 'v reader \<Rightarrow> 'v \<Rightarrow> nat \<Rightarrow> ('k \<times> 'v) list reader" where
  "get_entries getk k0 getv v0 0 u d = (d, u)"
| "get_entries getk k0 getv v0 (Suc n) u d =
     (let (a, u) = getk u k0; (b, u) = getv u v0 in
      get_entries getk k0 getv v0 n u (map_assign d a b))"

definition get_map ::
    "u32 reader \<Rightarrow> u32 \<Rightarrow> 'k :: linorder reader \<Rightarrow> 'k \<Rightarrow> 'v reader \<Rightarrow> 'v \<Rightarrow> ('k \<times> 'v) list reader" where
  "get_map get_uint n0 getk k0 getv v0 u d =
     (let (n, u) = get_uint u n0 in get_entries getk k0 getv v0 (unat n) u [])"

definition put_attr :: "u32 writer \<Rightarrow> attr writer" where
  "put_attr put_uint m a =
     put_uint (put_uint (put_uint (put_uint (put_uint m (a_type a)) (a_atime a)) (a_mtime a))
       (a_ctime a)) (a_size a)"

definition get_attr :: "u32 reader \<Rightarrow> attr reader" where
  "get_attr get_uint u a =
     (let (ty, u) = get_uint u (a_type a);
          (at, u) = get_uint u (a_atime a);
          (mt, u) = get_uint u (a_mtime a);
          (ct, u) = get_uint u (a_ctime a);
          (sz, u) = get_uint u (a_size a)
      in (\<lparr>a_type = ty, a_atime = at, a_mtime = mt, a_ctime = ct, a_size = sz\<rparr>, u))"

subsection \<open>What is relied on\<close>

definition m_wf :: "bool \<Rightarrow> marshall \<Rightarrow> bool" where
  "m_wf chk m \<longleftrightarrow> m_buf m \<noteq> None \<and> RPC_HEADER_SZ chk \<le> m_ind m"

definition body :: "bool \<Rightarrow> marshall \<Rightarrow> byte list" where
  "body chk m = (case get_content chk m of Inl _ \<Rightarrow> [] | Inr s \<Rightarrow> s)"

definition u_ready :: "unmarshall \<Rightarrow> bool" where
  "u_ready u \<longleftrightarrow> u_ok u \<and> u_buf u \<noteq> None \<and> u_ind u \<le> u_sz u"

text \<open>The bytes not read yet.\<close>

definition pending :: "unmarshall \<Rightarrow> byte list" where
  "pending u = (case u_buf u of None \<Rightarrow> [] | Some b \<Rightarrow> map b [u_ind u..<u_sz u])"

text \<open>\<open>operator<<\<close> appends the encoding of a value; \<open>operator>>\<close> takes it off again.\<close>

definition appends :: "bool \<Rightarrow> 'a writer \<Rightarrow> ('a \<Rightarrow> byte list) \<Rightarrow> bool" where
  "appends chk put enc \<longleftrightarrow>
     (\<forall>m x. m_wf chk m \<longrightarrow> m_wf chk (put m x) \<and> body chk (put m x) = body chk m @ enc x)"

definition consumes :: "'a reader \<Rightarrow> ('a \<Rightarrow> byte list) \<Rightarrow> 'a \<Rightarrow> bool" where
  "consumes get enc x0 \<longleftrightarrow>
     (\<forall>u x rest. u_ready u \<longrightarrow> pending u = enc x @ rest \<longrightarrow>
        (\<exists>u'. get u x0 = (x, u') \<and> u_ready u' \<and> pending u' = rest))"

definition checks_done :: "(unmarshall \<Rightarrow> bool) \<Rightarrow> bool" where
  "checks_done okdone \<longleftrightarrow> (\<forall>u. u_ready u \<longrightarrow> (okdone u \<longleftrightarrow> pending u = []))"

text \<open>\<open>pack\<close> stores four bytes at the head and moves it; \<open>unpack\<close> reads them back.\<close>

definition packs :: "(marshall \<Rightarrow> u32 \<Rightarrow> marshall) \<Rightarrow> (u32 \<Rightarrow> byte list) \<Rightarrow> bool" where
  "packs pack enc \<longleftrightarrow> (\<forall>w. length (enc w) = 4) \<and>
     (\<forall>m b w. m_buf m = Some b \<longrightarrow> m_ind (pack m w) = m_ind m + 4 \<and>
        m_buf (pack m w) = Some (memcpy b (m_ind m) (\<lambda>i. enc w ! i) 0 4))"

definition unpacks :: "(unmarshall \<Rightarrow> u32 \<times> unmarshall) \<Rightarrow> (u32 \<Rightarrow> byte list) \<Rightarrow> bool" where
  "unpacks unpack enc \<longleftrightarrow>
     (\<forall>u b w. u_buf u = Some b \<longrightarrow> u_ok u \<longrightarrow> u_ind u + 4 \<le> u_sz u \<longrightarrow>
        (\<forall>i<4. b (u_ind u + i) = enc w ! i) \<longrightarrow> unpack u = (w, u\<lparr>u_ind := u_ind u + 4\<rparr>))"

lemma consumesE:
  assumes "consumes get enc x0" and "u_ready u" and "pending u = enc x @ rest"
  obtains u' where "get u x0 = (x, u')" and "u_ready u'" and "pending u' = rest"
  using assms unfolding consumes_def by blast

lemma appendsD:
  assumes "appends chk put enc" and "m_wf chk m"
  shows "m_wf chk (put m x)" and "body chk (put m x) = body chk m @ enc x"
  using assms by (auto simp: appends_def)

lemma new_marshall_body: "m_wf chk (new_marshall chk junk)" "body chk (new_marshall chk junk) = []"
  by (simp_all add: m_wf_def body_def get_content_def new_marshall_def)

subsection \<open>Content\<close>

lemma take_content_pending:
  "u_ready (take_content chk junk u s)" "pending (take_content chk junk u s) = s"
proof -
  show "u_ready (take_content chk junk u s)" by (simp add: u_ready_def take_content_def Let_def)
  show "pending (take_content chk junk u s) = s"
    by (rule nth_equalityI) (simp_all add: pending_def take_content_def Let_def memcpy_def)
qed

subsection \<open>Vectors, maps and attributes\<close>

definition enc_vector :: "(u32 \<Rightarrow> byte list) \<Rightarrow> ('a \<Rightarrow> byte list) \<Rightarrow> 'a list \<Rightarrow> byte list" where
  "enc_vector encn enc v = encn (word_of_nat (length v)) @ concat (map enc v)"

lemma appends_foldl:
  assumes "appends chk put enc" and "m_wf chk m"
  shows "m_wf chk (foldl put m v) \<and> body chk (foldl put m v) = body chk m @ concat (map enc v)"
  using assms(2) by (induction v arbitrary: m) (simp_all add: appendsD [OF assms(1)])

lemma put_vector_appends:
  assumes "appends chk put_uint encn" and "appends chk put enc"
  shows "appends chk (put_vector put_uint put) (enc_vector encn enc)"
  unfolding appends_def
proof (intro allI impI)
  fix m v assume "m_wf chk m"
  from appendsD [OF assms(1) this] appends_foldl [OF assms(2)]
  show "m_wf chk (put_vector put_uint put m v) \<and>
      body chk (put_vector put_uint put m v) = body chk m @ enc_vector encn enc v"
    by (simp add: put_vector_def enc_vector_def)
qed

lemma get_elements_append:
  assumes "consumes get enc z0" and "u_ready u" and "pending u = concat (map enc v) @ rest"
  shows "\<exists>u'. get_elements get z0 (length v) u acc = (acc @ v, u') \<and> u_ready u' \<and> pending u' = rest"
  using assms(2,3)
proof (induction v arbitrary: u acc)
  case (Cons x v)
  then obtain u1 where one: "get u z0 = (x, u1)" "u_ready u1" "pending u1 = concat (map enc v) @ rest"
    using consumesE [OF assms(1), of u x "concat (map enc v) @ rest"] by auto
  from Cons.IH [OF one(2,3), of "acc @ [x]"] one(1) show ?case by simp
qed simp

text \<open>The elements read are added to those the vector already had.\<close>

lemma get_vector_append:
  assumes n: "consumes get_uint encn n0" and el: "consumes get enc z0"
    and "u_ready u" and "length v < 2 ^ 32" and "pending u = enc_vector encn enc v @ rest"
  shows "\<exists>u'. get_vector get_uint n0 get z0 u acc = (acc @ v, u') \<and> u_ready u' \<and> pending u' = rest"
proof -
  obtain u1 where one: "get_uint u n0 = (word_of_nat (length v), u1)" "u_ready u1"
      "pending u1 = concat (map enc v) @ rest"
    using consumesE [OF n assms(3), of "word_of_nat (length v)" "concat (map enc v) @ rest"] assms(5)
    by (auto simp: enc_vector_def)
  have "unat (word_of_nat (length v) :: u32) = length v" using assms(4) by (intro unat_of_nat32) simp
  with get_elements_append [OF el one(2,3), of acc] one(1) show ?thesis by (simp add: get_vector_def)
qed

text \<open>Assigning the entries of a sorted map in order rebuilds it.\<close>

lemma map_assign_last:
  assumes "\<And>k. k \<in> set (map fst d) \<Longrightarrow> k < a"
  shows "map_assign d a b = d @ [(a, b)]"
  using assms
proof (induction d)
  case (Cons kv d)
  obtain k v where kv: "kv = (k, v)" by (cases kv)
  with Cons.prems have "k < a" by auto
  then have "\<not> a < k" "a \<noteq> k" by auto
  with Cons kv show ?case by auto
qed simp

lemma get_entries_append:
  assumes k: "consumes getk enck k0" and v: "consumes getv encv v0" and "u_ready u"
    and "pending u = concat (map (\<lambda>(a, b). enck a @ encv b) d) @ rest"
    and "sorted_wrt (<) (map fst (acc @ d))"
  shows "\<exists>u'. get_entries getk k0 getv v0 (length d) u acc = (acc @ d, u') \<and> u_ready u' \<and> pending u' = rest"
  using assms(3-5)
proof (induction d arbitrary: u acc)
  case (Cons ab d)
  obtain a b where ab: "ab = (a, b)" by (cases ab)
  let ?r = "concat (map (\<lambda>(a, b). enck a @ encv b) d) @ rest"
  obtain u1 where one: "getk u k0 = (a, u1)" "u_ready u1" "pending u1 = encv b @ ?r"
    using consumesE [OF k Cons.prems(1), of a "encv b @ ?r"] Cons.prems(2) ab by auto
  obtain u2 where two: "getv u1 v0 = (b, u2)" "u_ready u2" "pending u2 = ?r"
    using consumesE [OF v one(2,3)] by blast
  have "map_assign acc a b = acc @ [(a, b)]"
    using Cons.prems(3) ab by (intro map_assign_last) (auto simp: sorted_wrt_append)
  with Cons.IH [OF two(2,3), of "acc @ [(a, b)]"] Cons.prems(3) one(1) two(1) ab show ?case by simp
qed simp

definition enc_map ::
    "(u32 \<Rightarrow> byte list) \<Rightarrow> ('k \<Rightarrow> byte list) \<Rightarrow> ('v \<Rightarrow> byte list) \<Rightarrow> ('k \<times> 'v) list \<Rightarrow> byte list" where
  "enc_map encn enck encv d = encn (word_of_nat (length d)) @ concat (map (\<lambda>(a, b). enck a @ encv b) d)"

lemma put_map_appends:
  assumes "appends chk put_uint encn" and "appends chk putk enck" and "appends chk putv encv"
  shows "appends chk (put_map put_uint putk putv) (enc_map encn enck encv)"
  unfolding appends_def
proof (intro allI impI)
  fix m d assume m: "m_wf chk m"
  have "appends chk (\<lambda>m (k, v). putv (putk m k) v) (\<lambda>(k, v). enck k @ encv v)"
    unfolding appends_def using appendsD [OF assms(2)] appendsD [OF assms(3)] by auto
  from appends_foldl [OF this] appendsD [OF assms(1) m]
  show "m_wf chk (put_map put_uint putk putv m d) \<and>
      body chk (put_map put_uint putk putv m d) = body chk m @ enc_map encn enck encv d"
    by (simp add: put_map_def enc_map_def)
qed

lemma get_map_entries:
  assumes n: "consumes get_uint encn n0" and k: "consumes getk enck k0" and v: "consumes getv encv v0"
    and "u_ready u" and "length d < 2 ^ 32" and "sorted_wrt (<) (map fst d)"
    and "pending u = enc_map encn enck encv d @ rest"
  shows "\<exists>u'. get_map get_uint n0 getk k0 getv v0 u d0 = (d, u') \<and> u_ready u' \<and> pending u' = rest"
proof -
  let ?r = "concat (map (\<lambda>(a, b). enck a @ encv b) d) @ rest"
  obtain u1 where one: "get_uint u n0 = (word_of_nat (length d), u1)" "u_ready u1" "pending u1 = ?r"
    using consumesE [OF n assms(4), of "word_of_nat (length d)" ?r] assms(7) by (auto simp: enc_map_def)
  have "unat (word_of_nat (length d) :: u32) = length d" using assms(5) by (intro unat_of_nat32) simp
  with get_entries_append [OF k v one(2,3), of "[]"] one(1) assms(6) show ?thesis
    by (simp add: get_map_def)
qed

definition enc_attr :: "(u32 \<Rightarrow> byte list) \<Rightarrow> attr \<Rightarrow> byte list" where
  "enc_attr enc a = enc (a_type a) @ enc (a_atime a) @ enc (a_mtime a) @ enc (a_ctime a) @ enc (a_size a)"

lemma put_attr_appends:
  assumes "appends chk put enc"
  shows "appends chk (put_attr put) (enc_attr enc)"
  unfolding appends_def put_attr_def enc_attr_def using appendsD [OF assms] by simp

lemma get_attr_consumes:
  assumes "\<And>x0. consumes get enc x0"
  shows "consumes (get_attr get) (enc_attr enc) a0"
  unfolding consumes_def
proof (intro allI impI)
  fix u a rest
  assume u: "u_ready u" "pending u = enc_attr enc a @ rest"
  note step = consumesE [OF assms]
  obtain u1 where 1: "get u (a_type a0) = (a_type a, u1)" "u_ready u1"
      "pending u1 = enc (a_atime a) @ enc (a_mtime a) @ enc (a_ctime a) @ enc (a_size a) @ rest"
    by (rule step [OF u(1), of "a_type a"]) (use u(2) in \<open>simp_all add: enc_attr_def\<close>)
  obtain u2 where 2: "get u1 (a_atime a0) = (a_atime a, u2)" "u_ready u2"
      "pending u2 = enc (a_mtime a) @ enc (a_ctime a) @ enc (a_size a) @ rest"
    by (rule step [OF 1(2,3)])
  obtain u3 where 3: "get u2 (a_mtime a0) = (a_mtime a, u3)" "u_ready u3"
      "pending u3 = enc (a_ctime a) @ enc (a_size a) @ rest"
    by (rule step [OF 2(2,3)])
  obtain u4 where 4: "get u3 (a_ctime a0) = (a_ctime a, u4)" "u_ready u4" "pending u4 = enc (a_size a) @ rest"
    by (rule step [OF 3(2,3)])
  obtain u5 where 5: "get u4 (a_size a0) = (a_size a, u5)" "u_ready u5" "pending u5 = rest"
    by (rule step [OF 4(2,3)])
  from 1 2 3 4 5 show "\<exists>u'. get_attr get u a0 = (a, u') \<and> u_ready u' \<and> pending u' = rest"
    by (simp add: get_attr_def)
qed

subsection \<open>Header round trips\<close>

text \<open>Packing a list of words from a position on, and what the buffer then holds.\<close>

lemma pack_words:
  assumes "packs pack enc" and "m_buf m = Some b"
  shows "\<exists>b'. m_buf (foldl pack m ws) = Some b' \<and> m_ind (foldl pack m ws) = m_ind m + 4 * length ws \<and>
    (\<forall>k < length ws. \<forall>i<4. b' (m_ind m + 4 * k + i) = enc (ws ! k) ! i) \<and>
    (\<forall>j. j < m_ind m \<or> m_ind m + 4 * length ws \<le> j \<longrightarrow> b' j = b j)"
  using assms(2)
proof (induction ws arbitrary: m b)
  case (Cons w ws)
  let ?b1 = "memcpy b (m_ind m) (\<lambda>i. enc w ! i) 0 4"
  have p: "m_ind (pack m w) = m_ind m + 4" "m_buf (pack m w) = Some ?b1"
    using assms(1) Cons.prems by (auto simp: packs_def)
  obtain b' where b': "m_buf (foldl pack (pack m w) ws) = Some b'"
      "m_ind (foldl pack (pack m w) ws) = m_ind m + 4 + 4 * length ws"
      "\<forall>k < length ws. \<forall>i<4. b' (m_ind m + 4 + 4 * k + i) = enc (ws ! k) ! i"
      "\<forall>j. j < m_ind m + 4 \<or> m_ind m + 4 + 4 * length ws \<le> j \<longrightarrow> b' j = ?b1 j"
    using Cons.IH [OF p(2)] p(1) by auto
  have "b' (m_ind m + 4 * k + i) = enc ((w # ws) ! k) ! i" if "k < length (w # ws)" "i < 4" for k i
  proof (cases k)
    case 0
    with b'(4) that(2) show ?thesis by (simp add: memcpy_def)
  next
    case (Suc k')
    with b'(3) [rule_format, of k' i] that show ?thesis by (simp add: algebra_simps)
  qed
  moreover have "b' j = b j" if "j < m_ind m \<or> m_ind m + 4 * length (w # ws) \<le> j" for j
    using b'(4) [rule_format, of j] that by (auto simp: memcpy_def)
  ultimately show ?case using b'(1,2) by (intro exI [of _ b']) auto
qed simp

text \<open>
  Every buffer is freed once: who takes it owns it, and the destructor of the object it was taken
  from frees nothing.
\<close>

lemma taken_buffer_owner:
  "m_destroy m = m_cstr m" and "m_take_buf m = ((m_cstr m, m_size m), m') \<Longrightarrow> m_destroy m' = None \<and> m_size m' = 0"
  "u_destroy u = u_cstr u" and "u_take_buf u = ((u_cstr u, u_size u), u') \<Longrightarrow>
     u_destroy u' = None \<and> u_size u' = 0 \<and> u_position u' = 0 \<and> u_okay u' = u_okay u"
  by (auto simp: m_destroy_def m_cstr_def m_take_buf_def m_size_def u_destroy_def u_cstr_def u_take_buf_def u_size_def
      u_position_def u_okay_def split: option.splits)

text \<open>The channel hands over the buffer: \<open>take_buf\<close> on one side, a new object on the other.\<close>

definition transfer :: "marshall \<Rightarrow> unmarshall" where
  "transfer m = (case m_take_buf m of ((b, sz), _) \<Rightarrow> unmarshall_buf b sz)"

lemma packed_words_read:
  assumes u: "unpacks unpack enc" "u_buf u = Some b" "u_ok u"
    and "\<forall>k < length ws. \<forall>i<4. b (p + 4 * k + i) = enc (ws ! k) ! i" and "p + 4 * length ws \<le> u_sz u"
    and "j < length ws"
  shows "unpack (u\<lparr>u_ind := p + 4 * j\<rparr>) = (ws ! j, u\<lparr>u_ind := p + 4 * Suc j\<rparr>)"
proof -
  let ?u = "u\<lparr>u_ind := p + 4 * j\<rparr>"
  have "unpack ?u = (ws ! j, ?u\<lparr>u_ind := u_ind ?u + 4\<rparr>)"
  proof (rule u(1) [unfolded unpacks_def, rule_format])
    show "b (u_ind ?u + i) = enc (ws ! j) ! i" if "i < 4" for i using assms(4,6) that by simp
    have "4 * Suc j \<le> 4 * length ws" using assms(6) by (intro mult_le_mono2) simp
    then show "u_ind ?u + 4 \<le> u_sz ?u" using assms(5) by simp
  qed (use u in simp_all)
  then show ?thesis by (simp add: algebra_simps)
qed

text \<open>A header written as words from \<open>header_start\<close> on leaves the content alone and can be read.\<close>

lemma header_words:
  assumes pk: "packs pack enc" and up: "unpacks unpack enc" and wf: "m_wf chk m" and "length ws \<le> 5"
    and m': "m' = (foldl pack (m\<lparr>m_ind := header_start chk\<rparr>) ws)\<lparr>m_ind := m_ind m\<rparr>"
  shows "j < length ws \<Longrightarrow> unpack ((transfer m')\<lparr>u_ind := header_start chk + 4 * j\<rparr>) =
      (ws ! j, (transfer m')\<lparr>u_ind := header_start chk + 4 * Suc j\<rparr>)"
    and "u_ready ((transfer m')\<lparr>u_ind := RPC_HEADER_SZ chk\<rparr>)"
    and "pending ((transfer m')\<lparr>u_ind := RPC_HEADER_SZ chk\<rparr>) = body chk m"
proof -
  let ?p = "header_start chk"
  obtain b where b: "m_buf m = Some b" "?p + 20 \<le> m_ind m"
    using wf by (auto simp: m_wf_def RPC_HEADER_SZ_eq)
  have "m_buf (m\<lparr>m_ind := ?p\<rparr>) = Some b" using b(1) by simp
  from pack_words [OF pk this, of ws] obtain b' where
    b': "m_buf (foldl pack (m\<lparr>m_ind := ?p\<rparr>) ws) = Some b'"
      "\<forall>k < length ws. \<forall>i<4. b' (?p + 4 * k + i) = enc (ws ! k) ! i"
      "\<forall>j. j < ?p \<or> ?p + 4 * length ws \<le> j \<longrightarrow> b' j = b j" by auto
  have t: "transfer m' = \<lparr>u_buf = Some b', u_sz = m_ind m, u_ind = 0, u_ok = True\<rparr>"
    using b'(1) m' by (simp add: transfer_def m_take_buf_def unmarshall_buf_def)
  show "unpack ((transfer m')\<lparr>u_ind := ?p + 4 * j\<rparr>) =
      (ws ! j, (transfer m')\<lparr>u_ind := ?p + 4 * Suc j\<rparr>)" if "j < length ws"
    using b'(2) b(2) assms(4) that by (intro packed_words_read [OF up]) (auto simp: t)
  show "u_ready ((transfer m')\<lparr>u_ind := RPC_HEADER_SZ chk\<rparr>)"
    using b(2) by (simp add: t u_ready_def RPC_HEADER_SZ_eq)
  have "b' i = b i" if "RPC_HEADER_SZ chk \<le> i" for i
    using b'(3) [rule_format, of i] that assms(4) by (simp add: RPC_HEADER_SZ_eq)
  then show "pending ((transfer m')\<lparr>u_ind := RPC_HEADER_SZ chk\<rparr>) = body chk m"
    using b by (simp add: t pending_def body_def get_content_def RPC_HEADER_SZ_eq)
qed

lemma req_header_transfer:
  assumes "packs pack enc" and "unpacks unpack enc" and "m_wf chk m"
  shows "\<exists>u. unpack_req_header unpack chk (transfer (pack_req_header pack chk m h)) = (h, u) \<and>
    u_ready u \<and> pending u = body chk m"
proof -
  let ?ws = "[rq_xid h, rq_proc h, rq_clt_nonce h, rq_srv_nonce h, rq_xid_rep h]"
  let ?m = "pack_req_header pack chk m h"
  have m': "?m = (foldl pack (m\<lparr>m_ind := header_start chk\<rparr>) ?ws)\<lparr>m_ind := m_ind m\<rparr>"
    by (simp add: pack_req_header_def Let_def)
  note w = header_words [OF assms _ m']
  have "unpack_req_header unpack chk (transfer ?m) =
      (h, (transfer ?m)\<lparr>u_ind := RPC_HEADER_SZ chk\<rparr>)"
    using w(1) [of 0] w(1) [of 1] w(1) [of 2] w(1) [of 3] w(1) [of 4]
    by (simp add: unpack_req_header_def Let_def eval_nat_numeral)
  with w(2,3) show ?thesis by simp
qed

lemma reply_header_transfer:
  assumes "packs pack enc" and "unpacks unpack enc" and "m_wf chk m"
  shows "\<exists>u. unpack_reply_header unpack chk (transfer (pack_reply_header pack chk m h)) = (h, u) \<and>
    u_ready u \<and> pending u = body chk m"
proof -
  let ?ws = "[rp_xid h, rp_ret h]"
  let ?m = "pack_reply_header pack chk m h"
  have m': "?m = (foldl pack (m\<lparr>m_ind := header_start chk\<rparr>) ?ws)\<lparr>m_ind := m_ind m\<rparr>"
    by (simp add: pack_reply_header_def Let_def)
  note w = header_words [OF assms _ m']
  have "unpack_reply_header unpack chk (transfer ?m) =
      (h, (transfer ?m)\<lparr>u_ind := RPC_HEADER_SZ chk\<rparr>)"
    using w(1) [of 0] w(1) [of 1] by (simp add: unpack_reply_header_def Let_def eval_nat_numeral)
  with w(2,3) show ?thesis by simp
qed

subsection \<open>A concrete wire format\<close>

text \<open>Little-endian words without bounds handling in the writer show that the contracts can hold.\<close>

definition le_bytes :: "u32 \<Rightarrow> byte list" where
  "le_bytes w = [ucast w, ucast (drop_bit 8 w), ucast (drop_bit 16 w), ucast (drop_bit 24 w)]"

definition le_pack :: "marshall \<Rightarrow> u32 \<Rightarrow> marshall" where
  "le_pack m w = m\<lparr>m_buf := map_option (\<lambda>b. memcpy b (m_ind m) (\<lambda>i. le_bytes w ! i) 0 4) (m_buf m),
                   m_ind := m_ind m + 4\<rparr>"

definition le_unpack :: "unmarshall \<Rightarrow> u32 \<times> unmarshall" where
  "le_unpack u =
     (case u_buf u of
        Some b \<Rightarrow> if u_ok u \<and> u_ind u + 4 \<le> u_sz u then (get32 b (u_ind u), u\<lparr>u_ind := u_ind u + 4\<rparr>)
                  else (0, u\<lparr>u_ok := False\<rparr>)
      | None \<Rightarrow> (0, u\<lparr>u_ok := False\<rparr>))"

definition le_reader :: "u32 reader" where
  "le_reader u x0 = le_unpack u"

definition le_done :: "unmarshall \<Rightarrow> bool" where
  "le_done u \<longleftrightarrow> u_ok u \<and> u_ind u = u_sz u"

lemma le_bytes_get32: "(\<forall>i<4. b (p + i) = le_bytes w ! i) \<Longrightarrow> get32 b p = w"
proof -
  assume a: "\<forall>i<4. b (p + i) = le_bytes w ! i"
  from a [rule_format, of 0] a [rule_format, of 1] a [rule_format, of 2] a [rule_format, of 3]
  have "get32 b p = get32 (put32 b p w) p"
    by (simp add: get32_def put32_def le_bytes_def eval_nat_numeral)
  then show ?thesis by (simp add: buf_simps)
qed

lemma le_packs: "packs le_pack le_bytes"
  by (simp add: packs_def le_pack_def le_bytes_def)

lemma le_unpacks: "unpacks le_unpack le_bytes"
  unfolding unpacks_def using le_bytes_get32 by (simp add: le_unpack_def)

lemma le_appends: "appends chk le_pack le_bytes"
  unfolding appends_def
proof (intro allI impI)
  fix m w assume "m_wf chk m"
  then obtain b where b: "m_buf m = Some b" "RPC_HEADER_SZ chk \<le> m_ind m" by (auto simp: m_wf_def)
  have "[RPC_HEADER_SZ chk..<m_ind m + 4] = [RPC_HEADER_SZ chk..<m_ind m] @ [m_ind m..<m_ind m + 4]"
    using b(2) by (rule upt_add_eq_append)
  moreover have "[m_ind m..<m_ind m + 4] = [m_ind m, m_ind m + 1, m_ind m + 2, m_ind m + 3]"
    by (simp add: upt_rec eval_nat_numeral)
  ultimately show "m_wf chk (le_pack m w) \<and> body chk (le_pack m w) = body chk m @ le_bytes w"
    using b by (simp add: m_wf_def body_def get_content_def le_pack_def memcpy_def le_bytes_def eval_nat_numeral)
qed

lemma le_consumes: "consumes le_reader le_bytes x0"
  unfolding consumes_def
proof (intro allI impI)
  fix u w rest assume u: "u_ready u" "pending u = le_bytes w @ rest"
  then obtain b where b: "u_buf u = Some b" "u_ok u" "u_ind u \<le> u_sz u" by (auto simp: u_ready_def)
  from u(2) b(1) have m: "map b [u_ind u..<u_sz u] = le_bytes w @ rest" by (simp add: pending_def)
  then have len: "u_sz u - u_ind u = 4 + length rest" by (auto simp: le_bytes_def dest: arg_cong [of _ _ length])
  have l4: "length (le_bytes w) = 4" by (simp add: le_bytes_def)
  have "b (u_ind u + i) = le_bytes w ! i" if "i < 4" for i
    using arg_cong [OF m, of "\<lambda>xs. xs ! i"] that len l4 by (simp add: nth_append)
  then have "get32 b (u_ind u) = w" by (intro le_bytes_get32) simp
  moreover have "pending (u\<lparr>u_ind := u_ind u + 4\<rparr>) = drop 4 (pending u)" using b(1) by (simp add: pending_def drop_map)
  ultimately show "\<exists>u'. le_reader u x0 = (w, u') \<and> u_ready u' \<and> pending u' = rest"
    using b len u by (intro exI [of _ "u\<lparr>u_ind := u_ind u + 4\<rparr>"])
      (auto simp: le_reader_def le_unpack_def u_ready_def le_bytes_def)
qed

lemma le_checks_done: "checks_done le_done"
  by (auto simp: checks_done_def le_done_def u_ready_def pending_def)

subsection \<open>Properties\<close>

text \<open>
  C18: A request header packed into a buffer is what the receiver of that buffer unpacks, and
  neither side disturbs the content that follows the header.
\<close>

theorem req_header_roundtrip:
  assumes "packs pack enc" and "unpacks unpack enc" and "m_wf chk m"
  shows "\<exists>u. unpack_req_header unpack chk (transfer (pack_req_header pack chk m h)) = (h, u) \<and>
    u_ready u \<and> pending u = body chk m"
  by (rule req_header_transfer [OF assms])

theorem req_header_roundtrip_witness:
  "\<exists>u. unpack_req_header le_unpack True
       (transfer (pack_req_header le_pack True (le_pack (new_marshall True (\<lambda>_. 9)) 5)
          \<lparr>rq_xid = 1, rq_proc = 2, rq_clt_nonce = 3, rq_srv_nonce = 4, rq_xid_rep = 6\<rparr>)) =
     (\<lparr>rq_xid = 1, rq_proc = 2, rq_clt_nonce = 3, rq_srv_nonce = 4, rq_xid_rep = 6\<rparr>, u) \<and>
     pending u = le_bytes 5"
  using req_header_roundtrip [OF le_packs le_unpacks appendsD(1) [OF le_appends new_marshall_body(1)]]
    appendsD(2) [OF le_appends new_marshall_body(1)] new_marshall_body(2) by fastforce

text \<open>
  C19: A vector of fewer than \<open>2\<^sup>3\<^sup>2\<close> elements written with \<open>operator<<\<close> is read with \<open>operator>>\<close>
  after the elements that the target vector already has, and the rest of the content is left.
\<close>

theorem vector_roundtrip:
  assumes "appends chk put_uint encn" and "appends chk put enc"
    and "consumes get_uint encn n0" and "consumes get enc z0" and "length v < 2 ^ 32"
    and "m_wf chk m" and "body chk m = []"
  shows "\<exists>u'. get_vector get_uint n0 get z0
      (unmarshall_string chk junk (body chk (put_vector put_uint put m v) @ rest)) old = (old @ v, u') \<and>
    u_ready u' \<and> pending u' = rest"
proof -
  have "body chk (put_vector put_uint put m v) = enc_vector encn enc v"
    using appendsD(2) [OF put_vector_appends [OF assms(1,2)] assms(6)] assms(7) by simp
  then show ?thesis
    unfolding unmarshall_string_def
    by (intro get_vector_append [OF assms(3,4) _ assms(5)]) (simp_all add: take_content_pending)
qed

theorem vector_roundtrip_witness:
  "\<exists>u'. get_vector le_reader 0 le_reader 0 (unmarshall_string False (\<lambda>_. 3)
       (body False (put_vector le_pack le_pack (new_marshall False (\<lambda>_. 4)) [10, 20, 30]) @ [])) [1] =
     ([1] @ [10, 20, 30], u') \<and> u_ready u' \<and> pending u' = []"
  by (rule vector_roundtrip [OF le_appends le_appends le_consumes le_consumes])
    (simp_all add: new_marshall_body)

text \<open>
  A map written entry by entry in key order is rebuilt by the reader, whatever the target map
  held before, and the rest of the content is left.
\<close>

theorem map_roundtrip:
  assumes "appends chk put_uint encn" and "appends chk putk enck" and "appends chk putv encv"
    and "consumes get_uint encn n0" and "consumes getk enck k0" and "consumes getv encv v0"
    and "length d < 2 ^ 32" and "sorted_wrt (<) (map fst d)" and "m_wf chk m" and "body chk m = []"
  shows "\<exists>u'. get_map get_uint n0 getk k0 getv v0
      (unmarshall_string chk junk (body chk (put_map put_uint putk putv m d) @ rest)) old = (d, u') \<and>
    u_ready u' \<and> pending u' = rest"
proof -
  have "body chk (put_map put_uint putk putv m d) = enc_map encn enck encv d"
    using appendsD(2) [OF put_map_appends [OF assms(1-3)] assms(9)] assms(10) by simp
  then show ?thesis
    unfolding unmarshall_string_def
    by (intro get_map_entries [OF assms(4-6) _ assms(7,8)]) (simp_all add: take_content_pending)
qed

theorem map_roundtrip_witness:
  "\<exists>u'. get_map le_reader 0 le_reader 0 le_reader 0 (unmarshall_string False (\<lambda>_. 3)
       (body False (put_map le_pack le_pack le_pack (new_marshall False (\<lambda>_. 4)) [(1, 10), (2, 20)]) @ [7]))
       [(9, 9)] = ([(1, 10), (2, 20)], u') \<and> u_ready u' \<and> pending u' = [7]"
  by (rule map_roundtrip [OF le_appends le_appends le_appends le_consumes le_consumes le_consumes])
    (simp_all add: new_marshall_body)

text \<open>
  The attributes of a file written with \<open>operator<<\<close> are read back with \<open>operator>>\<close>, field by
  field, and the rest of the content is left.
\<close>

theorem attr_roundtrip:
  assumes "appends chk put_uint enc" and "\<And>x0. consumes get_uint enc x0"
    and "m_wf chk m" and "body chk m = []"
  shows "\<exists>u'. get_attr get_uint (unmarshall_string chk junk (body chk (put_attr put_uint m a) @ rest)) old =
    (a, u') \<and> u_ready u' \<and> pending u' = rest"
proof -
  have "body chk (put_attr put_uint m a) = enc_attr enc a"
    using appendsD(2) [OF put_attr_appends [OF assms(1)] assms(3)] assms(4) by simp
  then have "pending (unmarshall_string chk junk (body chk (put_attr put_uint m a) @ rest)) = enc_attr enc a @ rest"
    "u_ready (unmarshall_string chk junk (body chk (put_attr put_uint m a) @ rest))"
    by (simp_all add: unmarshall_string_def take_content_pending)
  with get_attr_consumes [OF assms(2), of old] show ?thesis by (auto simp: consumes_def)
qed

theorem attr_roundtrip_witness:
  "\<exists>u'. get_attr le_reader (unmarshall_string False (\<lambda>_. 3) (body False (put_attr le_pack
       (new_marshall False (\<lambda>_. 4)) \<lparr>a_type = 1, a_atime = 2, a_mtime = 3, a_ctime = 4, a_size = 5\<rparr>) @ []))
       zero_attr = (\<lparr>a_type = 1, a_atime = 2, a_mtime = 3, a_ctime = 4, a_size = 5\<rparr>, u') \<and> u_ready u' \<and>
     pending u' = []"
  by (rule attr_roundtrip [OF le_appends le_consumes]) (simp_all add: new_marshall_body)

end
