(* ===== verification/Rpc.thy ===== *)
theory Rpc
  imports Marshall
begin

text \<open>
  \<open>rpc/rpc.h\<close>: the data of the client and server endpoints, the typed calls \<open>rpcc::call\<close> for
  zero to seven arguments, and the handlers \<open>rpcs::reg\<close> makes for one to seven arguments.
  \<open>call1\<close>, which sends a request and waits for its reply, is compiled into \<open>librpc.a\<close>; it is
  an argument here, with \<open>delivers\<close> as what is relied on; it may fail with the codes of
  \<open>rpc_const\<close>.
\<close>

subsection \<open>Constants and data\<close>

definition bind_proc :: u32 where "bind_proc = 1"
definition timeout_failure :: int where "timeout_failure = - 1"
definition unmarshal_args_failure :: int where "unmarshal_args_failure = - 2"
definition unmarshal_reply_failure :: int where "unmarshal_reply_failure = - 3"
definition atmostonce_failure :: int where "atmostonce_failure = - 4"
definition oldsrv_failure :: int where "oldsrv_failure = - 5"
definition bind_failure :: int where "bind_failure = - 6"
definition cancel_failure :: int where "cancel_failure = - 7"

record request =
  req_buf :: "byte list"
  req_xid :: int

definition request_clear :: "request \<Rightarrow> request" where
  "request_clear r = r\<lparr>req_buf := [], req_xid := - 1\<rparr>"

definition request_isvalid :: "request \<Rightarrow> bool" where
  "request_isvalid r \<longleftrightarrow> req_xid r \<noteq> - 1"

record TO =
  to_ms :: int

definition to_make :: "int \<Rightarrow> TO" where
  "to_make x = \<lparr>to_ms = x\<rparr>"

datatype rpcstate_t = NEW | INPROGRESS | DONE | FORGOTTEN

record reply_t =
  rt_xid :: u32
  rt_cb_present :: bool
  rt_buf :: "buf option"
  rt_sz :: int

definition new_reply_t :: "u32 \<Rightarrow> reply_t" where
  "new_reply_t xid = \<lparr>rt_xid = xid, rt_cb_present = False, rt_buf = None, rt_sz = 0\<rparr>"

subsection \<open>Typed calls\<close>

text \<open>
  \<open>call1(proc, req, rep, to)\<close> on a world \<open>'w\<close>: its result, the reply object, the new world.
\<close>

type_synonym 'w call1 = "u32 \<Rightarrow> marshall \<Rightarrow> unmarshall \<Rightarrow> TO \<Rightarrow> 'w \<Rightarrow> int \<times> unmarshall \<times> 'w"

text \<open>A reply of the wrong type ends in \<open>VERIFY(0)\<close>, before the \<open>return\<close> that follows it.\<close>

definition call_m ::
    "'w call1 \<Rightarrow> (unmarshall \<Rightarrow> bool) \<Rightarrow> 'r reader \<Rightarrow> u32 \<Rightarrow> marshall \<Rightarrow> 'r \<Rightarrow> TO \<Rightarrow> 'w \<Rightarrow>
     fault + (int \<times> 'r \<times> 'w)" where
  "call_m call1 okdone getr proc req r to w =
     (let (intret, u, w) = call1 proc req new_unmarshall to w
      in if intret < 0 then Inr (intret, r, w)
         else let (r, u) = getr u r
              in if \<not> okdone u then rbind (VERIFY False) (\<lambda>_. Inr (unmarshal_reply_failure, r, w))
                 else Inr (intret, r, w))"

definition call_0 ::
    "'w call1 \<Rightarrow> (unmarshall \<Rightarrow> bool) \<Rightarrow> bool \<Rightarrow> buf \<Rightarrow> 'r reader \<Rightarrow>
     u32 \<Rightarrow> 'r \<Rightarrow> TO \<Rightarrow> 'w \<Rightarrow> fault + (int \<times> 'r \<times> 'w)" where
  "call_0 call1 okdone chk junk getr proc r to w =
     (let m = new_marshall chk junk
      in call_m call1 okdone getr proc m r to w)"

definition call_1 ::
    "'w call1 \<Rightarrow> (unmarshall \<Rightarrow> bool) \<Rightarrow> bool \<Rightarrow> buf \<Rightarrow> 'a1 writer \<Rightarrow> 'r reader \<Rightarrow>
     u32 \<Rightarrow> 'a1 \<Rightarrow> 'r \<Rightarrow> TO \<Rightarrow> 'w \<Rightarrow> fault + (int \<times> 'r \<times> 'w)" where
  "call_1 call1 okdone chk junk p1 getr proc a1 r to w =
     (let m = new_marshall chk junk;
          m = p1 m a1
      in call_m call1 okdone getr proc m r to w)"

definition call_2 ::
    "'w call1 \<Rightarrow> (unmarshall \<Rightarrow> bool) \<Rightarrow> bool \<Rightarrow> buf \<Rightarrow> 'a1 writer \<Rightarrow> 'a2 writer \<Rightarrow> 'r reader \<Rightarrow>
     u32 \<Rightarrow> 'a1 \<Rightarrow> 'a2 \<Rightarrow> 'r \<Rightarrow> TO \<Rightarrow> 'w \<Rightarrow> fault + (int \<times> 'r \<times> 'w)" where
  "call_2 call1 okdone chk junk p1 p2 getr proc a1 a2 r to w =
     (let m = new_marshall chk junk;
          m = p1 m a1;
          m = p2 m a2
      in call_m call1 okdone getr proc m r to w)"

definition call_3 ::
    "'w call1 \<Rightarrow> (unmarshall \<Rightarrow> bool) \<Rightarrow> bool \<Rightarrow> buf \<Rightarrow> 'a1 writer \<Rightarrow> 'a2 writer \<Rightarrow> 'a3 writer \<Rightarrow> 'r reader \<Rightarrow>
     u32 \<Rightarrow> 'a1 \<Rightarrow> 'a2 \<Rightarrow> 'a3 \<Rightarrow> 'r \<Rightarrow> TO \<Rightarrow> 'w \<Rightarrow> fault + (int \<times> 'r \<times> 'w)" where
  "call_3 call1 okdone chk junk p1 p2 p3 getr proc a1 a2 a3 r to w =
     (let m = new_marshall chk junk;
          m = p1 m a1;
          m = p2 m a2;
          m = p3 m a3
      in call_m call1 okdone getr proc m r to w)"

definition call_4 ::
    "'w call1 \<Rightarrow> (unmarshall \<Rightarrow> bool) \<Rightarrow> bool \<Rightarrow> buf \<Rightarrow> 'a1 writer \<Rightarrow> 'a2 writer \<Rightarrow> 'a3 writer \<Rightarrow> 'a4 writer \<Rightarrow> 'r reader \<Rightarrow>
     u32 \<Rightarrow> 'a1 \<Rightarrow> 'a2 \<Rightarrow> 'a3 \<Rightarrow> 'a4 \<Rightarrow> 'r \<Rightarrow> TO \<Rightarrow> 'w \<Rightarrow> fault + (int \<times> 'r \<times> 'w)" where
  "call_4 call1 okdone chk junk p1 p2 p3 p4 getr proc a1 a2 a3 a4 r to w =
     (let m = new_marshall chk junk;
          m = p1 m a1;
          m = p2 m a2;
          m = p3 m a3;
          m = p4 m a4
      in call_m call1 okdone getr proc m r to w)"

definition call_5 ::
    "'w call1 \<Rightarrow> (unmarshall \<Rightarrow> bool) \<Rightarrow> bool \<Rightarrow> buf \<Rightarrow> 'a1 writer \<Rightarrow> 'a2 writer \<Rightarrow> 'a3 writer \<Rightarrow> 'a4 writer \<Rightarrow> 'a5 writer \<Rightarrow> 'r reader \<Rightarrow>
     u32 \<Rightarrow> 'a1 \<Rightarrow> 'a2 \<Rightarrow> 'a3 \<Rightarrow> 'a4 \<Rightarrow> 'a5 \<Rightarrow> 'r \<Rightarrow> TO \<Rightarrow> 'w \<Rightarrow> fault + (int \<times> 'r \<times> 'w)" where
  "call_5 call1 okdone chk junk p1 p2 p3 p4 p5 getr proc a1 a2 a3 a4 a5 r to w =
     (let m = new_marshall chk junk;
          m = p1 m a1;
          m = p2 m a2;
          m = p3 m a3;
          m = p4 m a4;
          m = p5 m a5
      in call_m call1 okdone getr proc m r to w)"

definition call_6 ::
    "'w call1 \<Rightarrow> (unmarshall \<Rightarrow> bool) \<Rightarrow> bool \<Rightarrow> buf \<Rightarrow> 'a1 writer \<Rightarrow> 'a2 writer \<Rightarrow> 'a3 writer \<Rightarrow> 'a4 writer \<Rightarrow> 'a5 writer \<Rightarrow> 'a6 writer \<Rightarrow> 'r reader \<Rightarrow>
     u32 \<Rightarrow> 'a1 \<Rightarrow> 'a2 \<Rightarrow> 'a3 \<Rightarrow> 'a4 \<Rightarrow> 'a5 \<Rightarrow> 'a6 \<Rightarrow> 'r \<Rightarrow> TO \<Rightarrow> 'w \<Rightarrow> fault + (int \<times> 'r \<times> 'w)" where
  "call_6 call1 okdone chk junk p1 p2 p3 p4 p5 p6 getr proc a1 a2 a3 a4 a5 a6 r to w =
     (let m = new_marshall chk junk;
          m = p1 m a1;
          m = p2 m a2;
          m = p3 m a3;
          m = p4 m a4;
          m = p5 m a5;
          m = p6 m a6
      in call_m call1 okdone getr proc m r to w)"

definition call_7 ::
    "'w call1 \<Rightarrow> (unmarshall \<Rightarrow> bool) \<Rightarrow> bool \<Rightarrow> buf \<Rightarrow> 'a1 writer \<Rightarrow> 'a2 writer \<Rightarrow> 'a3 writer \<Rightarrow> 'a4 writer \<Rightarrow> 'a5 writer \<Rightarrow> 'a6 writer \<Rightarrow> 'a7 writer \<Rightarrow> 'r reader \<Rightarrow>
     u32 \<Rightarrow> 'a1 \<Rightarrow> 'a2 \<Rightarrow> 'a3 \<Rightarrow> 'a4 \<Rightarrow> 'a5 \<Rightarrow> 'a6 \<Rightarrow> 'a7 \<Rightarrow> 'r \<Rightarrow> TO \<Rightarrow> 'w \<Rightarrow> fault + (int \<times> 'r \<times> 'w)" where
  "call_7 call1 okdone chk junk p1 p2 p3 p4 p5 p6 p7 getr proc a1 a2 a3 a4 a5 a6 a7 r to w =
     (let m = new_marshall chk junk;
          m = p1 m a1;
          m = p2 m a2;
          m = p3 m a3;
          m = p4 m a4;
          m = p5 m a5;
          m = p6 m a6;
          m = p7 m a7
      in call_m call1 okdone getr proc m r to w)"

subsection \<open>Handlers\<close>

text \<open>
  A method of the service object \<open>'s\<close>, after its arguments: the reply variable by reference
  and the object, to the status, the reply and the new object. A handler reads the arguments
  into locals that hold \<open>d1\<close>, \<open>d2\<close>, ... before, and the reply variable holds \<open>r0\<close>.
\<close>

type_synonym ('r, 's) meth = "'r \<Rightarrow> 's \<Rightarrow> fault + (int \<times> 'r \<times> 's)"
type_synonym 's handler_fn = "unmarshall \<Rightarrow> marshall \<Rightarrow> 's \<Rightarrow> fault + (int \<times> marshall \<times> 's)"

definition fn_1 ::
    "(unmarshall \<Rightarrow> bool) \<Rightarrow> 'a1 reader \<Rightarrow> 'r writer \<Rightarrow> 'a1 \<Rightarrow> 'r \<Rightarrow>
     ('a1 \<Rightarrow> ('r, 's) meth) \<Rightarrow> 's handler_fn" where
  "fn_1 okdone g1 putr d1 r0 meth args ret s =
     (let (a1, args) = g1 args d1
      in if \<not> okdone args then Inr (unmarshal_args_failure, ret, s)
         else rbind (meth a1 r0 s) (\<lambda>(b, r, s). Inr (b, putr ret r, s)))"

definition fn_2 ::
    "(unmarshall \<Rightarrow> bool) \<Rightarrow> 'a1 reader \<Rightarrow> 'a2 reader \<Rightarrow> 'r writer \<Rightarrow> 'a1 \<Rightarrow> 'a2 \<Rightarrow> 'r \<Rightarrow>
     ('a1 \<Rightarrow> 'a2 \<Rightarrow> ('r, 's) meth) \<Rightarrow> 's handler_fn" where
  "fn_2 okdone g1 g2 putr d1 d2 r0 meth args ret s =
     (let (a1, args) = g1 args d1;
          (a2, args) = g2 args d2
      in if \<not> okdone args then Inr (unmarshal_args_failure, ret, s)
         else rbind (meth a1 a2 r0 s) (\<lambda>(b, r, s). Inr (b, putr ret r, s)))"

definition fn_3 ::
    "(unmarshall \<Rightarrow> bool) \<Rightarrow> 'a1 reader \<Rightarrow> 'a2 reader \<Rightarrow> 'a3 reader \<Rightarrow> 'r writer \<Rightarrow> 'a1 \<Rightarrow> 'a2 \<Rightarrow> 'a3 \<Rightarrow> 'r \<Rightarrow>
     ('a1 \<Rightarrow> 'a2 \<Rightarrow> 'a3 \<Rightarrow> ('r, 's) meth) \<Rightarrow> 's handler_fn" where
  "fn_3 okdone g1 g2 g3 putr d1 d2 d3 r0 meth args ret s =
     (let (a1, args) = g1 args d1;
          (a2, args) = g2 args d2;
          (a3, args) = g3 args d3
      in if \<not> okdone args then Inr (unmarshal_args_failure, ret, s)
         else rbind (meth a1 a2 a3 r0 s) (\<lambda>(b, r, s). Inr (b, putr ret r, s)))"

definition fn_4 ::
    "(unmarshall \<Rightarrow> bool) \<Rightarrow> 'a1 reader \<Rightarrow> 'a2 reader \<Rightarrow> 'a3 reader \<Rightarrow> 'a4 reader \<Rightarrow> 'r writer \<Rightarrow> 'a1 \<Rightarrow> 'a2 \<Rightarrow> 'a3 \<Rightarrow> 'a4 \<Rightarrow> 'r \<Rightarrow>
     ('a1 \<Rightarrow> 'a2 \<Rightarrow> 'a3 \<Rightarrow> 'a4 \<Rightarrow> ('r, 's) meth) \<Rightarrow> 's handler_fn" where
  "fn_4 okdone g1 g2 g3 g4 putr d1 d2 d3 d4 r0 meth args ret s =
     (let (a1, args) = g1 args d1;
          (a2, args) = g2 args d2;
          (a3, args) = g3 args d3;
          (a4, args) = g4 args d4
      in if \<not> okdone args then Inr (unmarshal_args_failure, ret, s)
         else rbind (meth a1 a2 a3 a4 r0 s) (\<lambda>(b, r, s). Inr (b, putr ret r, s)))"

definition fn_5 ::
    "(unmarshall \<Rightarrow> bool) \<Rightarrow> 'a1 reader \<Rightarrow> 'a2 reader \<Rightarrow> 'a3 reader \<Rightarrow> 'a4 reader \<Rightarrow> 'a5 reader \<Rightarrow> 'r writer \<Rightarrow> 'a1 \<Rightarrow> 'a2 \<Rightarrow> 'a3 \<Rightarrow> 'a4 \<Rightarrow> 'a5 \<Rightarrow> 'r \<Rightarrow>
     ('a1 \<Rightarrow> 'a2 \<Rightarrow> 'a3 \<Rightarrow> 'a4 \<Rightarrow> 'a5 \<Rightarrow> ('r, 's) meth) \<Rightarrow> 's handler_fn" where
  "fn_5 okdone g1 g2 g3 g4 g5 putr d1 d2 d3 d4 d5 r0 meth args ret s =
     (let (a1, args) = g1 args d1;
          (a2, args) = g2 args d2;
          (a3, args) = g3 args d3;
          (a4, args) = g4 args d4;
          (a5, args) = g5 args d5
      in if \<not> okdone args then Inr (unmarshal_args_failure, ret, s)
         else rbind (meth a1 a2 a3 a4 a5 r0 s) (\<lambda>(b, r, s). Inr (b, putr ret r, s)))"

definition fn_6 ::
    "(unmarshall \<Rightarrow> bool) \<Rightarrow> 'a1 reader \<Rightarrow> 'a2 reader \<Rightarrow> 'a3 reader \<Rightarrow> 'a4 reader \<Rightarrow> 'a5 reader \<Rightarrow> 'a6 reader \<Rightarrow> 'r writer \<Rightarrow> 'a1 \<Rightarrow> 'a2 \<Rightarrow> 'a3 \<Rightarrow> 'a4 \<Rightarrow> 'a5 \<Rightarrow> 'a6 \<Rightarrow> 'r \<Rightarrow>
     ('a1 \<Rightarrow> 'a2 \<Rightarrow> 'a3 \<Rightarrow> 'a4 \<Rightarrow> 'a5 \<Rightarrow> 'a6 \<Rightarrow> ('r, 's) meth) \<Rightarrow> 's handler_fn" where
  "fn_6 okdone g1 g2 g3 g4 g5 g6 putr d1 d2 d3 d4 d5 d6 r0 meth args ret s =
     (let (a1, args) = g1 args d1;
          (a2, args) = g2 args d2;
          (a3, args) = g3 args d3;
          (a4, args) = g4 args d4;
          (a5, args) = g5 args d5;
          (a6, args) = g6 args d6
      in if \<not> okdone args then Inr (unmarshal_args_failure, ret, s)
         else rbind (meth a1 a2 a3 a4 a5 a6 r0 s) (\<lambda>(b, r, s). Inr (b, putr ret r, s)))"

definition fn_7 ::
    "(unmarshall \<Rightarrow> bool) \<Rightarrow> 'a1 reader \<Rightarrow> 'a2 reader \<Rightarrow> 'a3 reader \<Rightarrow> 'a4 reader \<Rightarrow> 'a5 reader \<Rightarrow> 'a6 reader \<Rightarrow> 'a7 reader \<Rightarrow> 'r writer \<Rightarrow> 'a1 \<Rightarrow> 'a2 \<Rightarrow> 'a3 \<Rightarrow> 'a4 \<Rightarrow> 'a5 \<Rightarrow> 'a6 \<Rightarrow> 'a7 \<Rightarrow> 'r \<Rightarrow>
     ('a1 \<Rightarrow> 'a2 \<Rightarrow> 'a3 \<Rightarrow> 'a4 \<Rightarrow> 'a5 \<Rightarrow> 'a6 \<Rightarrow> 'a7 \<Rightarrow> ('r, 's) meth) \<Rightarrow> 's handler_fn" where
  "fn_7 okdone g1 g2 g3 g4 g5 g6 g7 putr d1 d2 d3 d4 d5 d6 d7 r0 meth args ret s =
     (let (a1, args) = g1 args d1;
          (a2, args) = g2 args d2;
          (a3, args) = g3 args d3;
          (a4, args) = g4 args d4;
          (a5, args) = g5 args d5;
          (a6, args) = g6 args d6;
          (a7, args) = g7 args d7
      in if \<not> okdone args then Inr (unmarshal_args_failure, ret, s)
         else rbind (meth a1 a2 a3 a4 a5 a6 a7 r0 s) (\<lambda>(b, r, s). Inr (b, putr ret r, s)))"

subsection \<open>Several arguments as one\<close>

definition put_pair :: "'a writer \<Rightarrow> 'b writer \<Rightarrow> ('a \<times> 'b) writer" where
  "put_pair p q m ab = q (p m (fst ab)) (snd ab)"

definition get_pair :: "'a reader \<Rightarrow> 'b reader \<Rightarrow> ('a \<times> 'b) reader" where
  "get_pair g h u ab = (let (a, u) = g u (fst ab); (b, u) = h u (snd ab) in ((a, b), u))"

definition enc_pair :: "('a \<Rightarrow> byte list) \<Rightarrow> ('b \<Rightarrow> byte list) \<Rightarrow> 'a \<times> 'b \<Rightarrow> byte list" where
  "enc_pair e f ab = e (fst ab) @ f (snd ab)"

lemma put_pair_appends: "appends chk p e \<Longrightarrow> appends chk q f \<Longrightarrow> appends chk (put_pair p q) (enc_pair e f)"
  by (auto simp: appends_def put_pair_def enc_pair_def)

lemma get_pair_consumes:
  assumes "consumes g e a0" and "consumes h f b0"
  shows "consumes (get_pair g h) (enc_pair e f) (a0, b0)"
  unfolding consumes_def
proof (intro allI impI)
  fix u ab rest assume u: "u_ready u" "pending u = enc_pair e f ab @ rest"
  obtain u1 where 1: "g u a0 = (fst ab, u1)" "u_ready u1" "pending u1 = f (snd ab) @ rest"
    by (rule consumesE [OF assms(1) u(1), of "fst ab"]) (use u(2) in \<open>simp_all add: enc_pair_def\<close>)
  obtain u2 where "h u1 b0 = (snd ab, u2)" "u_ready u2" "pending u2 = rest"
    by (rule consumesE [OF assms(2) 1(2,3)])
  with 1(1) show "\<exists>u'. get_pair g h u (a0, b0) = (ab, u') \<and> u_ready u' \<and> pending u' = rest"
    by (simp add: get_pair_def)
qed

lemma calls_as_one:
  "call_2 call1 okdone chk junk p1 p2 getr proc a1 a2 =
     call_1 call1 okdone chk junk (put_pair p1 p2) getr proc (a1, a2)"
  "call_3 call1 okdone chk junk p1 p2 p3 getr proc a1 a2 a3 =
     call_1 call1 okdone chk junk (put_pair p1 (put_pair p2 p3)) getr proc (a1, (a2, a3))"
  "call_4 call1 okdone chk junk p1 p2 p3 p4 getr proc a1 a2 a3 a4 =
     call_1 call1 okdone chk junk (put_pair p1 (put_pair p2 (put_pair p3 p4))) getr proc (a1, (a2, (a3, a4)))"
  "call_5 call1 okdone chk junk p1 p2 p3 p4 p5 getr proc a1 a2 a3 a4 a5 =
     call_1 call1 okdone chk junk (put_pair p1 (put_pair p2 (put_pair p3 (put_pair p4 p5)))) getr proc (a1, (a2, (a3, (a4, a5))))"
  "call_6 call1 okdone chk junk p1 p2 p3 p4 p5 p6 getr proc a1 a2 a3 a4 a5 a6 =
     call_1 call1 okdone chk junk (put_pair p1 (put_pair p2 (put_pair p3 (put_pair p4 (put_pair p5 p6))))) getr proc (a1, (a2, (a3, (a4, (a5, a6)))))"
  "call_7 call1 okdone chk junk p1 p2 p3 p4 p5 p6 p7 getr proc a1 a2 a3 a4 a5 a6 a7 =
     call_1 call1 okdone chk junk (put_pair p1 (put_pair p2 (put_pair p3 (put_pair p4 (put_pair p5 (put_pair p6 p7)))))) getr proc (a1, (a2, (a3, (a4, (a5, (a6, a7))))))"
  by (simp_all add: fun_eq_iff call_1_def call_2_def call_3_def call_4_def call_5_def call_6_def call_7_def put_pair_def Let_def)

lemma fns_as_one:
  "fn_2 okdone g1 g2 putr d1 d2 r0 meth2 =
     fn_1 okdone (get_pair g1 g2) putr (d1, d2) r0 (\<lambda>(a1, a2). meth2 a1 a2)"
  "fn_3 okdone g1 g2 g3 putr d1 d2 d3 r0 meth3 =
     fn_1 okdone (get_pair g1 (get_pair g2 g3)) putr (d1, (d2, d3)) r0 (\<lambda>(a1, (a2, a3)). meth3 a1 a2 a3)"
  "fn_4 okdone g1 g2 g3 g4 putr d1 d2 d3 d4 r0 meth4 =
     fn_1 okdone (get_pair g1 (get_pair g2 (get_pair g3 g4))) putr (d1, (d2, (d3, d4))) r0 (\<lambda>(a1, (a2, (a3, a4))). meth4 a1 a2 a3 a4)"
  "fn_5 okdone g1 g2 g3 g4 g5 putr d1 d2 d3 d4 d5 r0 meth5 =
     fn_1 okdone (get_pair g1 (get_pair g2 (get_pair g3 (get_pair g4 g5)))) putr (d1, (d2, (d3, (d4, d5)))) r0 (\<lambda>(a1, (a2, (a3, (a4, a5)))). meth5 a1 a2 a3 a4 a5)"
  "fn_6 okdone g1 g2 g3 g4 g5 g6 putr d1 d2 d3 d4 d5 d6 r0 meth6 =
     fn_1 okdone (get_pair g1 (get_pair g2 (get_pair g3 (get_pair g4 (get_pair g5 g6))))) putr (d1, (d2, (d3, (d4, (d5, d6))))) r0 (\<lambda>(a1, (a2, (a3, (a4, (a5, a6))))). meth6 a1 a2 a3 a4 a5 a6)"
  "fn_7 okdone g1 g2 g3 g4 g5 g6 g7 putr d1 d2 d3 d4 d5 d6 d7 r0 meth7 =
     fn_1 okdone (get_pair g1 (get_pair g2 (get_pair g3 (get_pair g4 (get_pair g5 (get_pair g6 g7)))))) putr (d1, (d2, (d3, (d4, (d5, (d6, d7)))))) r0 (\<lambda>(a1, (a2, (a3, (a4, (a5, (a6, a7)))))). meth7 a1 a2 a3 a4 a5 a6 a7)"
  by (simp_all add: fun_eq_iff fn_1_def fn_2_def fn_3_def fn_4_def fn_5_def fn_6_def fn_7_def get_pair_def Let_def split_beta)

subsection \<open>A call through the wire\<close>

text \<open>
  The codes of \<open>rpc_const\<close> with which \<open>call1\<close> itself can fail: no reply in time, a call the server
  cannot run at most once, a server that restarted, no binding, a cancelled client.
\<close>

definition call1_failures :: "int set" where
  "call1_failures = {timeout_failure, atmostonce_failure, oldsrv_failure, bind_failure, cancel_failure}"

lemma call1_failures_neg: "c \<in> call1_failures \<Longrightarrow> c < 0"
  by (auto simp: call1_failures_def timeout_failure_def atmostonce_failure_def oldsrv_failure_def
      bind_failure_def cancel_failure_def)

text \<open>
  The transport relied on. If it returns the handler's result, then the handler ran once, on an
  object that holds the content of the request and with an empty reply, and the reply object holds
  the content of the reply. It may also fail with one of the codes \<open>F\<close>; then the handler ran
  once or not at all, and nothing is said of the reply object.
\<close>

definition delivers :: "int set \<Rightarrow> bool \<Rightarrow> 's call1 \<Rightarrow> 's handler_fn \<Rightarrow> bool" where
  "delivers F chk call1 fn \<longleftrightarrow>
     (\<forall>proc req to s. m_wf chk req \<longrightarrow>
        (\<exists>args ret0. u_ready args \<and> pending args = body chk req \<and> m_wf chk ret0 \<and> body chk ret0 = [] \<and>
           (\<forall>b ret s'. fn args ret0 s = Inr (b, ret, s') \<longrightarrow> m_wf chk ret \<longrightarrow>
              (\<exists>u. call1 proc req new_unmarshall to s = (b, u, s') \<and> u_ready u \<and>
                   pending u = body chk ret) \<or>
              (\<exists>c u s1. call1 proc req new_unmarshall to s = (c, u, s1) \<and> c \<in> F \<and> (s1 = s \<or> s1 = s')))))"

lemma fn_1_run:
  assumes "checks_done okdone" and "consumes g e d" and "appends chk putr er"
    and "u_ready args" and "pending args = e a" and "m_wf chk ret" and "meth a r0 s = Inr (b, r, s')"
  obtains ret' where "fn_1 okdone g putr d r0 meth args ret s = Inr (b, ret', s')"
    and "m_wf chk ret'" and "body chk ret' = body chk ret @ er r"
proof -
  obtain args' where "g args d = (a, args')" "u_ready args'" "pending args' = []"
    by (rule consumesE [OF assms(2,4), of a "[]"]) (use assms(5) in simp_all)
  then have "fn_1 okdone g putr d r0 meth args ret s = Inr (b, putr ret r, s')"
    using assms(1,7) by (simp add: fn_1_def checks_done_def)
  with that appendsD [OF assms(3,6)] show thesis by blast
qed

lemma call_failed:
  assumes "call1 proc (p (new_marshall chk junk) a) new_unmarshall to w = (intret, u, w')" and "intret < 0"
  shows "call_1 call1 okdone chk junk p getr proc a r to w = Inr (intret, r, w')"
  using assms by (simp add: call_1_def call_m_def)

lemma remote_call_1:
  assumes dv: "delivers F chk call1 (fn_1 okdone g putr d r0 meth)" and F: "F \<subseteq> call1_failures"
    and ok: "checks_done okdone"
    and arg: "appends chk p e" "consumes g e d" and rep: "appends chk putr er" "consumes getr er rc"
    and m: "meth a r0 s = Inr (b, r, s')" and b: "0 \<le> b"
  shows "call_1 call1 okdone chk junk p getr proc a rc to s = Inr (b, r, s') \<or>
    (\<exists>c s1. call_1 call1 okdone chk junk p getr proc a rc to s = Inr (c, rc, s1) \<and> c \<in> F \<and> (s1 = s \<or> s1 = s'))"
proof -
  let ?req = "p (new_marshall chk junk) a"
  have req: "m_wf chk ?req" "body chk ?req = e a"
    using appendsD [OF arg(1) new_marshall_body(1)] new_marshall_body(2) by auto
  obtain args ret0 where d: "u_ready args" "pending args = e a" "m_wf chk ret0" "body chk ret0 = []"
    and run: "\<forall>b ret s'. fn_1 okdone g putr d r0 meth args ret0 s = Inr (b, ret, s') \<longrightarrow> m_wf chk ret \<longrightarrow>
      (\<exists>u. call1 proc ?req new_unmarshall to s = (b, u, s') \<and> u_ready u \<and> pending u = body chk ret) \<or>
      (\<exists>c u s1. call1 proc ?req new_unmarshall to s = (c, u, s1) \<and> c \<in> F \<and> (s1 = s \<or> s1 = s'))"
    using dv [unfolded delivers_def, rule_format, OF req(1), of s proc to] req(2) by auto
  obtain ret where ret: "fn_1 okdone g putr d r0 meth args ret0 s = Inr (b, ret, s')"
      "m_wf chk ret" "body chk ret = er r"
    by (rule fn_1_run [where meth = meth, OF ok arg(2) rep(1) d(1,2,3) m]) (use d(4) in simp)
  from run [rule_format, OF ret(1,2)] show ?thesis
  proof
    assume "\<exists>u. call1 proc ?req new_unmarshall to s = (b, u, s') \<and> u_ready u \<and> pending u = body chk ret"
    then obtain u where u: "call1 proc ?req new_unmarshall to s = (b, u, s')" "u_ready u" "pending u = er r"
      using ret(3) by auto
    obtain u' where "getr u rc = (r, u')" "u_ready u'" "pending u' = []"
      by (rule consumesE [OF rep(2) u(2), of r "[]"]) (use u(3) in simp_all)
    with u(1) ok b show ?thesis by (simp add: call_1_def call_m_def checks_done_def)
  next
    assume "\<exists>c u s1. call1 proc ?req new_unmarshall to s = (c, u, s1) \<and> c \<in> F \<and> (s1 = s \<or> s1 = s')"
    then obtain c u s1 where c: "call1 proc ?req new_unmarshall to s = (c, u, s1)" "c \<in> F" "s1 = s \<or> s1 = s'" by blast
    then have "call_1 call1 okdone chk junk p getr proc a rc to s = Inr (c, rc, s1)"
      using call1_failures_neg [of c] F by (intro call_failed [where p = p]) auto
    with c(2,3) show ?thesis by blast
  qed
qed

text \<open>Arguments of other types, or too few or too many bytes, never reach the method.\<close>

lemma fn_1_bad_args:
  assumes "g args d = (a, args')" and "\<not> okdone args'"
  shows "fn_1 okdone g putr d r0 meth args ret s = Inr (unmarshal_args_failure, ret, s)"
  using assms by (simp add: fn_1_def)

text \<open>A transport that hands the content over directly, to show that \<open>delivers\<close> can hold.\<close>

definition direct_call1 :: "bool \<Rightarrow> 's handler_fn \<Rightarrow> 's call1" where
  "direct_call1 chk fn proc req rep to s =
     (case fn (unmarshall_string chk (\<lambda>_. 0) (body chk req)) (new_marshall chk (\<lambda>_. 0)) s of
        Inl _ \<Rightarrow> (timeout_failure, rep, s)
      | Inr (b, ret, s') \<Rightarrow> (b, unmarshall_string chk (\<lambda>_. 0) (body chk ret), s'))"

lemma direct_delivers: "delivers F chk (direct_call1 chk fn) fn"
  unfolding delivers_def
proof (intro allI impI)
  fix proc req to s assume "m_wf chk req"
  show "\<exists>args ret0. u_ready args \<and> pending args = body chk req \<and> m_wf chk ret0 \<and> body chk ret0 = [] \<and>
      (\<forall>b ret s'. fn args ret0 s = Inr (b, ret, s') \<longrightarrow> m_wf chk ret \<longrightarrow>
        (\<exists>u. direct_call1 chk fn proc req new_unmarshall to s = (b, u, s') \<and> u_ready u \<and>
             pending u = body chk ret) \<or>
        (\<exists>c u s1. direct_call1 chk fn proc req new_unmarshall to s = (c, u, s1) \<and> c \<in> F \<and> (s1 = s \<or> s1 = s')))"
    by (rule exI [of _ "unmarshall_string chk (\<lambda>_. 0) (body chk req)"],
        rule exI [of _ "new_marshall chk (\<lambda>_. 0)"])
      (simp add: direct_call1_def unmarshall_string_def take_content_pending new_marshall_body)
qed

subsection \<open>Properties\<close>

text \<open>
  A remote call with seven arguments is the call of the method itself, or fails: over a transport
  that delivers the content, \<open>call\<close> returns the method's status and reply and the method's effect
  on the service, or a failure code of the transport, and then leaves the reply variable alone.
  (The calls with fewer arguments are the same call with nested pairs.)
\<close>

theorem remote_call:
  assumes "delivers F chk call1 (fn_7 okdone g1 g2 g3 g4 g5 g6 g7 putr d1 d2 d3 d4 d5 d6 d7 r0 meth)"
    and "F \<subseteq> call1_failures" and "checks_done okdone"
    and "appends chk p1 e1" "appends chk p2 e2" "appends chk p3 e3" "appends chk p4 e4"
      "appends chk p5 e5" "appends chk p6 e6" "appends chk p7 e7"
    and "consumes g1 e1 d1" "consumes g2 e2 d2" "consumes g3 e3 d3" "consumes g4 e4 d4"
      "consumes g5 e5 d5" "consumes g6 e6 d6" "consumes g7 e7 d7"
    and "appends chk putr er" and "consumes getr er rc"
    and "meth a1 a2 a3 a4 a5 a6 a7 r0 s = Inr (b, r, s')" and "0 \<le> b"
  shows "call_7 call1 okdone chk junk p1 p2 p3 p4 p5 p6 p7 getr proc a1 a2 a3 a4 a5 a6 a7 rc to s =
      Inr (b, r, s') \<or>
    (\<exists>c s1. call_7 call1 okdone chk junk p1 p2 p3 p4 p5 p6 p7 getr proc a1 a2 a3 a4 a5 a6 a7 rc to s =
      Inr (c, rc, s1) \<and> c \<in> F \<and> (s1 = s \<or> s1 = s'))"
proof -
  let ?p = "put_pair p1 (put_pair p2 (put_pair p3 (put_pair p4 (put_pair p5 (put_pair p6 p7)))))"
  let ?g = "get_pair g1 (get_pair g2 (get_pair g3 (get_pair g4 (get_pair g5 (get_pair g6 g7)))))"
  let ?e = "enc_pair e1 (enc_pair e2 (enc_pair e3 (enc_pair e4 (enc_pair e5 (enc_pair e6 e7)))))"
  have "appends chk ?p ?e" using assms by (intro put_pair_appends)
  moreover have "consumes ?g ?e (d1, d2, d3, d4, d5, d6, d7)" using assms by (intro get_pair_consumes)
  ultimately show ?thesis
    unfolding calls_as_one
    using remote_call_1 [OF assms(1) [unfolded fns_as_one] assms(2,3) _ _ assms(18,19), of ?p ?e "(a1, a2, a3, a4, a5, a6, a7)"]
      assms(20,21) by simp
qed

theorem remote_call_witness:
  "call_7 (direct_call1 False (fn_7 le_done le_reader le_reader le_reader le_reader le_reader le_reader le_reader
       le_pack 0 0 0 0 0 0 0 0 (\<lambda>a b c d e f g r s. Inr (0, a + b + c + d + e + f + g, s + 1))))
     le_done False (\<lambda>_. 0) le_pack le_pack le_pack le_pack le_pack le_pack le_pack le_reader 9
     1 2 3 4 5 6 7 0 (to_make 10) (41 :: int) = Inr (0, 28, 42)"
proof -
  let ?m = "\<lambda>a b c d e f g (r :: u32) (s :: int). Inr (0, a + b + c + d + e + f + g, s + 1)"
  let ?call = "call_7 (direct_call1 False (fn_7 le_done le_reader le_reader le_reader le_reader le_reader le_reader le_reader
       le_pack 0 0 0 0 0 0 0 0 ?m)) le_done False (\<lambda>_. 0) le_pack le_pack le_pack le_pack le_pack le_pack le_pack le_reader 9
     1 2 3 4 5 6 7 0 (to_make 10) 41"
  have "?call = Inr (0, 28, 42) \<or> (\<exists>c s1. ?call = Inr (c, 0, s1) \<and> c \<in> {} \<and> (s1 = 41 \<or> s1 = 42))"
    by (rule remote_call [OF direct_delivers _ le_checks_done le_appends le_appends le_appends le_appends le_appends
      le_appends le_appends le_consumes le_consumes le_consumes le_consumes le_consumes le_consumes le_consumes
      le_appends le_consumes]) simp_all
  then show ?thesis by simp
qed

text \<open>
  A handler whose arguments do not use up the request exactly returns
  \<open>unmarshal_args_failure\<close> without calling the method: the service and the reply are unchanged.
\<close>

theorem bad_args_rejected:
  assumes "g1 args d1 = (a1, args1)" and "g2 args1 d2 = (a2, args2)" and "\<not> okdone args2"
  shows "fn_2 okdone g1 g2 putr d1 d2 r0 meth args ret s = Inr (unmarshal_args_failure, ret, s)"
  using fn_1_bad_args [of "get_pair g1 g2" args "(d1, d2)" "(a1, a2)" args2] assms
  unfolding fns_as_one by (simp add: get_pair_def)

theorem bad_args_rejected_witness:
  "fn_2 le_done le_reader le_reader le_pack 0 0 0 (\<lambda>a b r s. Inr (0, a, s + 1))
     (unmarshall_string False (\<lambda>_. 0) [1, 2, 3]) (new_marshall False (\<lambda>_. 0)) (41 :: int) =
   Inr (- 2, new_marshall False (\<lambda>_. 0), 41)"
proof -
  let ?u = "unmarshall_string False (\<lambda>_. 0) [1, 2, 3]"
  let ?f = "?u\<lparr>u_ok := False\<rparr>"
  have "le_reader ?u 0 = (0, ?f)" "le_reader ?f 0 = (0, ?f)"
    by (simp_all add: le_reader_def le_unpack_def unmarshall_string_def take_content_def new_unmarshall_def)
  then have "fn_2 le_done le_reader le_reader le_pack 0 0 0 (\<lambda>a b r s. Inr (0, a, s + 1)) ?u
      (new_marshall False (\<lambda>_. 0)) (41 :: int) = Inr (unmarshal_args_failure, new_marshall False (\<lambda>_. 0), 41)"
    by (rule bad_args_rejected) (simp add: le_done_def)
  then show ?thesis by (simp add: unmarshal_args_failure_def)
qed

end
