(* ===== verification/Rpc_Endpoints.thy ===== *)
theory Rpc_Endpoints
  imports Rpc
begin

text \<open>
  The endpoints of \<open>rpc/rpc.h\<close> and what they rest on: the state of a client (\<open>rpcc\<close>) and of a
  server (\<open>rpcs\<close>) with their inline methods, the registration of handlers by \<open>rpcs::reg\<close> for one to
  seven arguments, the structures of \<open>rpc/connection.h\<close> that have a constructor, the flags of
  \<open>rpc/pollmgr.h\<close> and the macro of \<open>rpc/jsl_log.h\<close>. \<open>reg1\<close>, which enters a handler into the table, is
  compiled into \<open>librpc.a\<close>; it is an argument, with \<open>registers\<close> as what is relied on.

  Pointers to objects of the library are addresses, a mutex is its holder, a condition variable
  the threads that wait on it. \<open>sockaddr_in\<close> is a type parameter.
\<close>

type_synonym address = nat
type_synonym mutex = "nat option"
type_synonym condvar = "nat list"

subsection \<open>Flags and messages\<close>

definition MAX_POLL_FDS :: nat where
  "MAX_POLL_FDS = 128"

datatype poll_flag = CB_NONE | CB_RDONLY | CB_WRONLY | CB_RDWR | CB_MASK

fun poll_flag_code :: "poll_flag \<Rightarrow> 32 word" where
  "poll_flag_code CB_NONE = 0x0"
| "poll_flag_code CB_RDONLY = 0x1"
| "poll_flag_code CB_WRONLY = 0x10"
| "poll_flag_code CB_RDWR = 0x11"
| "poll_flag_code CB_MASK = NOT 0x11"

datatype dbcode = JSL_DBG_OFF | JSL_DBG_1 | JSL_DBG_2 | JSL_DBG_3 | JSL_DBG_4

fun dbcode_code :: "dbcode \<Rightarrow> int" where
  "dbcode_code JSL_DBG_OFF = 0"
| "dbcode_code JSL_DBG_1 = 1"
| "dbcode_code JSL_DBG_2 = 2"
| "dbcode_code JSL_DBG_3 = 3"
| "dbcode_code JSL_DBG_4 = 4"

text \<open>
  \<open>text\<close> is what \<open>printf\<close> makes of the arguments and \<open>out\<close> what was printed before. \<open>abs\<close> of the least
  \<open>int\<close> is not an \<open>int\<close>.
\<close>

definition jsl_log :: "int \<Rightarrow> int \<Rightarrow> string \<Rightarrow> string \<Rightarrow> fault + string" where
  "jsl_log debug_level level text out =
     (if level = - (2 ^ 31) then Inl Signed_overflow
      else if debug_level < \<bar>level\<bar> then Inr out
      else Inr (out @ text))"

subsection \<open>Connections\<close>

record charbuf =
  cb_buf :: "buf option"
  cb_sz :: int
  cb_solong :: int

definition new_charbuf :: charbuf where
  "new_charbuf = \<lparr>cb_buf = None, cb_sz = 0, cb_solong = 0\<rparr>"

definition charbuf_of :: "buf option \<Rightarrow> int \<Rightarrow> charbuf" where
  "charbuf_of b s = \<lparr>cb_buf = b, cb_sz = s, cb_solong = 0\<rparr>"

record connection =
  cn_mgr :: address
  cn_fd :: int
  cn_dead :: bool
  cn_wpdu :: charbuf
  cn_rpdu :: charbuf
  cn_create_time :: "int \<times> int"
  cn_waiters :: int
  cn_refno :: int
  cn_lossy :: int
  cn_m :: mutex
  cn_ref_m :: mutex
  cn_send_complete :: condvar
  cn_send_wait :: condvar

definition channo :: "connection \<Rightarrow> int" where
  "channo c = cn_fd c"

record accept_bundle =
  bd_mgr :: address
  bd_tcp :: int
  bd_lossy :: int

definition new_bundle :: "address \<Rightarrow> int \<Rightarrow> int \<Rightarrow> accept_bundle" where
  "new_bundle m s l = \<lparr>bd_mgr = m, bd_tcp = s, bd_lossy = l\<rparr>"

subsection \<open>The client endpoint\<close>

record caller =
  cr_xid :: u32
  cr_un :: address
  cr_intret :: int
  cr_done :: bool
  cr_m :: mutex
  cr_c :: condvar

definition new_request :: request where
  "new_request = request_clear \<lparr>req_buf = [], req_xid = 0\<rparr>"

record 'addr rpcc =
  cc_dst :: 'addr
  cc_clt_nonce :: u32
  cc_srv_nonce :: u32
  cc_bind_done :: bool
  cc_xid :: u32
  cc_lossytest :: int
  cc_retrans :: bool
  cc_reachable :: bool
  cc_chan :: address
  cc_m :: mutex
  cc_chan_m :: mutex
  cc_destroy_wait :: bool
  cc_destroy_wait_c :: condvar
  cc_calls :: "int \<rightharpoonup> address"
  cc_xid_rep_window :: "u32 list"
  cc_dup_req :: request
  cc_xid_rep_done :: int

definition rpcc_id :: "'addr rpcc \<Rightarrow> u32" where
  "rpcc_id c = cc_clt_nonce c"

definition rpcc_set_reachable :: "bool \<Rightarrow> 'addr rpcc \<Rightarrow> 'addr rpcc" where
  "rpcc_set_reachable r c = c\<lparr>cc_reachable := r\<rparr>"

definition rpcc_islossy :: "'addr rpcc \<Rightarrow> int" where
  "rpcc_islossy c = (if cc_lossytest c > 0 then 1 else 0)"

subsection \<open>The server endpoint\<close>

text \<open>The table maps the number of a procedure, as an \<open>int\<close>, to its handler.\<close>

record 's rpcs =
  rs_port :: int
  rs_nonce :: u32
  rs_reply_window :: "u32 \<rightharpoonup> reply_t list"
  rs_conns :: "u32 \<rightharpoonup> address"
  rs_counting :: int
  rs_curr_counts :: int
  rs_counts :: "int \<rightharpoonup> int"
  rs_lossytest :: int
  rs_reachable :: bool
  rs_procs :: "int \<rightharpoonup> 's handler_fn"
  rs_procs_m :: mutex
  rs_count_m :: mutex
  rs_reply_window_m :: mutex
  rs_conss_m :: mutex
  rs_dispatchpool :: address
  rs_listener :: address

record djob_t =
  dj_buf :: "buf option"
  dj_sz :: int
  dj_conn :: address

definition new_djob_t :: "address \<Rightarrow> buf option \<Rightarrow> int \<Rightarrow> djob_t" where
  "new_djob_t c b bsz = \<lparr>dj_buf = b, dj_sz = bsz, dj_conn = c\<rparr>"

definition rpcs_set_reachable :: "bool \<Rightarrow> 's rpcs \<Rightarrow> 's rpcs" where
  "rpcs_set_reachable r srv = srv\<lparr>rs_reachable := r\<rparr>"

text \<open>\<open>reg1(proc, h)\<close> on a server. The handlers are those of \<^const>\<open>fn_1\<close> to \<^const>\<open>fn_7\<close>.\<close>

type_synonym 's reg1 = "'s rpcs \<Rightarrow> u32 \<Rightarrow> 's handler_fn \<Rightarrow> fault + 's rpcs"

definition reg_1 ::
    "'s reg1 \<Rightarrow> (unmarshall \<Rightarrow> bool) \<Rightarrow> 'a1 reader \<Rightarrow> 'r writer \<Rightarrow>
     'a1 \<Rightarrow> 'r \<Rightarrow> 's rpcs \<Rightarrow> u32 \<Rightarrow> ('a1 \<Rightarrow> ('r, 's) meth) \<Rightarrow> fault + 's rpcs" where
  "reg_1 reg1 okdone g1 putr d1 r0 srv proc meth =
     reg1 srv proc (fn_1 okdone g1 putr d1 r0 meth)"

definition reg_2 ::
    "'s reg1 \<Rightarrow> (unmarshall \<Rightarrow> bool) \<Rightarrow> 'a1 reader \<Rightarrow> 'a2 reader \<Rightarrow> 'r writer \<Rightarrow>
     'a1 \<Rightarrow> 'a2 \<Rightarrow> 'r \<Rightarrow> 's rpcs \<Rightarrow> u32 \<Rightarrow> ('a1 \<Rightarrow> 'a2 \<Rightarrow> ('r, 's) meth) \<Rightarrow> fault + 's rpcs" where
  "reg_2 reg1 okdone g1 g2 putr d1 d2 r0 srv proc meth =
     reg1 srv proc (fn_2 okdone g1 g2 putr d1 d2 r0 meth)"

definition reg_3 ::
    "'s reg1 \<Rightarrow> (unmarshall \<Rightarrow> bool) \<Rightarrow> 'a1 reader \<Rightarrow> 'a2 reader \<Rightarrow> 'a3 reader \<Rightarrow> 'r writer \<Rightarrow>
     'a1 \<Rightarrow> 'a2 \<Rightarrow> 'a3 \<Rightarrow> 'r \<Rightarrow> 's rpcs \<Rightarrow> u32 \<Rightarrow> ('a1 \<Rightarrow> 'a2 \<Rightarrow> 'a3 \<Rightarrow> ('r, 's) meth) \<Rightarrow> fault + 's rpcs" where
  "reg_3 reg1 okdone g1 g2 g3 putr d1 d2 d3 r0 srv proc meth =
     reg1 srv proc (fn_3 okdone g1 g2 g3 putr d1 d2 d3 r0 meth)"

definition reg_4 ::
    "'s reg1 \<Rightarrow> (unmarshall \<Rightarrow> bool) \<Rightarrow> 'a1 reader \<Rightarrow> 'a2 reader \<Rightarrow> 'a3 reader \<Rightarrow> 'a4 reader \<Rightarrow> 'r writer \<Rightarrow>
     'a1 \<Rightarrow> 'a2 \<Rightarrow> 'a3 \<Rightarrow> 'a4 \<Rightarrow> 'r \<Rightarrow> 's rpcs \<Rightarrow> u32 \<Rightarrow> ('a1 \<Rightarrow> 'a2 \<Rightarrow> 'a3 \<Rightarrow> 'a4 \<Rightarrow> ('r, 's) meth) \<Rightarrow> fault + 's rpcs" where
  "reg_4 reg1 okdone g1 g2 g3 g4 putr d1 d2 d3 d4 r0 srv proc meth =
     reg1 srv proc (fn_4 okdone g1 g2 g3 g4 putr d1 d2 d3 d4 r0 meth)"

definition reg_5 ::
    "'s reg1 \<Rightarrow> (unmarshall \<Rightarrow> bool) \<Rightarrow> 'a1 reader \<Rightarrow> 'a2 reader \<Rightarrow> 'a3 reader \<Rightarrow> 'a4 reader \<Rightarrow> 'a5 reader \<Rightarrow> 'r writer \<Rightarrow>
     'a1 \<Rightarrow> 'a2 \<Rightarrow> 'a3 \<Rightarrow> 'a4 \<Rightarrow> 'a5 \<Rightarrow> 'r \<Rightarrow> 's rpcs \<Rightarrow> u32 \<Rightarrow> ('a1 \<Rightarrow> 'a2 \<Rightarrow> 'a3 \<Rightarrow> 'a4 \<Rightarrow> 'a5 \<Rightarrow> ('r, 's) meth) \<Rightarrow> fault + 's rpcs" where
  "reg_5 reg1 okdone g1 g2 g3 g4 g5 putr d1 d2 d3 d4 d5 r0 srv proc meth =
     reg1 srv proc (fn_5 okdone g1 g2 g3 g4 g5 putr d1 d2 d3 d4 d5 r0 meth)"

definition reg_6 ::
    "'s reg1 \<Rightarrow> (unmarshall \<Rightarrow> bool) \<Rightarrow> 'a1 reader \<Rightarrow> 'a2 reader \<Rightarrow> 'a3 reader \<Rightarrow> 'a4 reader \<Rightarrow> 'a5 reader \<Rightarrow> 'a6 reader \<Rightarrow> 'r writer \<Rightarrow>
     'a1 \<Rightarrow> 'a2 \<Rightarrow> 'a3 \<Rightarrow> 'a4 \<Rightarrow> 'a5 \<Rightarrow> 'a6 \<Rightarrow> 'r \<Rightarrow> 's rpcs \<Rightarrow> u32 \<Rightarrow> ('a1 \<Rightarrow> 'a2 \<Rightarrow> 'a3 \<Rightarrow> 'a4 \<Rightarrow> 'a5 \<Rightarrow> 'a6 \<Rightarrow> ('r, 's) meth) \<Rightarrow> fault + 's rpcs" where
  "reg_6 reg1 okdone g1 g2 g3 g4 g5 g6 putr d1 d2 d3 d4 d5 d6 r0 srv proc meth =
     reg1 srv proc (fn_6 okdone g1 g2 g3 g4 g5 g6 putr d1 d2 d3 d4 d5 d6 r0 meth)"

definition reg_7 ::
    "'s reg1 \<Rightarrow> (unmarshall \<Rightarrow> bool) \<Rightarrow> 'a1 reader \<Rightarrow> 'a2 reader \<Rightarrow> 'a3 reader \<Rightarrow> 'a4 reader \<Rightarrow> 'a5 reader \<Rightarrow> 'a6 reader \<Rightarrow> 'a7 reader \<Rightarrow> 'r writer \<Rightarrow>
     'a1 \<Rightarrow> 'a2 \<Rightarrow> 'a3 \<Rightarrow> 'a4 \<Rightarrow> 'a5 \<Rightarrow> 'a6 \<Rightarrow> 'a7 \<Rightarrow> 'r \<Rightarrow> 's rpcs \<Rightarrow> u32 \<Rightarrow> ('a1 \<Rightarrow> 'a2 \<Rightarrow> 'a3 \<Rightarrow> 'a4 \<Rightarrow> 'a5 \<Rightarrow> 'a6 \<Rightarrow> 'a7 \<Rightarrow> ('r, 's) meth) \<Rightarrow> fault + 's rpcs" where
  "reg_7 reg1 okdone g1 g2 g3 g4 g5 g6 g7 putr d1 d2 d3 d4 d5 d6 d7 r0 srv proc meth =
     reg1 srv proc (fn_7 okdone g1 g2 g3 g4 g5 g6 g7 putr d1 d2 d3 d4 d5 d6 d7 r0 meth)"

subsection \<open>The table of handlers\<close>

text \<open>What is relied on of \<open>reg1\<close>: a number that is free gets the handler, the others keep theirs.\<close>

definition registers :: "'s reg1 \<Rightarrow> bool" where
  "registers reg1 \<longleftrightarrow>
     (\<forall>srv proc h. rs_procs srv (sint proc) = None \<longrightarrow>
        (\<exists>srv'. reg1 srv proc h = Inr srv' \<and> rs_procs srv' = (rs_procs srv)(sint proc \<mapsto> h)))"

lemma registersE:
  assumes "registers reg1" and "rs_procs srv (sint proc) = None"
  obtains srv' where "reg1 srv proc h = Inr srv'" and "rs_procs srv' = (rs_procs srv)(sint proc \<mapsto> h)"
  using assms unfolding registers_def by metis

lemma sint_eq_iff [simp]: "sint p = sint q \<longleftrightarrow> p = q" for p q :: u32
  using signed_word_eqI [of p q] by auto

text \<open>Several registrations in a row.\<close>

fun register_all :: "'s reg1 \<Rightarrow> 's rpcs \<Rightarrow> (u32 \<times> 's handler_fn) list \<Rightarrow> fault + 's rpcs" where
  "register_all reg1 srv [] = Inr srv"
| "register_all reg1 srv ((proc, h) # hs) = rbind (reg1 srv proc h) (\<lambda>srv. register_all reg1 srv hs)"

lemma register_all_table:
  assumes "registers reg1" and "distinct (map fst hs)" and "\<forall>q \<in> fst ` set hs. rs_procs srv (sint q) = None"
  shows "\<exists>srv'. register_all reg1 srv hs = Inr srv' \<and>
    (\<forall>q. rs_procs srv' (sint q) = (case map_of hs q of None \<Rightarrow> rs_procs srv (sint q) | Some h \<Rightarrow> Some h))"
  using assms(2,3)
proof (induction hs arbitrary: srv)
  case (Cons ph hs)
  obtain p h where ph: "ph = (p, h)" by (cases ph)
  obtain s1 where s1: "reg1 srv p h = Inr s1" "rs_procs s1 = (rs_procs srv)(sint p \<mapsto> h)"
    by (rule registersE [OF assms(1), of srv p h]) (use Cons.prems(2) ph in auto)
  have p: "p \<notin> fst ` set hs" using Cons.prems(1) ph by simp
  then have "\<forall>q \<in> fst ` set hs. rs_procs s1 (sint q) = None" using Cons.prems(2) s1(2) by (auto simp: ph)
  then obtain s2 where s2: "register_all reg1 s1 hs = Inr s2"
      "\<forall>q. rs_procs s2 (sint q) = (case map_of hs q of None \<Rightarrow> rs_procs s1 (sint q) | Some h \<Rightarrow> Some h)"
    using Cons.IH [of s1] Cons.prems(1) by auto
  have "map_of hs p = None" using p by (simp add: map_of_eq_None_iff)
  with s1 s2 ph show ?case by (auto split: option.splits)
qed simp

text \<open>
  A transport that hands a request to the handler the server's table has for its number, if it does
  not fail with a code of \<open>F\<close>.
\<close>

definition routes :: "int set \<Rightarrow> bool \<Rightarrow> 's call1 \<Rightarrow> 's rpcs \<Rightarrow> bool" where
  "routes F chk call1 srv \<longleftrightarrow>
     (\<forall>proc h. rs_procs srv (sint proc) = Some h \<longrightarrow> delivers F chk (\<lambda>_. call1 proc) h)"

lemma call_m_proc: "call_m (\<lambda>_. call1 proc) okdone getr proc = call_m call1 okdone getr proc"
  by (simp add: fun_eq_iff call_m_def)

text \<open>A table and a transport for it, to show that the assumptions can hold.\<close>

definition plain_reg1 :: "'s reg1" where
  "plain_reg1 srv proc h = Inr (srv\<lparr>rs_procs := (rs_procs srv)(sint proc \<mapsto> h)\<rparr>)"

definition table_call1 :: "bool \<Rightarrow> 's rpcs \<Rightarrow> 's call1" where
  "table_call1 chk srv proc =
     (case rs_procs srv (sint proc) of
        None \<Rightarrow> (\<lambda>req rep to s. (timeout_failure, rep, s))
      | Some h \<Rightarrow> direct_call1 chk h proc)"

text \<open>A transport that loses every reply, after the handler ran, when the timeout is zero.\<close>

definition lossy_call1 :: "bool \<Rightarrow> 's rpcs \<Rightarrow> 's call1" where
  "lossy_call1 chk srv proc req rep to s =
     (let (b, u, s') = table_call1 chk srv proc req rep to s
      in if to_ms to = 0 then (timeout_failure, rep, s') else (b, u, s'))"

definition blank_rpcs :: "'s rpcs" where
  "blank_rpcs = \<lparr>rs_port = 0, rs_nonce = 0, rs_reply_window = Map.empty, rs_conns = Map.empty, rs_counting = 0,
     rs_curr_counts = 0, rs_counts = Map.empty, rs_lossytest = 0, rs_reachable = True, rs_procs = Map.empty,
     rs_procs_m = None, rs_count_m = None, rs_reply_window_m = None, rs_conss_m = None,
     rs_dispatchpool = 0, rs_listener = 0\<rparr>"

lemma plain_registers: "registers plain_reg1"
  by (simp add: registers_def plain_reg1_def)

lemma table_routes: "routes F chk (table_call1 chk srv) srv"
  unfolding routes_def
proof (intro allI impI)
  fix proc :: u32 and h assume "rs_procs srv (sint proc) = Some h"
  moreover have "(\<lambda>_. direct_call1 chk h proc) = direct_call1 chk h"
    by (simp add: fun_eq_iff direct_call1_def)
  ultimately show "delivers F chk (\<lambda>_. table_call1 chk srv proc) h"
    using direct_delivers [of F chk h] by (simp add: table_call1_def)
qed

lemma lossy_delivers:
  assumes "delivers {} chk (\<lambda>_. table_call1 chk srv proc) h"
  shows "delivers {timeout_failure} chk (\<lambda>_. lossy_call1 chk srv proc) h"
  unfolding delivers_def
proof (intro allI impI)
  fix q req to s assume "m_wf chk req"
  then obtain args ret0 where "u_ready args" "pending args = body chk req" "m_wf chk ret0" "body chk ret0 = []"
    and run: "\<And>b ret s'. h args ret0 s = Inr (b, ret, s') \<Longrightarrow> m_wf chk ret \<Longrightarrow>
      \<exists>u. table_call1 chk srv proc req new_unmarshall to s = (b, u, s') \<and> u_ready u \<and> pending u = body chk ret"
    using assms [unfolded delivers_def, rule_format, of req s to] by auto
  moreover have "(\<exists>u. lossy_call1 chk srv proc req new_unmarshall to s = (b, u, s') \<and> u_ready u \<and> pending u = body chk ret) \<or>
      (\<exists>c u s1. lossy_call1 chk srv proc req new_unmarshall to s = (c, u, s1) \<and> c \<in> {timeout_failure} \<and> (s1 = s \<or> s1 = s'))"
    if "h args ret0 s = Inr (b, ret, s')" "m_wf chk ret" for b ret s'
    using run [OF that] by (auto simp: lossy_call1_def)
  ultimately show "\<exists>args ret0. u_ready args \<and> pending args = body chk req \<and> m_wf chk ret0 \<and> body chk ret0 = [] \<and>
      (\<forall>b ret s'. h args ret0 s = Inr (b, ret, s') \<longrightarrow> m_wf chk ret \<longrightarrow>
        (\<exists>u. lossy_call1 chk srv proc req new_unmarshall to s = (b, u, s') \<and> u_ready u \<and> pending u = body chk ret) \<or>
        (\<exists>c u s1. lossy_call1 chk srv proc req new_unmarshall to s = (c, u, s1) \<and> c \<in> {timeout_failure} \<and>
          (s1 = s \<or> s1 = s')))" by blast
qed

lemma lossy_routes: "routes {timeout_failure} chk (lossy_call1 chk srv) srv"
  using table_routes [of "{}" chk srv] lossy_delivers unfolding routes_def by blast

lemma poll_flag_bits:
  "poll_flag_code CB_RDWR = poll_flag_code CB_RDONLY OR poll_flag_code CB_WRONLY"
  "poll_flag_code f AND poll_flag_code CB_MASK = 0 \<longleftrightarrow> f \<noteq> CB_MASK"
  by (simp, cases f) simp_all

text \<open>The off level prints nothing, except at level 0.\<close>

lemma jsl_log_off: "level \<noteq> - (2 ^ 31) \<Longrightarrow> level \<noteq> 0 \<Longrightarrow> jsl_log (dbcode_code JSL_DBG_OFF) level text out = Inr out"
  by (simp add: jsl_log_def)

subsection \<open>Properties\<close>

text \<open>
  C17: A method of seven arguments registered with \<open>reg\<close> under a free number is what a remote
  call of that number performs, also after any further registrations under other free numbers.
  The transport, \<open>call1\<close> of the library, is assumed to hand a request to the handler of the table
  or to fail with one of the negative codes \<open>F\<close> of \<open>rpc_const\<close> (a timeout, for one), the handler
  having run at most once. Then, for a method whose status is not negative, \<open>call\<close> returns the
  method's status and reply and has the method's effect on the service; or it returns a code of
  \<open>F\<close>, leaves the reply variable as it was, and the method ran once or not at all.
\<close>

theorem registered_remote_call:
  assumes "registers reg1" and "rs_procs srv (sint proc) = None"
    and "reg_7 reg1 okdone g1 g2 g3 g4 g5 g6 g7 putr d1 d2 d3 d4 d5 d6 d7 r0 srv proc meth = Inr srv1"
    and "distinct (proc # map fst rest)" and "\<forall>q \<in> fst ` set rest. rs_procs srv (sint q) = None"
    and "register_all reg1 srv1 rest = Inr srv2" and "routes F chk call1 srv2" and "F \<subseteq> call1_failures"
    and "checks_done okdone"
    and "appends chk p1 e1" "appends chk p2 e2" "appends chk p3 e3" "appends chk p4 e4"
      "appends chk p5 e5" "appends chk p6 e6" "appends chk p7 e7"
    and "consumes g1 e1 d1" "consumes g2 e2 d2" "consumes g3 e3 d3" "consumes g4 e4 d4"
      "consumes g5 e5 d5" "consumes g6 e6 d6" "consumes g7 e7 d7"
    and "appends chk putr er" and "consumes getr er rc"
    and "meth a1 a2 a3 a4 a5 a6 a7 r0 s = Inr (b, r, s')" and "0 \<le> b"
  shows "call_7 call1 okdone chk junk p1 p2 p3 p4 p5 p6 p7 getr proc a1 a2 a3 a4 a5 a6 a7 rc to s =
      Inr (b, r, s') \<or>
    (\<exists>c s1. call_7 call1 okdone chk junk p1 p2 p3 p4 p5 p6 p7 getr proc a1 a2 a3 a4 a5 a6 a7 rc to s =
      Inr (c, rc, s1) \<and> c \<in> F \<and> (s1 = s \<or> s1 = s'))"
proof -
  let ?h = "fn_7 okdone g1 g2 g3 g4 g5 g6 g7 putr d1 d2 d3 d4 d5 d6 d7 r0 meth"
  let ?call = "\<lambda>call1. call_7 call1 okdone chk junk p1 p2 p3 p4 p5 p6 p7 getr proc a1 a2 a3 a4 a5 a6 a7 rc to s"
  have s1: "rs_procs srv1 = (rs_procs srv)(sint proc \<mapsto> ?h)"
    by (rule registersE [OF assms(1,2), of ?h]) (use assms(3) in \<open>simp add: reg_7_def\<close>)
  have "\<forall>q \<in> fst ` set rest. rs_procs srv1 (sint q) = None" using assms(4,5) s1 by auto
  with register_all_table [OF assms(1), of rest srv1] assms(4,6)
  have "rs_procs srv2 (sint proc) = (case map_of rest proc of None \<Rightarrow> rs_procs srv1 (sint proc) | Some h \<Rightarrow> Some h)"
    by simp
  moreover have "map_of rest proc = None" using assms(4) by (simp add: map_of_eq_None_iff)
  ultimately have dv: "delivers F chk (\<lambda>_. call1 proc) ?h" using assms(7) s1 by (simp add: routes_def)
  have "?call (\<lambda>_. call1 proc) = Inr (b, r, s') \<or>
      (\<exists>c s1. ?call (\<lambda>_. call1 proc) = Inr (c, rc, s1) \<and> c \<in> F \<and> (s1 = s \<or> s1 = s'))"
    by (rule remote_call [where meth = meth and ?e1.0 = e1 and ?e2.0 = e2 and ?e3.0 = e3 and ?e4.0 = e4 and ?e5.0 = e5
        and ?e6.0 = e6 and ?e7.0 = e7 and er = er and ?d1.0 = d1 and ?d2.0 = d2 and ?d3.0 = d3 and ?d4.0 = d4 and ?d5.0 = d5
        and ?d6.0 = d6 and ?d7.0 = d7 and ?r0.0 = r0 and putr = putr and ?g1.0 = g1 and ?g2.0 = g2 and ?g3.0 = g3
        and ?g4.0 = g4 and ?g5.0 = g5 and ?g6.0 = g6 and ?g7.0 = g7])
      (fact dv assms)+
  moreover have "?call (\<lambda>_. call1 proc) = ?call call1" by (simp add: call_7_def call_m_proc)
  ultimately show ?thesis by simp
qed

theorem registered_remote_call_witness:
  "\<exists>srv1 srv2.
     reg_7 plain_reg1 le_done le_reader le_reader le_reader le_reader le_reader le_reader le_reader le_pack 0 0 0 0 0 0 0 0
       blank_rpcs 9 (\<lambda>a b c d e f g r s. Inr (0, a + b + c + d + e + f + g, s + 1)) = Inr srv1 \<and>
     register_all plain_reg1 srv1 [(10, \<lambda>args ret s. Inr (3, ret, 0))] = Inr srv2 \<and>
     call_7 (table_call1 False srv2) le_done False (\<lambda>_. 0) le_pack le_pack le_pack le_pack le_pack le_pack le_pack le_reader 9
       1 2 3 4 5 6 7 0 (to_make 10) (41 :: int) = Inr (0, 28, 42) \<and>
     call_7 (lossy_call1 False srv2) le_done False (\<lambda>_. 0) le_pack le_pack le_pack le_pack le_pack le_pack le_pack le_reader 9
       1 2 3 4 5 6 7 0 (to_make 0) (41 :: int) \<in> {Inr (0, 28, 42), Inr (- 1, 0, 41), Inr (- 1, 0, 42)}"
proof -
  let ?m = "\<lambda>a b c d e f g (r :: u32) (s :: int). Inr (0, a + b + c + d + e + f + g, s + 1)"
  let ?rest = "[(10, \<lambda>args ret s. Inr (3, ret, 0))] :: (u32 \<times> int handler_fn) list"
  let ?call = "\<lambda>call1 to. call_7 call1 le_done False (\<lambda>_. 0) le_pack le_pack le_pack le_pack le_pack le_pack le_pack le_reader 9
       1 2 3 4 5 6 7 0 (to_make to) 41"
  obtain srv1 where 1: "reg_7 plain_reg1 le_done le_reader le_reader le_reader le_reader le_reader le_reader le_reader
      le_pack 0 0 0 0 0 0 0 0 blank_rpcs 9 ?m = Inr srv1" by (simp add: reg_7_def plain_reg1_def)
  obtain srv2 where 2: "register_all plain_reg1 srv1 ?rest = Inr srv2" by (simp add: plain_reg1_def)
  have call: "?call c to = Inr (0, 28, 42) \<or> (\<exists>e s1. ?call c to = Inr (e, 0, s1) \<and> e \<in> F \<and> (s1 = 41 \<or> s1 = 42))"
    if "routes F False c srv2" "F \<subseteq> call1_failures" for c to F
    by (rule registered_remote_call [OF plain_registers _ 1 _ _ 2 that le_checks_done
        le_appends le_appends le_appends le_appends le_appends le_appends le_appends
        le_consumes le_consumes le_consumes le_consumes le_consumes le_consumes le_consumes le_appends le_consumes])
      (simp_all add: blank_rpcs_def)
  have "?call (table_call1 False srv2) 10 = Inr (0, 28, 42)" using call [OF table_routes [of "{}"]] by simp
  moreover have "{timeout_failure} \<subseteq> call1_failures" by (simp add: call1_failures_def)
  from call [OF lossy_routes this, of 0]
  have "?call (lossy_call1 False srv2) 0 \<in> {Inr (0, 28, 42), Inr (- 1, 0, 41), Inr (- 1, 0, 42)}"
    by (auto simp: timeout_failure_def)
  ultimately show ?thesis using 1 2 by blast
qed

end
