(* ===== verification/Test_Support.thy ===== *)
theory Test_Support
  imports Fs_Runs
begin

text \<open>
  What the three test programs share: random numbers, C strings, and the calls of the client as
  the tests see them. \<open>rand()\<close> is an oracle: a function that gives the result of each call; the
  theorems hold for every oracle. \<open>e\<close> arguments give a call its thread, clock and uninitialised
  memory.
\<close>

subsection \<open>Random letters and C strings\<close>

type_synonym rng = "nat \<Rightarrow> nat"

definition FILE_NUM :: nat where "FILE_NUM = 50"

definition LARGE_FILE_SIZE :: nat where "LARGE_FILE_SIZE = 512 * 64"

lemmas test_sizes [simp] = FILE_NUM_def LARGE_FILE_SIZE_def

text \<open>\<open>for (i = 0; i < n; i++) { rnum = rand() % 26; b[i] = 97 + rnum; }\<close>.\<close>

primrec fill_letters :: "rng \<Rightarrow> nat \<Rightarrow> buf \<Rightarrow> buf" where
  "fill_letters rnd 0 b = b"
| "fill_letters rnd (Suc n) b = (fill_letters rnd n b)(n := word_of_nat (97 + rnd n mod 26))"

text \<open>
  \<open>std::string(const char *)\<close> on an allocation of \<open>n\<close> bytes: the bytes before the first zero.
  Without a zero in the allocation the constructor reads past its end.
\<close>

definition string_of :: "nat \<Rightarrow> buf \<Rightarrow> fault + byte list" where
  "string_of n b =
     (let s = takeWhile (\<lambda>x. x \<noteq> 0) (map b [0..<n])
      in if length s < n then Inr s else Inl Array_bounds)"

text \<open>\<open>sprintf(b, "%d", k)\<close> for a non-negative \<open>k\<close> into an allocation of \<open>n\<close> bytes.\<close>

fun decimal :: "nat \<Rightarrow> byte list" where
  "decimal k = (if k < 10 then [word_of_nat (48 + k)] else decimal (k div 10) @ [word_of_nat (48 + k mod 10)])"

declare decimal.simps [simp del]

definition sprintf_d :: "nat \<Rightarrow> buf \<Rightarrow> nat \<Rightarrow> fault + buf" where
  "sprintf_d n b k =
     (let s = decimal k
      in if length s < n then Inr ((memcpy b 0 (\<lambda>i. s ! i) 0 (length s))(length s := 0)) else Inl Array_bounds)"

lemma fill_letters_in: "i < n \<Longrightarrow> fill_letters rnd n b i = word_of_nat (97 + rnd i mod 26)"
  by (induction n) (auto simp: less_Suc_eq)

lemma fill_letters_out: "n \<le> i \<Longrightarrow> fill_letters rnd n b i = b i"
  by (induction n) auto

lemma small_byte_nonzero: "0 < k \<Longrightarrow> k < 256 \<Longrightarrow> (word_of_nat k :: byte) \<noteq> 0"
  by (simp add: word_of_nat_eq_0_iff nat_dvd_not_less)

lemma letter_nonzero: "(word_of_nat (97 + r mod 26) :: byte) \<noteq> 0"
proof (rule small_byte_nonzero)
  show "97 + r mod 26 < 256" using mod_less_divisor [of 26 r] by linarith
qed simp

lemma string_of_terminated:
  assumes "k < n" and "b k = 0" and "\<And>i. i < k \<Longrightarrow> b i \<noteq> 0"
  shows "string_of n b = Inr (map b [0..<k])"
proof -
  have "[0..<n] = [0..<k] @ k # [Suc k..<n]"
    using assms(1) upt_add_eq_append [of 0 k "n - k"] by (simp add: upt_conv_Cons)
  then have "map b [0..<n] = map b [0..<k] @ 0 # map b [Suc k..<n]" using assms(2) by simp
  moreover have "takeWhile (\<lambda>x. x \<noteq> 0) (map b [0..<k] @ 0 # map b [Suc k..<n]) =
      map b [0..<k] @ takeWhile (\<lambda>x. x \<noteq> 0) (0 # map b [Suc k..<n])"
    by (rule takeWhile_append2) (use assms(3) in auto)
  ultimately have "takeWhile (\<lambda>x. x \<noteq> 0) (map b [0..<n]) = map b [0..<k]" by simp
  with assms(1) show ?thesis by (simp add: string_of_def)
qed

lemma string_of_unterminated:
  assumes "\<And>i. i < n \<Longrightarrow> b i \<noteq> 0"
  shows "string_of n b = Inl Array_bounds"
proof -
  have "takeWhile (\<lambda>x. x \<noteq> 0) (map b [0..<n]) = map b [0..<n]"
    using assms by (auto intro: takeWhile_eq_all_conv [THEN iffD2])
  then have "length (takeWhile (\<lambda>x. x \<noteq> 0) (map b [0..<n])) = n" by (metis length_map length_upt diff_zero)
  then show ?thesis by (simp add: string_of_def)
qed

text \<open>The string of the first \<open>k\<close> random letters.\<close>

definition letters :: "rng \<Rightarrow> nat \<Rightarrow> byte list" where
  "letters rnd k = map (\<lambda>i. word_of_nat (97 + rnd i mod 26)) [0..<k]"

lemma length_letters [simp]: "length (letters rnd k) = k"
  by (simp add: letters_def)

lemma string_of_letters:
  assumes "k < n" and "b k = 0" and "\<And>i. i < k \<Longrightarrow> b i = fill_letters rnd k b' i"
  shows "string_of n b = Inr (letters rnd k)"
proof -
  have at: "b i = word_of_nat (97 + rnd i mod 26)" if "i < k" for i using assms(3) that by (simp add: fill_letters_in)
  then have "string_of n b = Inr (map b [0..<k])"
    using assms(1,2) letter_nonzero by (intro string_of_terminated) auto
  with at show ?thesis by (simp add: letters_def)
qed

lemma decimal_nonzero: "0 \<notin> set (decimal k)"
proof (induction k rule: decimal.induct)
  case (1 k)
  have "(word_of_nat (48 + k mod 10) :: byte) \<noteq> 0"
    using mod_less_divisor [of 10 k] by (intro small_byte_nonzero) linarith+
  moreover have "k < 10 \<Longrightarrow> (word_of_nat (48 + k) :: byte) \<noteq> 0" by (intro small_byte_nonzero) simp_all
  ultimately show ?case using 1 by (subst decimal.simps) auto
qed

lemma decimal_length: "k < 10 ^ n \<Longrightarrow> 0 < n \<Longrightarrow> length (decimal k) \<le> n"
proof (induction n arbitrary: k)
  case (Suc n)
  show ?case
  proof (cases "k < 10")
    case True
    then show ?thesis by (subst decimal.simps) simp
  next
    case False
    with Suc.prems have "0 < n" by (cases n) auto
    moreover have "k div 10 < 10 ^ n" using Suc.prems(1) by (simp add: less_mult_imp_div_less)
    ultimately show ?thesis using Suc.IH [of "k div 10"] False by (subst decimal.simps) simp
  qed
qed simp

lemma sprintf_string:
  assumes "length (decimal k) < n"
  shows "rbind (sprintf_d n b k) (string_of n) = Inr (decimal k)"
proof -
  let ?s = "decimal k" and ?b = "(memcpy b 0 (\<lambda>i. decimal k ! i) 0 (length (decimal k)))(length (decimal k) := 0)"
  have at: "?b i = ?s ! i" if "i < length ?s" for i using that by (simp add: memcpy_def)
  then have "?b i \<noteq> 0" if "i < length ?s" for i using that decimal_nonzero [of k] nth_mem by metis
  then have "string_of n ?b = Inr (map ?b [0..<length ?s])"
    using assms by (intro string_of_terminated) auto
  moreover have "map ?b [0..<length ?s] = ?s" using at by (intro nth_equalityI) auto
  ultimately show ?thesis using assms by (simp add: sprintf_d_def Let_def)
qed

subsection \<open>The calls of the client\<close>

text \<open>What a clean call returns, for the calls as the tests write them.\<close>

lemma client_create_clean:
  fixes e :: call_env
  assumes "client_inv n c" and "n < 2 ^ 31" and "clean (abs_fs (client_bl c)) (Create ty)"
  obtains fid c' where "client_create (e_stk e) (e_times e) c ty = Inr (OK, fid, c')"
    and "unat fid = a_free (abs_fs (client_bl c))" and "client_inv (Suc n) c'"
    and "abs_fs (client_bl c') = (abs_fs (client_bl c))(a_free (abs_fs (client_bl c)) \<mapsto> (ucast ty, []))"
  using exec_refines [OF assms, of e] by (auto simp: rbind_Inr_iff)

lemma client_put_clean:
  fixes e :: call_env
  assumes "client_inv n c" and "n < 2 ^ 31" and "clean (abs_fs (client_bl c)) (Put fid s)"
  obtains c' where "client_put (e_stk e) (e_tid e) c fid s = Inr (OK, c')" and "client_inv (Suc n) c'"
    and "abs_fs (client_bl c') = snd (a_step (abs_fs (client_bl c)) (Put fid s))"
  using exec_refines [OF assms, of e] by (auto simp: rbind_Inr_iff)

lemma client_get_clean:
  fixes e :: call_env
  assumes "client_inv n c" and "n < 2 ^ 31" and "abs_fs (client_bl c) (unat (inum_of fid)) = Some (ty, s)"
  obtains c' where "client_get (e_stk e) (e_tid e) (e_now e) c fid = Inr (OK, s, c')"
    and "client_inv (Suc n) c'" and "abs_fs (client_bl c') = abs_fs (client_bl c)"
proof -
  have "clean (abs_fs (client_bl c)) (Get fid)" using abs_fs_Some(1) [OF assms(3)] by (simp add: in_use_def)
  from exec_refines [OF assms(1,2) this, of e] assms(3) that show thesis by (auto simp: rbind_Inr_iff)
qed

lemma client_getattr_type:
  fixes e :: call_env
  assumes "client_inv n c"
  obtains a where "client_getattr (e_stk e) c fid = Inr (OK, a)"
    and "a_type a = (case abs_fs (client_bl c) (unat (inum_of fid)) of None \<Rightarrow> 0 | Some (ty, _) \<Rightarrow> scast ty)"
  using exec_getattr [OF assms, of e fid] by (auto simp: rbind_Inr_iff split: option.splits)

lemma client_remove_clean:
  fixes e :: call_env
  assumes "client_inv n c" and "n < 2 ^ 31" and "clean (abs_fs (client_bl c)) (Remove fid)"
  obtains c' where "client_remove (e_stk e) c fid = Inr (OK, c')" and "client_inv (Suc n) c'"
    and "abs_fs (client_bl c') = (abs_fs (client_bl c))(unat (inum_of fid) := None)"
  using exec_refines [OF assms, of e] by (auto simp: rbind_Inr_iff)

lemma client_inv_mono: "client_inv n c \<Longrightarrow> n \<le> m \<Longrightarrow> client_inv m c"
  unfolding client_inv_def locks_ok_def by fastforce

lemma inum_of_nat: "k < 2 ^ 31 \<Longrightarrow> unat (inum_of (word_of_nat k)) = k"
  by (simp add: unat_inum_of unat_of_nat take_bit_nat_eq_self)

end
