(* ===== verification/Tester_Part1.thy ===== *)
theory Tester_Part1
  imports Test_Support
begin

text \<open>
  \<open>part1_tester.cc\<close>: the four tests of the client and the program that runs them. A test returns
  its result code, the score and the client; \<open>E k\<close> is the environment of the \<open>k\<close>-th call of a
  test. The first test and both loops of the second one succeed for every sequence of random
  numbers; \<open>test_indirect\<close>, which comes next, makes a \<open>std::string\<close> from an array without a
  terminating zero. The removal test comes last in the program and is modelled but not reached.
\<close>

subsection \<open>Creating files\<close>

text \<open>One iteration, for the type the random number picked.\<close>

definition create_one :: "call_env \<Rightarrow> call_env \<Rightarrow> ftype \<Rightarrow> fs_client \<Rightarrow> fault + (int \<times> fs_client)" where
  "create_one e e' ty c =
     rbind (client_create (e_stk e) (e_times e) c (ftype_code ty)) (\<lambda>(_, id, c).
       if (ucast id :: u32) = 0 then Inr (1, c)
       else rbind (client_getattr (e_stk e') c id) (\<lambda>(st, a).
         Inr (if st \<noteq> OK then 2 else if a_type a \<noteq> ftype_code ty then 3 else 0, c)))"

definition pick_type :: "nat \<Rightarrow> ftype" where
  "pick_type r = (if r mod 10 < 3 then T_DIR else T_FILE)"

function create_loop :: "rng \<Rightarrow> (nat \<Rightarrow> call_env) \<Rightarrow> nat \<Rightarrow> fs_client \<Rightarrow> fault + (int \<times> fs_client)" where
  "create_loop rnd E i c =
     (if i < FILE_NUM then
        rbind (create_one (E (2 * i)) (E (2 * i + 1)) (pick_type (rnd i)) c) (\<lambda>(rc, c).
          if rc \<noteq> 0 then Inr (rc, c) else create_loop rnd E (i + 1) c)
      else Inr (0, c))"
  by pat_completeness auto
termination
  by (relation "measure (\<lambda>(rnd, E, i, c). FILE_NUM - i)") auto

declare create_loop.simps [simp del]

definition test_create_and_getattr ::
    "rng \<Rightarrow> (nat \<Rightarrow> call_env) \<Rightarrow> int \<Rightarrow> fs_client \<Rightarrow> fault + (int \<times> int \<times> fs_client)" where
  "test_create_and_getattr rnd E score c =
     rbind (create_loop rnd E 0 c) (\<lambda>(rc, c).
       Inr (if rc \<noteq> 0 then (rc, score, c) else (0, score + 10, c)))"

subsection \<open>Large files\<close>

text \<open>
  \<open>m1\<close> and \<open>m2\<close> are what the two allocations of \<open>LARGE_FILE_SIZE\<close> bytes hold at first.
\<close>

definition test_indirect ::
    "rng \<Rightarrow> rng \<Rightarrow> buf \<Rightarrow> buf \<Rightarrow> (nat \<Rightarrow> call_env) \<Rightarrow> int \<Rightarrow> fs_client \<Rightarrow> fault + (int \<times> int \<times> fs_client)" where
  "test_indirect rnd1 rnd2 m1 m2 E score c =
     rbind (client_create (e_stk (E 0)) (e_times (E 0)) c (ftype_code T_FILE)) (\<lambda>(_, id1, c).
     rbind (string_of LARGE_FILE_SIZE (fill_letters rnd1 LARGE_FILE_SIZE m1)) (\<lambda>buf.
     rbind (client_put (e_stk (E 1)) (e_tid (E 1)) c id1 buf) (\<lambda>(st, c).
     if st \<noteq> OK then Inr (1, score, c) else
     rbind (client_create (e_stk (E 2)) (e_times (E 2)) c (ftype_code T_FILE)) (\<lambda>(_, id2, c).
     rbind (string_of LARGE_FILE_SIZE (fill_letters rnd2 LARGE_FILE_SIZE m2)) (\<lambda>buf2.
     rbind (client_put (e_stk (E 3)) (e_tid (E 3)) c id2 buf2) (\<lambda>(st, c).
     if st \<noteq> OK then Inr (2, score, c) else
     rbind (client_get (e_stk (E 4)) (e_tid (E 4)) (e_now (E 4)) c id1) (\<lambda>(st, buf_2, c).
     if st \<noteq> OK then Inr (3, score, c)
     else if buf \<noteq> buf_2 then Inr (4, score, c) else
     rbind (client_get (e_stk (E 5)) (e_tid (E 5)) (e_now (E 5)) c id2) (\<lambda>(st, buf2_2, c).
     if st \<noteq> OK then Inr (5, score, c)
     else if buf2 \<noteq> buf2_2 then Inr (6, score, c)
     else Inr (0, score + 10, c)))))))))"

subsection \<open>Small files\<close>

text \<open>\<open>(fs_protocol::fsid_t)(i+2)\<close>.\<close>

definition file_id :: "nat \<Rightarrow> fsid_t" where
  "file_id i = word_of_nat (i + 2)"

text \<open>\<open>memset(temp, 0, 10); sprintf(temp, "%d", k); std::string buf(temp);\<close>.\<close>

definition print_number :: "buf \<Rightarrow> nat \<Rightarrow> fault + (byte list \<times> buf)" where
  "print_number temp k =
     rbind (sprintf_d 10 (memcpy temp 0 (\<lambda>_. 0) 0 10) k) (\<lambda>temp.
     rbind (string_of 10 temp) (\<lambda>s. Inr (s, temp)))"

text \<open>\<open>ct\<close> is the array \<open>contents\<close> and \<open>temp\<close> the ten bytes that \<open>temp\<close> points to.\<close>

function put_loop ::
    "rng \<Rightarrow> (nat \<Rightarrow> call_env) \<Rightarrow> nat \<Rightarrow> (nat \<Rightarrow> nat) \<Rightarrow> buf \<Rightarrow> fs_client \<Rightarrow>
     fault + (int \<times> (nat \<Rightarrow> nat) \<times> buf \<times> fs_client)" where
  "put_loop rnd E i ct temp c =
     (if i < FILE_NUM then
        let id = file_id i in
        rbind (client_getattr (e_stk (E (2 * i))) c id) (\<lambda>(st, a).
          if st \<noteq> OK then Inr (1, ct, temp, c)
          else if a_type a = ftype_code T_FILE then
            let rnum = rnd i mod 10000 in
            rbind (print_number temp rnum) (\<lambda>(buf, temp).
            rbind (client_put (e_stk (E (2 * i + 1))) (e_tid (E (2 * i + 1))) c id buf) (\<lambda>(st, c).
              if st \<noteq> OK then Inr (2, ct, temp, c)
              else put_loop rnd E (i + 1) (ct(i := rnum)) temp c))
          else put_loop rnd E (i + 1) ct temp c)
      else Inr (0, ct, temp, c))"
  by pat_completeness auto
termination
  by (relation "measure (\<lambda>(rnd, E, i, ct, temp, c). FILE_NUM - i)") auto

declare put_loop.simps [simp del]

function get_loop ::
    "(nat \<Rightarrow> call_env) \<Rightarrow> nat \<Rightarrow> (nat \<Rightarrow> nat) \<Rightarrow> buf \<Rightarrow> fs_client \<Rightarrow> fault + (int \<times> fs_client)" where
  "get_loop E i ct temp c =
     (if i < FILE_NUM then
        let id = file_id i in
        rbind (client_getattr (e_stk (E (2 * i))) c id) (\<lambda>(st, a).
          if st \<noteq> OK then Inr (3, c)
          else if a_type a = ftype_code T_FILE then
            rbind (client_get (e_stk (E (2 * i + 1))) (e_tid (E (2 * i + 1))) (e_now (E (2 * i + 1))) c id)
              (\<lambda>(st, buf, c).
              if st \<noteq> OK then Inr (4, c)
              else rbind (print_number temp (ct i)) (\<lambda>(buf2, temp).
                if buf \<noteq> buf2 then Inr (5, c) else get_loop E (i + 1) ct temp c))
          else get_loop E (i + 1) ct temp c)
      else Inr (0, c))"
  by pat_completeness auto
termination
  by (relation "measure (\<lambda>(E, i, ct, temp, c). FILE_NUM - i)") auto

declare get_loop.simps [simp del]

text \<open>
  What a run of the program reads from outside: the random numbers of each test, the
  environments of the calls, and the memory the program gets uninitialised. \<open>test_indirect\<close>
  is called without a look at its result.
\<close>

record test_input =
  rnd_create :: rng
  rnd_put :: rng
  rnd_large1 :: rng
  rnd_large2 :: rng
  mem_large1 :: buf
  mem_large2 :: buf
  mem_temp :: buf
  mem_contents :: "nat \<Rightarrow> nat"
  env_create :: "nat \<Rightarrow> call_env"
  env_put :: "nat \<Rightarrow> call_env"
  env_get :: "nat \<Rightarrow> call_env"
  env_large :: "nat \<Rightarrow> call_env"
  env_remove :: "nat \<Rightarrow> call_env"

definition test_put_and_get :: "test_input \<Rightarrow> int \<Rightarrow> fs_client \<Rightarrow> fault + (int \<times> int \<times> fs_client)" where
  "test_put_and_get inp score c =
     rbind (put_loop (rnd_put inp) (env_put inp) 0 (mem_contents inp) (mem_temp inp) c) (\<lambda>(rc, ct, temp, c).
     if rc \<noteq> 0 then Inr (rc, score, c) else
     rbind (get_loop (env_get inp) 0 ct temp c) (\<lambda>(rc, c).
     if rc \<noteq> 0 then Inr (rc, score, c) else
     rbind (test_indirect (rnd_large1 inp) (rnd_large2 inp) (mem_large1 inp) (mem_large2 inp)
              (env_large inp) (score + 10) c) (\<lambda>(_, score, c).
     Inr (0, score, c))))"

subsection \<open>Removing files\<close>

function remove_loop :: "(nat \<Rightarrow> call_env) \<Rightarrow> nat \<Rightarrow> fs_client \<Rightarrow> fault + (int \<times> fs_client)" where
  "remove_loop E i c =
     (if i < FILE_NUM then
        let id = file_id i in
        rbind (client_remove (e_stk (E (2 * i))) c id) (\<lambda>(st, c).
          if st \<noteq> OK then Inr (1, c)
          else rbind (client_getattr (e_stk (E (2 * i + 1))) c id) (\<lambda>(_, a).
            if a_type a \<noteq> 0 then Inr (2, c) else remove_loop E (i + 1) c))
      else Inr (0, c))"
  by pat_completeness auto
termination
  by (relation "measure (\<lambda>(E, i, c). FILE_NUM - i)") auto

declare remove_loop.simps [simp del]

definition test_remove :: "(nat \<Rightarrow> call_env) \<Rightarrow> int \<Rightarrow> fs_client \<Rightarrow> fault + (int \<times> int \<times> fs_client)" where
  "test_remove E score c =
     rbind (remove_loop E 0 c) (\<lambda>(rc, c).
       Inr (if rc \<noteq> 0 then (rc, score, c) else (0, score + 10, c)))"

subsection \<open>The program\<close>

text \<open>The exit code and the score that is printed; \<open>None\<close> for the usage message.\<close>

definition part1_main ::
    "stack \<Rightarrow> u64 \<times> u64 \<times> u64 \<Rightarrow> bool \<Rightarrow> test_input \<Rightarrow> int \<Rightarrow> fault + (int \<times> int option)" where
  "part1_main stk ts m0 inp argc =
     (if argc \<noteq> 1 then Inr (1, None) else
      rbind (new_fs_client stk ts m0) (\<lambda>c.
      rbind (test_create_and_getattr (rnd_create inp) (env_create inp) 0 c) (\<lambda>(rc, score, c).
      if rc \<noteq> 0 then Inr (0, Some score) else
      rbind (test_put_and_get inp score c) (\<lambda>(rc, score, c).
      if rc \<noteq> 0 then Inr (0, Some score) else
      rbind (test_remove (env_remove inp) score c) (\<lambda>(rc, score, c).
      Inr (0, Some score))))))"

subsection \<open>The first test\<close>

text \<open>The table after \<open>i\<close> files were created: the root directory and files 1 to \<open>i\<close>.\<close>

definition created :: "rng \<Rightarrow> nat \<Rightarrow> afs" where
  "created rnd i = (\<lambda>j. if j = 0 then Some (1, [])
     else if j \<le> i then Some (ucast (ftype_code (pick_type (rnd (j - 1)))), []) else None)"

lemma created_free: "i < 1023 \<Longrightarrow> a_free (created rnd i) = Suc i"
  by (rule a_free_eqI) (auto simp: created_def)

lemma created_next: "(created rnd i)(Suc i \<mapsto> (ucast (ftype_code (pick_type (rnd i))), [])) = created rnd (Suc i)"
  by (auto simp: created_def fun_eq_iff)

lemma scast_ftype: "scast (ucast (ftype_code ty) :: u16) = ftype_code ty" "(ucast (ftype_code ty) :: u16) \<noteq> 0"
  by (cases ty; simp)+

lemma create_one_ok:
  assumes "client_inv n c" and "n < 2 ^ 31" and "abs_fs (client_bl c) = created rnd i" and "i < 1000"
  shows "\<exists>c'. create_one e e' (pick_type (rnd i)) c = Inr (0, c') \<and> client_inv (Suc n) c' \<and>
    abs_fs (client_bl c') = created rnd (Suc i)"
proof -
  let ?ty = "ftype_code (pick_type (rnd i))"
  have free: "a_free (abs_fs (client_bl c)) = Suc i" using created_free assms(3,4) by simp
  have "clean (abs_fs (client_bl c)) (Create ?ty)"
    using assms(3,4) scast_ftype(2) by (auto simp: created_def intro!: exI [of _ "Suc i"])
  then obtain fid c' where c: "client_create (e_stk e) (e_times e) c ?ty = Inr (OK, fid, c')"
      "unat fid = Suc i" "client_inv (Suc n) c'" "abs_fs (client_bl c') = created rnd (Suc i)"
    using client_create_clean [OF assms(1,2), of ?ty e] free assms(3) created_next by metis
  have "unat (ucast fid :: u32) = Suc i" using c(2) assms(4) by (simp add: unsigned_ucast_eq take_bit_nat_eq_self)
  then have nz: "(ucast fid :: u32) \<noteq> 0" by auto
  have inum: "unat (inum_of fid) = Suc i" using c(2) assms(4) by (simp add: unat_inum_of)
  obtain a where a: "client_getattr (e_stk e') c' fid = Inr (OK, a)" "a_type a = ?ty"
    by (rule client_getattr_type [OF c(3), of e' fid])
      (use c(4) inum scast_ftype(1) in \<open>simp add: created_def\<close>)
  from c a nz show ?thesis by (simp add: create_one_def)
qed

lemma create_loop_ok:
  assumes "client_inv n c" and "n + 50 \<le> 2 ^ 31 + i" and "abs_fs (client_bl c) = created rnd i" and "i \<le> 50"
  shows "\<exists>c'. create_loop rnd E i c = Inr (0, c') \<and> client_inv (n + (50 - i)) c' \<and>
    abs_fs (client_bl c') = created rnd 50"
  using assms
proof (induction "50 - i" arbitrary: i n c)
  case 0
  then show ?case by (subst create_loop.simps) simp
next
  case (Suc k)
  then have i: "i < 50" by simp
  obtain c1 where c1: "create_one (E (2 * i)) (E (2 * i + 1)) (pick_type (rnd i)) c = Inr (0, c1)"
      "client_inv (Suc n) c1" "abs_fs (client_bl c1) = created rnd (Suc i)"
    using create_one_ok [OF Suc.prems(1) _ Suc.prems(3)] Suc.prems(2) i by force
  have "\<exists>c'. create_loop rnd E (Suc i) c1 = Inr (0, c') \<and> client_inv (Suc n + (50 - Suc i)) c' \<and>
      abs_fs (client_bl c') = created rnd 50"
    using Suc.hyps(2) Suc.prems(2) i by (intro Suc.hyps(1) c1) auto
  moreover have "Suc n + (50 - Suc i) = n + (50 - i)" using i by simp
  ultimately show ?case using c1(1) i by (subst create_loop.simps) (auto simp: Suc_diff_Suc)
qed

lemma create_test_ok:
  assumes "client_inv n c" and "n + 50 \<le> 2 ^ 31" and "abs_fs (client_bl c) = [0 \<mapsto> (1, [])]"
  shows "\<exists>c'. test_create_and_getattr rnd E score c = Inr (0, score + 10, c') \<and>
    client_inv (n + 50) c' \<and> abs_fs (client_bl c') = created rnd 50"
proof -
  have "abs_fs (client_bl c) = created rnd 0" using assms(3) by (auto simp: created_def fun_eq_iff)
  with create_loop_ok [OF assms(1) _ this, of E] assms(2) show ?thesis
    by (auto simp: test_create_and_getattr_def)
qed

subsection \<open>The second test\<close>

definition is_file :: "afs \<Rightarrow> nat \<Rightarrow> bool" where
  "is_file a k \<longleftrightarrow> (\<exists>s. a k = Some (2, s))"

definition small_table :: "afs \<Rightarrow> bool" where
  "small_table a \<longleftrightarrow> (\<forall>k ty s. a k = Some (ty, s) \<longrightarrow> length s \<le> 4)"

lemma inum_file_id: "i < 1000 \<Longrightarrow> unat (inum_of (file_id i)) = i + 2"
  unfolding file_id_def by (rule inum_of_nat) simp

lemma type_is_file:
  "(case a k of None \<Rightarrow> 0 | Some (ty, _) \<Rightarrow> scast (ty :: u16)) = (2 :: u32) \<longleftrightarrow> is_file a k"
proof -
  have "(scast (ty :: u16) :: u32) = 2 \<longleftrightarrow> ty = 2" for ty using scast16_inject [of ty 2] by simp
  then show ?thesis by (auto simp: is_file_def split: option.splits)
qed

lemma small_table_blocks: "small_table a \<Longrightarrow> a_blocks a \<le> 1024"
proof -
  assume small: "small_table a"
  have "(case a j of None \<Rightarrow> 0 | Some (_, s) \<Rightarrow> blocks_needed (length s)) \<le> 1" for j
    using small nblk_le [of _ 1] by (force simp: small_table_def blocks_needed_def split: option.splits)
  then have "a_blocks a \<le> (\<Sum>i<1024::nat. 1)" unfolding a_blocks_def by (intro sum_mono)
  then show ?thesis by simp
qed

lemma small_table_put: "small_table a \<Longrightarrow> length s \<le> 4 \<Longrightarrow> small_table (a(k \<mapsto> (ty, s)))"
  by (auto simp: small_table_def)

lemma put_small_clean:
  assumes "small_table a" and "a k = Some (ty, old)" and "k < 1024"
    and k: "unat (inum_of fid) = k" and "0 < length s" and "length s \<le> 4"
  shows "clean a (Put fid s)" and "snd (a_step a (Put fid s)) = a(k \<mapsto> (ty, s))"
proof -
  have old: "length old \<le> 4" using assms(1,2) unfolding small_table_def by blast
  have "nblk (length old) \<le> 1" "nblk (length s) \<le> 1" using old assms(6) by (simp_all add: nblk_le)
  moreover have "0 < nblk (length s)" using assms(5) by (simp add: nblk_less_iff)
  ultimately have "put_ok (length old) (length s)" using old assms(6) by (simp add: put_ok_def)
  moreover have "a_blocks (a(k \<mapsto> (ty, s))) \<le> 32645"
    using small_table_blocks [OF small_table_put [OF assms(1,6)], of k ty] by simp
  ultimately show "clean a (Put fid s)" "snd (a_step a (Put fid s)) = a(k \<mapsto> (ty, s))"
    using assms(2,3,6) k by simp_all
qed

lemma print_number_ok:
  assumes "k < 10000"
  shows "\<exists>temp'. print_number temp k = Inr (decimal k, temp')"
    and "0 < length (decimal k)" and "length (decimal k) \<le> 4"
proof -
  show len: "length (decimal k) \<le> 4" using decimal_length [of k 4] assms by simp
  show "0 < length (decimal k)" by (subst decimal.simps) simp
  have "rbind (sprintf_d 10 (memcpy temp 0 (\<lambda>_. 0) 0 10) k) (string_of 10) = Inr (decimal k)"
    using sprintf_string [of k 10] len by simp
  then show "\<exists>temp'. print_number temp k = Inr (decimal k, temp')"
    by (auto simp: print_number_def rbind_Inr_iff)
qed

text \<open>
  The table after the first loop, from its \<open>i\<close>-th iteration on: every regular file among the ids
  holds the number that was drawn for it, and every other entry is as it was.
\<close>

definition numbered :: "rng \<Rightarrow> nat \<Rightarrow> afs \<Rightarrow> afs" where
  "numbered rnd i a = (\<lambda>k. if i + 2 \<le> k \<and> k < 52 \<and> is_file a k
     then Some (2, decimal (rnd (k - 2) mod 10000)) else a k)"

lemma numbered_is_file [simp]: "is_file (numbered rnd i a) k = is_file a k"
  by (auto simp: numbered_def is_file_def)

lemma numbered_last: "50 \<le> i \<Longrightarrow> numbered rnd i a = a"
  by (auto simp: numbered_def fun_eq_iff)

lemma numbered_step:
  assumes "is_file a (i + 2)" and "i < 50"
  shows "numbered rnd (Suc i) (a(i + 2 \<mapsto> (2, decimal (rnd i mod 10000)))) = numbered rnd i a"
proof
  fix k
  have fl: "is_file (a(i + 2 \<mapsto> (2, decimal (rnd i mod 10000)))) k = is_file a k"
    using assms(1) by (simp add: is_file_def)
  show "numbered rnd (Suc i) (a(i + 2 \<mapsto> (2, decimal (rnd i mod 10000)))) k = numbered rnd i a k"
    using assms fl by (cases "k = i + 2") (auto simp: numbered_def)
qed

lemma numbered_skip:
  assumes "\<not> is_file a (i + 2)"
  shows "numbered rnd (Suc i) a = numbered rnd i a"
proof
  fix k show "numbered rnd (Suc i) a k = numbered rnd i a k"
    using assms by (cases "k = i + 2") (auto simp: numbered_def)
qed

lemma put_loop_ok:
  assumes "client_inv n c" and "n + 50 \<le> 2 ^ 31 + i" and "small_table (abs_fs (client_bl c))" and "i \<le> 50"
  shows "\<exists>ct' temp' c'. put_loop rnd E i ct temp c = Inr (0, ct', temp', c') \<and>
    client_inv (n + (50 - i)) c' \<and> small_table (abs_fs (client_bl c')) \<and>
    (\<forall>j<i. ct' j = ct j) \<and> abs_fs (client_bl c') = numbered rnd i (abs_fs (client_bl c)) \<and>
    (\<forall>j. i \<le> j \<longrightarrow> j < 50 \<longrightarrow> is_file (abs_fs (client_bl c)) (j + 2) \<longrightarrow> ct' j = rnd j mod 10000)"
  using assms
proof (induction "50 - i" arbitrary: i n ct temp c)
  case 0
  then show ?case by (subst put_loop.simps) (auto simp: numbered_last)
next
  case (Suc m)
  let ?a = "abs_fs (client_bl c)" and ?id = "file_id i"
  have i: "i < 50" and n: "n < 2 ^ 31" and sum: "Suc n + (50 - Suc i) = n + (50 - i)"
    using Suc.hyps(2) Suc.prems(2) by simp_all
  have id: "unat (inum_of ?id) = i + 2" using i by (intro inum_file_id) simp
  obtain at where at: "client_getattr (e_stk (E (2 * i))) c ?id = Inr (OK, at)"
      "a_type at = 2 \<longleftrightarrow> is_file ?a (i + 2)"
    by (rule client_getattr_type [OF Suc.prems(1), of "E (2 * i)" ?id]) (simp add: id type_is_file)
  show ?case
  proof (cases "is_file ?a (i + 2)")
    case False
    have "\<exists>ct' temp' c'. put_loop rnd E (Suc i) ct temp c = Inr (0, ct', temp', c') \<and>
        client_inv (Suc n + (50 - Suc i)) c' \<and> small_table (abs_fs (client_bl c')) \<and>
        (\<forall>j<Suc i. ct' j = ct j) \<and> abs_fs (client_bl c') = numbered rnd (Suc i) ?a \<and>
        (\<forall>j. Suc i \<le> j \<longrightarrow> j < 50 \<longrightarrow> is_file ?a (j + 2) \<longrightarrow> ct' j = rnd j mod 10000)"
      using Suc.hyps(2) Suc.prems i by (intro Suc.hyps(1) client_inv_mono [OF Suc.prems(1)]) auto
    then obtain ct' temp' c' where c': "put_loop rnd E (Suc i) ct temp c = Inr (0, ct', temp', c')"
        "client_inv (n + (50 - i)) c'" "small_table (abs_fs (client_bl c'))" "\<forall>j<Suc i. ct' j = ct j"
        "abs_fs (client_bl c') = numbered rnd (Suc i) ?a"
        "\<forall>j. Suc i \<le> j \<longrightarrow> j < 50 \<longrightarrow> is_file ?a (j + 2) \<longrightarrow> ct' j = rnd j mod 10000"
      unfolding sum by blast
    have "\<forall>j. i \<le> j \<longrightarrow> j < 50 \<longrightarrow> is_file ?a (j + 2) \<longrightarrow> ct' j = rnd j mod 10000"
      using c'(6) False by (metis Suc_leI le_neq_implies_less)
    with c' numbered_skip [OF False] at False i show ?thesis by (subst put_loop.simps) simp
  next
    case True
    let ?r = "rnd i mod 10000"
    have r: "?r < 10000" by simp
    note dec = print_number_ok [OF r]
    obtain temp1 where pr: "print_number temp ?r = Inr (decimal ?r, temp1)" using dec(1) by blast
    obtain old where old: "?a (i + 2) = Some (2, old)" using True by (auto simp: is_file_def)
    note put = put_small_clean [OF Suc.prems(3) old _ id dec(2,3)]
    obtain c1 where c1: "client_put (e_stk (E (2 * i + 1))) (e_tid (E (2 * i + 1))) c ?id (decimal ?r) = Inr (OK, c1)"
        "client_inv (Suc n) c1" "abs_fs (client_bl c1) = ?a(i + 2 \<mapsto> (2, decimal ?r))"
      using client_put_clean [OF Suc.prems(1) n put(1), of "E (2 * i + 1)"] put(2) i by auto
    have fl: "is_file (abs_fs (client_bl c1)) k = is_file ?a k" for k using c1(3) True by (simp add: is_file_def)
    have "\<exists>ct' temp' c'. put_loop rnd E (Suc i) (ct(i := ?r)) temp1 c1 = Inr (0, ct', temp', c') \<and>
        client_inv (Suc n + (50 - Suc i)) c' \<and> small_table (abs_fs (client_bl c')) \<and>
        (\<forall>j<Suc i. ct' j = (ct(i := ?r)) j) \<and> abs_fs (client_bl c') = numbered rnd (Suc i) (abs_fs (client_bl c1)) \<and>
        (\<forall>j. Suc i \<le> j \<longrightarrow> j < 50 \<longrightarrow> is_file (abs_fs (client_bl c1)) (j + 2) \<longrightarrow> ct' j = rnd j mod 10000)"
      using Suc.hyps(2) Suc.prems(2,3) i c1 small_table_put [OF Suc.prems(3) dec(3)]
      by (intro Suc.hyps(1)) auto
    then obtain ct' temp' c' where c': "put_loop rnd E (Suc i) (ct(i := ?r)) temp1 c1 = Inr (0, ct', temp', c')"
        "client_inv (n + (50 - i)) c'" "small_table (abs_fs (client_bl c'))" "\<forall>j<Suc i. ct' j = (ct(i := ?r)) j"
        "abs_fs (client_bl c') = numbered rnd (Suc i) (abs_fs (client_bl c1))"
        "\<forall>j. Suc i \<le> j \<longrightarrow> j < 50 \<longrightarrow> is_file ?a (j + 2) \<longrightarrow> ct' j = rnd j mod 10000"
      unfolding sum fl by blast
    have "\<forall>j. i \<le> j \<longrightarrow> j < 50 \<longrightarrow> is_file ?a (j + 2) \<longrightarrow> ct' j = rnd j mod 10000"
      using c'(4,6) by (metis Suc_leI fun_upd_same le_neq_implies_less lessI)
    with c' numbered_step [OF True i, of rnd] c1(3) at True i pr c1(1) show ?thesis
      by (subst put_loop.simps) simp
  qed
qed

lemma get_loop_ok:
  assumes "client_inv n c" and "n + 50 \<le> 2 ^ 31 + i" and "i \<le> 50"
    and "\<forall>j. i \<le> j \<longrightarrow> j < 50 \<longrightarrow> is_file (abs_fs (client_bl c)) (j + 2) \<longrightarrow>
      ct j < 10000 \<and> abs_fs (client_bl c) (j + 2) = Some (2, decimal (ct j))"
  shows "\<exists>c'. get_loop E i ct temp c = Inr (0, c') \<and> client_inv (n + (50 - i)) c' \<and>
    abs_fs (client_bl c') = abs_fs (client_bl c)"
  using assms
proof (induction "50 - i" arbitrary: i n temp c)
  case 0
  then show ?case by (subst get_loop.simps) simp
next
  case (Suc m)
  let ?a = "abs_fs (client_bl c)" and ?id = "file_id i"
  have i: "i < 50" and n: "n < 2 ^ 31" and sum: "Suc n + (50 - Suc i) = n + (50 - i)"
    using Suc.hyps(2) Suc.prems(2) by simp_all
  have id: "unat (inum_of ?id) = i + 2" using i by (intro inum_file_id) simp
  obtain at where at: "client_getattr (e_stk (E (2 * i))) c ?id = Inr (OK, at)"
      "a_type at = 2 \<longleftrightarrow> is_file ?a (i + 2)"
    by (rule client_getattr_type [OF Suc.prems(1), of "E (2 * i)" ?id]) (simp add: id type_is_file)
  have next_ok: "\<exists>c'. get_loop E (Suc i) ct temp' c1 = Inr (0, c') \<and> client_inv (n + (50 - i)) c' \<and>
      abs_fs (client_bl c') = ?a" if "client_inv (Suc n) c1" "abs_fs (client_bl c1) = ?a" for c1 temp'
    unfolding sum [symmetric] that(2) [symmetric]
    using Suc.hyps(2) Suc.prems(2,4) i that by (intro Suc.hyps(1)) auto
  show ?case
  proof (cases "is_file ?a (i + 2)")
    case False
    with next_ok [OF client_inv_mono [OF Suc.prems(1)]] at i show ?thesis by (subst get_loop.simps) simp
  next
    case True
    then have ct: "ct i < 10000" "?a (i + 2) = Some (2, decimal (ct i))" using Suc.prems(4) i by auto
    obtain temp1 where pr: "print_number temp (ct i) = Inr (decimal (ct i), temp1)"
      using print_number_ok(1) [OF ct(1)] by blast
    obtain c1 where c1: "client_get (e_stk (E (2 * i + 1))) (e_tid (E (2 * i + 1))) (e_now (E (2 * i + 1))) c ?id =
          Inr (OK, decimal (ct i), c1)" "client_inv (Suc n) c1" "abs_fs (client_bl c1) = ?a"
      by (rule client_get_clean [OF Suc.prems(1) n, of ?id 2 "decimal (ct i)" "E (2 * i + 1)"]) (use id ct in simp_all)
    with next_ok [OF c1(2,3), of temp1] at True i pr show ?thesis by (subst get_loop.simps) simp
  qed
qed

text \<open>The first string of \<open>test_indirect\<close>: 32768 letters fill the allocation, so no zero ends it.\<close>

lemma large_string_overrun: "string_of LARGE_FILE_SIZE (fill_letters rnd LARGE_FILE_SIZE m) = Inl Array_bounds"
  by (rule string_of_unterminated) (use fill_letters_in letter_nonzero in metis)

lemma large_create_ok:
  assumes "client_inv n c" and "n < 2 ^ 31" and "\<exists>i<1024. abs_fs (client_bl c) i = None"
  obtains fid c' where "client_create (e_stk (e :: call_env)) (e_times e) c (ftype_code T_FILE) = Inr (OK, fid, c')"
proof -
  have "clean (abs_fs (client_bl c)) (Create 2)" using assms(3) by simp
  with client_create_clean [OF assms(1,2), of 2 e] that show thesis by (metis ftype_code.simps(2))
qed

text \<open>Both loops of the second test, on a table whose files are small.\<close>

lemma put_get_loops_ok:
  assumes "client_inv n c" and "n + 100 \<le> 2 ^ 31" and small: "small_table (abs_fs (client_bl c))"
  obtains ct temp' c1 c2 where "put_loop rnd E 0 ct0 temp c = Inr (0, ct, temp', c1)"
    and "abs_fs (client_bl c1) = numbered rnd 0 (abs_fs (client_bl c))"
    and "get_loop E' 0 ct temp' c1 = Inr (0, c2)" and "client_inv (n + 100) c2"
    and "abs_fs (client_bl c2) = abs_fs (client_bl c1)"
proof -
  obtain ct temp' c1 where c1: "put_loop rnd E 0 ct0 temp c = Inr (0, ct, temp', c1)" "client_inv (n + 50) c1"
      "abs_fs (client_bl c1) = numbered rnd 0 (abs_fs (client_bl c))"
      "\<forall>j<50. is_file (abs_fs (client_bl c)) (j + 2) \<longrightarrow> ct j = rnd j mod 10000"
    using put_loop_ok [OF assms(1) _ small, of 0 rnd E ct0 temp] assms(2) by auto
  have "\<forall>j. 0 \<le> j \<longrightarrow> j < 50 \<longrightarrow> is_file (abs_fs (client_bl c1)) (j + 2) \<longrightarrow>
      ct j < 10000 \<and> abs_fs (client_bl c1) (j + 2) = Some (2, decimal (ct j))"
  proof (intro allI impI)
    fix j :: nat assume j: "j < 50" and "is_file (abs_fs (client_bl c1)) (j + 2)"
    then have fl: "is_file (abs_fs (client_bl c)) (j + 2)" by (simp add: c1(3))
    then have "ct j = rnd j mod 10000" using c1(4) j by blast
    with j fl show "ct j < 10000 \<and> abs_fs (client_bl c1) (j + 2) = Some (2, decimal (ct j))"
      by (simp add: c1(3) numbered_def)
  qed
  then have "\<exists>c2. get_loop E' 0 ct temp' c1 = Inr (0, c2) \<and> client_inv (n + 50 + (50 - 0)) c2 \<and>
      abs_fs (client_bl c2) = abs_fs (client_bl c1)"
    using assms(2) by (intro get_loop_ok c1) auto
  then obtain c2 where "get_loop E' 0 ct temp' c1 = Inr (0, c2)" "client_inv (n + 100) c2"
      "abs_fs (client_bl c2) = abs_fs (client_bl c1)" by (auto simp: add.assoc)
  then show thesis by (rule that [OF c1(1,3)])
qed

subsection \<open>The third test\<close>

lemma remove_loop_ok:
  assumes "client_inv n c" and "n + 50 \<le> 2 ^ 31 + i" and "i \<le> 50" and "small_table (abs_fs (client_bl c))"
  shows "\<exists>c'. remove_loop E i c = Inr (0, c') \<and> client_inv (n + (50 - i)) c' \<and>
    abs_fs (client_bl c') = (\<lambda>k. if i + 2 \<le> k \<and> k < 52 then None else abs_fs (client_bl c) k)"
  using assms
proof (induction "50 - i" arbitrary: i n c)
  case 0
  then show ?case by (subst remove_loop.simps) (auto simp: fun_eq_iff)
next
  case (Suc m)
  let ?a = "abs_fs (client_bl c)" and ?id = "file_id i"
  have i: "i < 50" and n: "n < 2 ^ 31" and sum: "Suc n + (50 - Suc i) = n + (50 - i)"
    using Suc.hyps(2) Suc.prems(2) by simp_all
  have id: "unat (inum_of ?id) = i + 2" using i by (intro inum_file_id) simp
  have "clean ?a (Remove ?id)"
    using Suc.prems(4) id by (force simp: small_table_def split: option.splits)
  then obtain c1 where c1: "client_remove (e_stk (E (2 * i))) c ?id = Inr (OK, c1)" "client_inv (Suc n) c1"
      "abs_fs (client_bl c1) = ?a(i + 2 := None)"
    using client_remove_clean [OF Suc.prems(1) n, of ?id "E (2 * i)"] id by metis
  obtain at where at: "client_getattr (e_stk (E (2 * i + 1))) c1 ?id = Inr (OK, at)" "a_type at = 0"
    by (rule client_getattr_type [OF c1(2), of "E (2 * i + 1)" ?id]) (simp add: id c1(3))
  have "\<exists>c'. remove_loop E (Suc i) c1 = Inr (0, c') \<and> client_inv (Suc n + (50 - Suc i)) c' \<and>
      abs_fs (client_bl c') = (\<lambda>k. if Suc i + 2 \<le> k \<and> k < 52 then None else abs_fs (client_bl c1) k)"
    using Suc.hyps(2) Suc.prems(2,4) i c1 by (intro Suc.hyps(1)) (auto simp: small_table_def)
  moreover have "(\<lambda>k. if Suc i + 2 \<le> k \<and> k < 52 then None else abs_fs (client_bl c1) k) =
      (\<lambda>k. if i + 2 \<le> k \<and> k < 52 then None else ?a k)"
    using c1(3) i by (auto simp: fun_eq_iff)
  ultimately show ?case using c1(1) at i unfolding sum by (subst remove_loop.simps) auto
qed

text \<open>
  The removal loop on the files the first test creates. The program runs it only later, when id 51
  is a large file of \<open>test_indirect\<close>.
\<close>

lemma remove_created:
  assumes "client_inv n c" and "n + 50 \<le> 2 ^ 31" and "abs_fs (client_bl c) = created rnd 50"
  shows "\<exists>c'. test_remove E score c = Inr (0, score + 10, c') \<and> abs_fs (client_bl c') = created rnd 1"
proof -
  have "small_table (created rnd 50)" by (auto simp: small_table_def created_def split: if_splits)
  then obtain c' where c': "remove_loop E 0 c = Inr (0, c')"
      "abs_fs (client_bl c') = (\<lambda>k. if 0 + 2 \<le> k \<and> k < 52 then None else created rnd 50 k)"
    using remove_loop_ok [OF assms(1), of 0 E, unfolded assms(3)] assms(2) by auto
  have "(\<lambda>k. if 0 + 2 \<le> k \<and> k < 52 then None else created rnd 50 k) = created rnd 1"
    by (auto simp: created_def fun_eq_iff)
  with c' show ?thesis by (auto simp: test_remove_def)
qed

subsection \<open>The program up to the large files\<close>

lemma tests_until_large:
  obtains c c1 ct temp c2 c3 where "new_fs_client stk ts False = Inr c"
    and "test_create_and_getattr (rnd_create inp) (env_create inp) 0 c = Inr (0, 10, c1)"
    and "abs_fs (client_bl c1) = created (rnd_create inp) 50"
    and "put_loop (rnd_put inp) (env_put inp) 0 (mem_contents inp) (mem_temp inp) c1 = Inr (0, ct, temp, c2)"
    and "abs_fs (client_bl c2) = numbered (rnd_put inp) 0 (created (rnd_create inp) 50)"
    and "get_loop (env_get inp) 0 ct temp c2 = Inr (0, c3)" and "client_inv 150 c3"
    and "abs_fs (client_bl c3) = abs_fs (client_bl c2)"
proof -
  obtain c where c: "new_fs_client stk ts False = Inr c" "client_inv 0 c" "abs_fs (client_bl c) = [0 \<mapsto> (1, [])]"
    using new_client_inv by blast
  obtain c1 where c1: "test_create_and_getattr (rnd_create inp) (env_create inp) 0 c = Inr (0, 10, c1)"
      "client_inv 50 c1" "abs_fs (client_bl c1) = created (rnd_create inp) 50"
    using create_test_ok [OF c(2) _ c(3), of "rnd_create inp" "env_create inp" 0] by auto
  have small: "small_table (abs_fs (client_bl c1))"
    unfolding c1(3) by (auto simp: small_table_def created_def split: if_splits)
  have n: "(50 :: nat) + 100 \<le> 2 ^ 31" by simp
  obtain ct temp c2 c3 where l: "put_loop (rnd_put inp) (env_put inp) 0 (mem_contents inp) (mem_temp inp) c1 =
        Inr (0, ct, temp, c2)" "abs_fs (client_bl c2) = numbered (rnd_put inp) 0 (abs_fs (client_bl c1))"
      "get_loop (env_get inp) 0 ct temp c2 = Inr (0, c3)" "client_inv (50 + 100) c3"
      "abs_fs (client_bl c3) = abs_fs (client_bl c2)"
    by (rule put_get_loops_ok [OF c1(2) n small])
  have "client_inv 150 c3" using l(4) by simp
  then show thesis by (rule that [OF c(1) c1(1,3) l(1) l(2) [unfolded c1(3)] l(3) _ l(5)])
qed

subsection \<open>Properties\<close>

text \<open>
  C37: The tests before the large files pass, in the order the program runs them, for every
  sequence of random numbers and whatever the uninitialised memory holds. On a new client the
  first test creates its fifty files with the types it asked for, returns 0 with score 10 and
  leaves a table of exactly these files. The first loop of the second test then stores the drawn
  number in every regular file among the ids 2 to 51 and changes nothing else; its second loop
  reads every number back and leaves the table as it is.
\<close>

theorem create_put_get_pass:
  "\<exists>c c1 ct temp c2 c3. new_fs_client stk ts False = Inr c \<and>
     test_create_and_getattr (rnd_create inp) (env_create inp) 0 c = Inr (0, 10, c1) \<and>
     abs_fs (client_bl c1) = created (rnd_create inp) 50 \<and>
     put_loop (rnd_put inp) (env_put inp) 0 (mem_contents inp) (mem_temp inp) c1 = Inr (0, ct, temp, c2) \<and>
     abs_fs (client_bl c2) = numbered (rnd_put inp) 0 (created (rnd_create inp) 50) \<and>
     get_loop (env_get inp) 0 ct temp c2 = Inr (0, c3) \<and> abs_fs (client_bl c3) = abs_fs (client_bl c2)"
  by (rule tests_until_large [of stk ts inp]) blast

text \<open>
  C38: The program, run as \<open>part1_tester\<close> without arguments, goes wrong in \<open>test_indirect\<close> and not
  before: the tests of creating, putting and getting pass, the large file is created, and the
  \<open>std::string\<close> made from its 32768 letters, which fill the allocation and have no terminating
  zero, is read past the end of the allocation. The model ends a run at the first access outside
  an object, so the program as a whole has this fault and no score; a real run may find a zero
  byte behind the allocation and go on.
\<close>

theorem part1_main_overrun:
  "\<exists>c c1 ct temp c2 c3 fid c4. new_fs_client stk ts False = Inr c \<and>
     test_create_and_getattr (rnd_create inp) (env_create inp) 0 c = Inr (0, 10, c1) \<and>
     put_loop (rnd_put inp) (env_put inp) 0 (mem_contents inp) (mem_temp inp) c1 = Inr (0, ct, temp, c2) \<and>
     get_loop (env_get inp) 0 ct temp c2 = Inr (0, c3) \<and>
     client_create (e_stk (env_large inp 0)) (e_times (env_large inp 0)) c3 (ftype_code T_FILE) = Inr (OK, fid, c4) \<and>
     string_of LARGE_FILE_SIZE (fill_letters (rnd_large1 inp) LARGE_FILE_SIZE (mem_large1 inp)) = Inl Array_bounds \<and>
     part1_main stk ts False inp 1 = Inl Array_bounds"
proof -
  obtain c c1 ct temp c2 c3 where run: "new_fs_client stk ts False = Inr c"
      "test_create_and_getattr (rnd_create inp) (env_create inp) 0 c = Inr (0, 10, c1)"
      "put_loop (rnd_put inp) (env_put inp) 0 (mem_contents inp) (mem_temp inp) c1 = Inr (0, ct, temp, c2)"
      "get_loop (env_get inp) 0 ct temp c2 = Inr (0, c3)"
    and c3: "client_inv 150 c3" "abs_fs (client_bl c3) = numbered (rnd_put inp) 0 (created (rnd_create inp) 50)"
    by (rule tests_until_large [of stk ts inp]) (rule that, assumption+, simp)
  have "abs_fs (client_bl c3) 60 = None" using c3(2) by (simp add: numbered_def created_def)
  then have free: "\<exists>i<1024. abs_fs (client_bl c3) i = None" by (intro exI [of _ 60]) simp
  have "(150 :: nat) < 2 ^ 31" by simp
  from large_create_ok [OF c3(1) this free] obtain fid c4 where cr: "client_create (e_stk (env_large inp 0)) (e_times (env_large inp 0)) c3 (ftype_code T_FILE) =
      Inr (OK, fid, c4)" by metis
  then have "test_indirect (rnd_large1 inp) (rnd_large2 inp) (mem_large1 inp) (mem_large2 inp) (env_large inp) (10 + 10) c3 =
      Inl Array_bounds"
    by (simp add: test_indirect_def large_string_overrun del: test_sizes)
  with run have "part1_main stk ts False inp 1 = Inl Array_bounds"
    by (simp add: part1_main_def test_put_and_get_def)
  with run cr show ?thesis
    by (intro exI [of _ c] exI [of _ c1] exI [of _ ct] exI [of _ temp] exI [of _ c2] exI [of _ c3] exI [of _ fid]
        exI [of _ c4] conjI) (simp_all only: large_string_overrun)
qed

end
