(* ===== verification/Programs.thy ===== *)
theory Programs
  imports Prelude
begin

text \<open>
  A call as a program that makes one access to shared memory after the other: it has returned,
  it has failed, or it makes an access and goes on with what the access gave. \<open>run\<close> makes
  all accesses in a row, as a thread that is alone does; threads that are not alone make them
  one at a time. An access that answers \<open>Would_block\<close> waits.

  \<open>bounded\<close> limits the number of accesses, \<open>quiet\<close> says that a part of the state is left alone, and
  \<open>section_of\<close> that this holds up to the last access, which releases a lock.
\<close>

subsection \<open>Programs\<close>

datatype ('s, 'a) prog =
    Return 'a
  | Fail fault
  | is_Access: Access "'s \<Rightarrow> fault + ('s, 'a) prog \<times> 's"

lemma prog_induct [case_names Return Fail Access, induct type: prog]:
  assumes "\<And>x. P (Return x)" and "\<And>e. P (Fail e)"
    and "\<And>f. (\<And>s p s'. f s = Inr (p, s') \<Longrightarrow> P p) \<Longrightarrow> P (Access f)"
  shows "P p"
proof (induction p rule: prog.induct)
  case (Access f)
  show ?case
  proof (rule assms(3))
    fix s p s' assume f: "f s = Inr (p, s')"
    show "P p" by (rule Access [OF rangeI [of f s], of "(p, s')"]) (simp_all add: f setr.simps fsts.simps)
  qed
qed (rule assms)+

primrec run :: "('s, 'a) prog \<Rightarrow> 's \<Rightarrow> fault + 'a \<times> 's" where
  "run (Return x) = (\<lambda>s. Inr (x, s))"
| "run (Fail e) = (\<lambda>s. Inl e)"
| "run (Access f) = (\<lambda>s. rbind (map_sum id (map_prod run id) (f s)) (\<lambda>(k, s'). k s'))"

lemma run_Access: "run (Access f) s = rbind (f s) (\<lambda>(p, s'). run p s')"
  by (cases "f s") (auto split: prod.splits)

declare run.simps(3) [simp del]
lemmas run_simps [simp] = run_Access

primrec bindp :: "('s, 'a) prog \<Rightarrow> ('a \<Rightarrow> ('s, 'b) prog) \<Rightarrow> ('s, 'b) prog" where
  "bindp (Return x) k = k x"
| "bindp (Fail e) k = Fail e"
| "bindp (Access f) k = Access (\<lambda>s. map_sum id (map_prod (\<lambda>p. bindp p k) id) (f s))"

text \<open>A single access that gives a value.\<close>

definition access :: "('s \<Rightarrow> fault + 'a \<times> 's) \<Rightarrow> ('s, 'a) prog" where
  "access g = Access (\<lambda>s. rbind (g s) (\<lambda>(x, s'). Inr (Return x, s')))"

text \<open>A result that is known without an access.\<close>

definition of_result :: "fault + 'a \<Rightarrow> ('s, 'a) prog" where
  "of_result r = (case r of Inl e \<Rightarrow> Fail e | Inr x \<Rightarrow> Return x)"

lemma of_result_simps [simp]: "of_result (Inl e) = Fail e" "of_result (Inr x) = Return x"
  by (simp_all add: of_result_def)

lemma run_bindp [simp]: "run (bindp p k) s = rbind (run p s) (\<lambda>(x, s'). run (k x) s')"
proof (induction p arbitrary: s)
  case (Access f)
  then show ?case by (cases "f s") (auto split: prod.splits)
qed simp_all

lemma run_access [simp]: "run (access g) s = g s"
  by (cases "g s") (auto simp: access_def split: prod.splits)

lemma run_of_result [simp]: "run (of_result r) s = rbind r (\<lambda>x. Inr (x, s))"
  by (cases r) simp_all

lemma bindp_assoc [simp]: "bindp (bindp p k) l = bindp p (\<lambda>x. bindp (k x) l)"
proof (induction p)
  case (Access f)
  have "map_sum id (map_prod (\<lambda>p. bindp p l) id) (map_sum id (map_prod (\<lambda>p. bindp p k) id) (f s)) =
      map_sum id (map_prod (\<lambda>p. bindp p (\<lambda>x. bindp (k x) l)) id) (f s)" for s
    using Access [of s] by (cases "f s") auto
  then show ?case by simp
qed simp_all

lemma bindp_AccessD:
  assumes "bindp p k = Access f" and "f s = Inr (q, s')"
  obtains (first) g p' where "p = Access g" "g s = Inr (p', s')" "q = bindp p' k"
  | (rest) x where "p = Return x" "k x = Access f"
  using assms by (cases p) (auto simp: map_sum_def split: sum.splits)

subsection \<open>The number of accesses\<close>

primrec bounded :: "nat \<Rightarrow> ('s, 'a) prog \<Rightarrow> bool" where
  "bounded 0 p \<longleftrightarrow> \<not> is_Access p"
| "bounded (Suc n) p \<longleftrightarrow> (\<forall>f s q s'. p = Access f \<longrightarrow> f s = Inr (q, s') \<longrightarrow> bounded n q)"

lemma bounded_done [simp]: "bounded n (Return x)" "bounded n (Fail e)" "bounded n (of_result r)"
  by (cases n; cases r; simp)+

lemma bounded_mono: "bounded n p \<Longrightarrow> n \<le> m \<Longrightarrow> bounded m p"
proof (induction n arbitrary: p m)
  case 0
  then show ?case by (cases p) simp_all
next
  case (Suc n)
  then show ?case by (cases m) auto
qed

lemma bounded_Access:
  "(\<And>s q s'. f s = Inr (q, s') \<Longrightarrow> bounded n q) \<Longrightarrow> bounded (Suc n) (Access f)"
  by simp

lemma bounded_bindp:
  assumes "bounded n p" and "\<And>x. bounded m (k x)"
  shows "bounded (n + m) (bindp p k)"
  using assms(1)
proof (induction n arbitrary: p)
  case 0
  then show ?case using assms(2) by (cases p) simp_all
next
  case (Suc n)
  show ?case
  proof (cases p)
    case (Return x)
    then show ?thesis using bounded_mono [OF assms(2) [of x], of "Suc n + m"] by simp
  next
    case (Access f)
    have "bounded (n + m) (bindp p' k)" if "f s = Inr (p', s')" for s p' s'
      using Suc.prems Access that by (intro Suc.IH) auto
    then show ?thesis unfolding Access by (auto simp: map_sum_def split: sum.splits)
  qed simp
qed

lemma bounded_access_then:
  assumes "\<And>s x s'. g s = Inr (x, s') \<Longrightarrow> bounded n (k x)"
  shows "bounded (Suc n) (bindp (access g) k)"
  using assms by (auto simp: access_def rbind_Inr_iff map_sum_def split: sum.splits)

lemma bounded_access: "bounded (Suc 0) (access g)"
  by (auto simp: access_def rbind_Inr_iff)

definition depth :: "('s, 'a) prog \<Rightarrow> nat" where
  "depth p = (LEAST n. bounded n p)"

lemma depth_le: "bounded n p \<Longrightarrow> depth p \<le> n"
  unfolding depth_def by (rule Least_le)

lemma depth_step:
  assumes "bounded n (Access f)" and "f s = Inr (q, s')"
  shows "depth q < depth (Access f)" and "bounded n q"
proof -
  have b: "bounded (depth (Access f)) (Access f)" unfolding depth_def using assms(1) by (rule LeastI)
  then obtain m where m: "depth (Access f) = Suc m" by (cases "depth (Access f)") auto
  with b assms(2) have "bounded m q" by auto
  with m show "depth q < depth (Access f)" using depth_le [of m q] by simp
  obtain k where k: "n = Suc k" using assms(1) by (cases n) auto
  with assms have "bounded k q" by auto
  then show "bounded n q" by (rule bounded_mono) (simp add: k)
qed

declare bounded.simps [simp del]

subsection \<open>What a program leaves alone\<close>

text \<open>No access changes what \<open>v\<close> shows of the state.\<close>

inductive quiet :: "('s \<Rightarrow> 'l) \<Rightarrow> ('s, 'a) prog \<Rightarrow> bool" for v where
  Return: "quiet v (Return x)"
| Fail: "quiet v (Fail e)"
| Access: "(\<And>s p s'. f s = Inr (p, s') \<Longrightarrow> v s' = v s) \<Longrightarrow> (\<And>s p s'. f s = Inr (p, s') \<Longrightarrow> quiet v p) \<Longrightarrow>
    quiet v (Access f)"

lemma quiet_access: "(\<And>s x s'. g s = Inr (x, s') \<Longrightarrow> v s' = v s) \<Longrightarrow> quiet v (access g)"
  unfolding access_def by (rule quiet.Access) (auto simp: rbind_Inr_iff intro: quiet.Return)

lemma quiet_of_result: "quiet v (of_result r)"
  by (cases r) (auto intro: quiet.intros)

lemma quiet_bindp: "quiet v p \<Longrightarrow> (\<And>x. quiet v (k x)) \<Longrightarrow> quiet v (bindp p k)"
proof (induction rule: quiet.induct)
  case (Access f)
  show ?case unfolding bindp.simps
    by (rule quiet.Access) (use Access in \<open>auto simp: map_sum_def split: sum.splits\<close>)
qed (auto intro: quiet.Fail)

text \<open>
  The rest of a critical section: accesses that leave \<open>v\<close> alone, and then one that ends the section,
  after which no further access is made.
\<close>

inductive section_of :: "('s \<Rightarrow> 'l) \<Rightarrow> ('s, 'a) prog \<Rightarrow> bool" for v where
  fail: "section_of v (Fail e)"
| body: "(\<And>s p s'. f s = Inr (p, s') \<Longrightarrow> v s' = v s) \<Longrightarrow> (\<And>s p s'. f s = Inr (p, s') \<Longrightarrow> section_of v p) \<Longrightarrow>
    section_of v (Access f)"
| leave: "(\<And>s p s'. f s = Inr (p, s') \<Longrightarrow> \<not> is_Access p) \<Longrightarrow> section_of v (Access f)"

inductive_cases section_AccessE: "section_of v (Access f)"
inductive_simps section_Return [simp]: "section_of v (Return x)"

lemma section_bindp: "quiet v p \<Longrightarrow> (\<And>x. section_of v (k x)) \<Longrightarrow> section_of v (bindp p k)"
proof (induction rule: quiet.induct)
  case (Access f)
  show ?case unfolding bindp.simps
    by (rule section_of.body) (use Access in \<open>auto simp: map_sum_def split: sum.splits\<close>)
qed (auto intro: section_of.fail)

lemma section_leave: "(\<And>x. \<not> is_Access (k x)) \<Longrightarrow> section_of v (bindp (access h) k)"
  unfolding access_def bindp.simps
  by (rule section_of.leave) (auto simp: rbind_Inr_iff map_sum_def split: sum.splits)

lemma section_then: "section_of v p \<Longrightarrow> (\<And>x. \<not> is_Access (k x)) \<Longrightarrow> section_of v (bindp p k)"
proof (induction rule: section_of.induct)
  case (body f)
  show ?case unfolding bindp.simps
    by (rule section_of.body) (use body in \<open>auto simp: map_sum_def split: sum.splits\<close>)
next
  case (leave f)
  have "\<not> is_Access (bindp p k)" if "\<not> is_Access p" for p using that leave(2) by (cases p) simp_all
  with leave(1) show ?case unfolding bindp.simps
    by (intro section_of.leave) (auto simp: map_sum_def split: sum.splits)
qed (simp add: section_of.fail)

lemma section_step:
  assumes "section_of v (Access f)" and "f s = Inr (p, s')"
  shows "(v s' = v s \<and> section_of v p) \<or> \<not> is_Access p"
  using assms(1) by (rule section_AccessE) (use assms(2) in blast)+

end
