(* ===== verification/File_Steps.thy ===== *)
theory File_Steps
  imports Fs_Server Programs
begin

text \<open>
  \<open>read_file\<close> and \<open>write_file\<close>, and the client's \<open>get\<close> and \<open>put\<close> on top of them, access by access: every
  read and write of a block, every call of \<open>alloc_block\<close> and \<open>free_block\<close> (one access each: they hold
  \<open>bitmap_mutex\<close>, see \<open>Block_Races\<close>) and every operation on a lock is an access of its own. Run
  without interruption they are the definitions of \<open>File_IO\<close> and \<open>Fs_Server\<close>.
\<close>

type_synonym 'a io = "(inode_layer, 'a) prog"

subsection \<open>Single accesses\<close>

definition on_blocks :: "(block_layer \<Rightarrow> fault + 'a \<times> block_layer) \<Rightarrow> 'a io" where
  "on_blocks op = access (\<lambda>il. rbind (op (il_bm il)) (\<lambda>(x, bl). Inr (x, il\<lparr>il_bm := bl\<rparr>)))"

definition on_lock :: "(inode_layer \<Rightarrow> fault + inode_layer) \<Rightarrow> unit io" where
  "on_lock op = access (\<lambda>il. rbind (op il) (\<lambda>il. Inr ((), il)))"

definition read_block_p :: "u32 \<Rightarrow> buf \<Rightarrow> buf io" where
  "read_block_p b junk = on_blocks (\<lambda>bl. rbind (bl_read_block bl b junk) (\<lambda>buf. Inr (buf, bl)))"

definition write_block_p :: "u32 \<Rightarrow> buf \<Rightarrow> unit io" where
  "write_block_p b buf = on_blocks (\<lambda>bl. rbind (bl_write_block bl b buf) (\<lambda>bl. Inr ((), bl)))"

definition alloc_block_p :: "stack \<Rightarrow> u32 io" where
  "alloc_block_p stk = on_blocks (alloc_block (stk Scratch))"

definition free_block_p :: "stack \<Rightarrow> u32 \<Rightarrow> unit io" where
  "free_block_p stk b = on_blocks (\<lambda>bl. rbind (free_block (stk Scratch) bl b) (\<lambda>bl. Inr ((), bl)))"

text \<open>\<open>get_inode\<close> reads one block; \<open>put_inode\<close> reads one and writes it back.\<close>

definition get_inode_p :: "stack \<Rightarrow> u32 \<Rightarrow> inode option io" where
  "get_inode_p stk inum = on_blocks (\<lambda>bl. rbind (get_inode stk bl inum) (\<lambda>r. Inr (r, bl)))"

definition read_table_p :: "stack \<Rightarrow> u32 \<Rightarrow> (u32 \<times> buf) io" where
  "read_table_p stk inum =
     on_blocks (\<lambda>bl.
       let ib = word_of_nat (IBLOCK (unat inum) (unat (sb_nblocks (bl_sb bl))))
       in rbind (bl_read_block bl ib (stk Scratch)) (\<lambda>buf. Inr ((ib, buf), bl)))"

definition put_inode_p :: "stack \<Rightarrow> u32 \<Rightarrow> inode \<Rightarrow> unit io" where
  "put_inode_p stk inum ino =
     (if unat inum \<ge> INODE_NUM then Return ()
      else bindp (read_table_p stk inum) (\<lambda>(ib, buf).
             write_block_p ib (encode_inode buf (inode_slot (unat inum)) ino)))"

subsection \<open>Reading\<close>

text \<open>\<open>iindex\<close> is the source's \<open>indirect_index\<close>.\<close>

function read_loop_p ::
    "stack \<Rightarrow> inode \<Rightarrow> buf \<Rightarrow> int \<Rightarrow> int \<Rightarrow> nat \<Rightarrow> nat \<Rightarrow> buf \<Rightarrow> buf io" where
  "read_loop_p stk ino ind remaining already index iindex buf =
     (if remaining > 0 then
        let m = min (int BLOCK_SIZE) remaining in
        if already < int (8 * BLOCK_SIZE) then
          if index < length (i_blocks ino) then
            bindp (read_block_p (i_blocks ino ! index) (stk (Full_direct_buffer index))) (\<lambda>full.
              read_loop_p stk ino ind (remaining - m) (already + m) (index + 1) iindex
                (memcpy buf (index * BLOCK_SIZE) full 0 (nat m)))
          else Fail Array_bounds
        else
          if iindex < NINDIRECT then
            bindp (read_block_p (get32 ind (4 * iindex)) (stk (Full_indirect_buffer index))) (\<lambda>full.
              read_loop_p stk ino ind (remaining - m) (already + m) (index + 1) (iindex + 1)
                (memcpy buf (index * BLOCK_SIZE) full 0 (nat m)))
          else Fail Array_bounds
      else Return buf)"
  by pat_completeness auto
termination
  by (relation "measure (\<lambda>(stk, ino, ind, remaining, _). nat remaining)") auto

declare read_loop_p.simps [simp del]

definition read_file_p ::
    "stack \<Rightarrow> tid \<Rightarrow> u64 \<Rightarrow> u32 \<Rightarrow> buf option option \<Rightarrow> int option \<Rightarrow> (buf option option \<times> int option) io" where
  "read_file_p stk t now inum buf_out sz =
     bindp (on_lock (\<lambda>il. il_reader_enter t il inum)) (\<lambda>_.
     if buf_out = None \<or> sz = None then
       bindp (on_lock (\<lambda>il. il_reader_exit il inum)) (\<lambda>_. Return (buf_out, sz))
     else
       bindp (get_inode_p stk inum) (\<lambda>r.
       case r of
         None \<Rightarrow> bindp (on_lock (\<lambda>il. il_reader_exit il inum)) (\<lambda>_. Return (buf_out, sz))
       | Some ino0 \<Rightarrow>
           let ino = ino0\<lparr>i_atime := ucast now\<rparr> in
           bindp (put_inode_p stk inum ino) (\<lambda>_.
           let n = sint (i_size ino) in
           bindp (read_block_p (i_blocks ino ! 8) (stk Indirect_block)) (\<lambda>ind.
           bindp (read_loop_p stk ino ind n 0 0 0 (stk Malloc_buf)) (\<lambda>buf.
           bindp (on_lock (\<lambda>il. il_reader_exit il inum)) (\<lambda>_.
             Return (Some (Some buf), Some n)))))))"

subsection \<open>Writing\<close>

primrec free_direct_blocks_p :: "stack \<Rightarrow> u32 list \<Rightarrow> unit io" where
  "free_direct_blocks_p stk [] = Return ()"
| "free_direct_blocks_p stk (b # ids) = bindp (free_block_p stk b) (\<lambda>_. free_direct_blocks_p stk ids)"

definition write_direct_p :: "stack \<Rightarrow> buf \<Rightarrow> write_locals \<Rightarrow> write_locals io" where
  "write_direct_p stk buf w =
     (let direct_buffer = fill_buffer (stk (Direct_buffer (w_index w))) buf w in
      bindp (alloc_block_p stk) (\<lambda>block_id.
        if w_index w < length (i_blocks (w_ino w)) then
          bindp (write_block_p block_id direct_buffer) (\<lambda>_.
            Return (w\<lparr>w_ino := (w_ino w)\<lparr>i_blocks := (i_blocks (w_ino w))[w_index w := block_id]\<rparr>\<rparr>))
        else Fail Array_bounds))"

definition write_new_indirect_p :: "stack \<Rightarrow> buf \<Rightarrow> write_locals \<Rightarrow> write_locals io" where
  "write_new_indirect_p stk buf w =
     (let indirect_buffer = fill_buffer (stk (Indirect_buffer (w_index w))) buf w in
      bindp (alloc_block_p stk) (\<lambda>block_id.
      bindp (write_block_p block_id indirect_buffer) (\<lambda>_.
        if indirect_index w < NINDIRECT then
          Return (w\<lparr>final_indirect_block := put32 (final_indirect_block w) (4 * indirect_index w) block_id\<rparr>)
        else Fail Array_bounds)))"

definition write_old_indirect_p :: "stack \<Rightarrow> buf \<Rightarrow> write_locals \<Rightarrow> write_locals io" where
  "write_old_indirect_p stk buf w =
     bindp (read_block_p (i_blocks (w_ino w) ! 8) (stk (Indirect_block_at (w_index w)))) (\<lambda>ind.
       let temp_buffer = fill_buffer (stk (Temp_buffer (w_index w))) buf w in
       if indirect_index w < NINDIRECT then
         let ptr = get32 ind (4 * indirect_index w) in
         bindp (write_block_p ptr temp_buffer) (\<lambda>_.
           Return (w\<lparr>final_indirect_block := put32 (final_indirect_block w) (4 * indirect_index w) ptr\<rparr>))
       else Fail Array_bounds)"

definition alloc_indirect_p :: "stack \<Rightarrow> write_locals \<Rightarrow> write_locals io" where
  "alloc_indirect_p stk w =
     (if already_allocated_indirect w then Return w
      else bindp (alloc_block_p stk) (\<lambda>indirect_block_id.
             Return (w\<lparr>w_ino := (w_ino w)\<lparr>i_blocks := (i_blocks (w_ino w))[8 := indirect_block_id]\<rparr>,
                       already_allocated_indirect := True\<rparr>)))"

definition write_indirect_p :: "stack \<Rightarrow> buf \<Rightarrow> int \<Rightarrow> int \<Rightarrow> write_locals \<Rightarrow> write_locals io" where
  "write_indirect_p stk buf sz old_inode_size w0 =
     (let w = w0\<lparr>need_to_overwrite_indirect := True\<rparr> in
      bindp
        (if sz \<ge> old_inode_size then
           if old_inode_size \<le> int (8 * BLOCK_SIZE) then
             bindp (alloc_indirect_p stk w) (write_new_indirect_p stk buf)
           else if num_bytes_already_written w \<ge> old_inode_size then
             write_new_indirect_p stk buf w
           else write_old_indirect_p stk buf w
         else write_old_indirect_p stk buf w)
        (\<lambda>w. Return (w\<lparr>indirect_index := indirect_index w + 1\<rparr>)))"

definition write_body_p :: "stack \<Rightarrow> buf \<Rightarrow> int \<Rightarrow> int \<Rightarrow> write_locals \<Rightarrow> write_locals io" where
  "write_body_p stk buf sz old_inode_size w =
     bindp (if num_bytes_already_written w < int (8 * BLOCK_SIZE) then write_direct_p stk buf w
            else write_indirect_p stk buf sz old_inode_size w)
       (\<lambda>w. Return (advance w))"

text \<open>
  The loop of \<open>write_file\<close>, with a limit on the iterations. Every iteration takes up to 512 bytes off
  \<open>remaining_bytes_to_write\<close>, so \<open>iterations\<close> of them are enough: \<open>run_write_loop\<close> below shows that
  the limit is never what ends the loop.
\<close>

definition iterations :: "int \<Rightarrow> nat" where
  "iterations remaining = nat ((remaining + 511) div 512)"

primrec write_loop_p :: "nat \<Rightarrow> stack \<Rightarrow> buf \<Rightarrow> int \<Rightarrow> int \<Rightarrow> write_locals \<Rightarrow> write_locals io" where
  "write_loop_p 0 stk buf sz old w = Return w"
| "write_loop_p (Suc k) stk buf sz old w =
     (if remaining_bytes_to_write w > 0
      then bindp (write_body_p stk buf sz old w) (write_loop_p k stk buf sz old)
      else Return w)"

function free_indirect_tail_p :: "stack \<Rightarrow> buf \<Rightarrow> nat \<Rightarrow> int \<Rightarrow> unit io" where
  "free_indirect_tail_p stk ind k number_to_free =
     (if number_to_free > 0 then
        if k < NINDIRECT then
          bindp (free_block_p stk (get32 ind (4 * k))) (\<lambda>_.
            free_indirect_tail_p stk ind (k + 1) (number_to_free - int BLOCK_SIZE))
        else Fail Array_bounds
      else Return ())"
  by pat_completeness auto
termination
  by (relation "measure (\<lambda>(stk, ind, k, n). nat n)") auto

declare free_indirect_tail_p.simps [simp del]

definition finish_write_p :: "stack \<Rightarrow> int \<Rightarrow> int \<Rightarrow> write_locals \<Rightarrow> inode io" where
  "finish_write_p stk sz old w =
     bindp
       (if need_to_overwrite_indirect w \<and> sz < old then
          bindp (read_block_p (i_blocks (w_ino w) ! 8) (stk Indirect_block_free)) (\<lambda>ind.
            free_indirect_tail_p stk ind (indirect_index w) (old - sz))
        else Return ()) (\<lambda>_.
     bindp
       (if need_to_overwrite_indirect w then
          write_block_p (i_blocks (w_ino w) ! 8) (final_indirect_block w)
        else Return ()) (\<lambda>_.
     bindp
       (if sz \<le> int (8 * BLOCK_SIZE) then free_block_p stk (i_blocks (w_ino w) ! 8)
        else Return ()) (\<lambda>_.
       Return ((w_ino w)\<lparr>i_size := word_of_int sz\<rparr>))))"

definition start_write_p :: "stack \<Rightarrow> inode \<Rightarrow> int \<Rightarrow> write_locals" where
  "start_write_p stk ino sz =
     \<lparr>w_ino = ino, remaining_bytes_to_write = sz, num_bytes_already_written = 0,
      need_to_overwrite_indirect = False, final_indirect_block = stk Final_indirect_block,
      already_allocated_indirect = False, w_index = 0, indirect_index = 0\<rparr>"

definition write_inode_p :: "stack \<Rightarrow> u32 \<Rightarrow> inode \<Rightarrow> buf \<Rightarrow> int \<Rightarrow> unit io" where
  "write_inode_p stk inum ino buf sz =
     bindp (free_direct_blocks_p stk (take 8 (i_blocks ino))) (\<lambda>_.
     let old = sint (i_size ino) in
     bindp (write_loop_p (iterations sz) stk buf sz old (start_write_p stk ino sz)) (\<lambda>w.
     bindp (finish_write_p stk sz old w) (\<lambda>ino.
       put_inode_p stk inum ino)))"

definition write_file_p :: "stack \<Rightarrow> tid \<Rightarrow> u32 \<Rightarrow> buf \<Rightarrow> int \<Rightarrow> unit io" where
  "write_file_p stk t inum buf sz =
     bindp (on_lock (\<lambda>il. il_writer_enter t il inum)) (\<lambda>_.
     if sz < 0 \<or> nat sz > BLOCK_SIZE * MAXFILE then on_lock (\<lambda>il. Inr (il_writer_exit il inum))
     else
       bindp (get_inode_p stk inum) (\<lambda>r.
       case r of
         None \<Rightarrow> on_lock (\<lambda>il. Inr (il_writer_exit il inum))
       | Some ino \<Rightarrow>
           bindp (write_inode_p stk inum ino buf sz) (\<lambda>_.
             on_lock (\<lambda>il. Inr (il_writer_exit il inum)))))"

subsection \<open>The client's calls\<close>

definition put_p :: "stack \<Rightarrow> tid \<Rightarrow> fsid_t \<Rightarrow> byte list \<Rightarrow> xxstatus io" where
  "put_p stk t fid s =
     bindp (write_file_p stk t (inum_of fid) (c_str s) (int_size s)) (\<lambda>_. Return OK)"

definition assign_result :: "buf option option \<times> int option \<Rightarrow> fault + xxstatus \<times> byte list" where
  "assign_result r =
     (case r of (cbuf, sz) \<Rightarrow>
       let n = (case sz of None \<Rightarrow> 0 | Some n \<Rightarrow> n) in
       if n = 0 then Inr (OK, [])
       else if n < 0 then Inl Length_error
       else case cbuf of
         Some (Some b) \<Rightarrow> Inr (OK, map b [0..<nat n])
       | _ \<Rightarrow> Inl Null_deref)"

definition get_p :: "stack \<Rightarrow> tid \<Rightarrow> u64 \<Rightarrow> fsid_t \<Rightarrow> (xxstatus \<times> byte list) io" where
  "get_p stk t now fid =
     bindp (read_file_p stk t now (inum_of fid) (Some None) (Some 0)) (\<lambda>r. of_result (assign_result r))"

subsection \<open>Without interruption\<close>

lemma rbind_assoc: "rbind (rbind r f) g = rbind r (\<lambda>x. rbind (f x) g)"
  by (cases r) simp_all

text \<open>Choices are moved outwards on both sides.\<close>

lemma choice_out:
  "rbind (if b then r else r') f = (if b then rbind r f else rbind r' f)"
  "rbind (case z of None \<Rightarrow> r | Some y \<Rightarrow> g y) f = (case z of None \<Rightarrow> rbind r f | Some y \<Rightarrow> rbind (g y) f)"
  "run (if b then p else q) s = (if b then run p s else run q s)"
  "run (case z of None \<Rightarrow> p | Some y \<Rightarrow> k y) s = (case z of None \<Rightarrow> run p s | Some y \<Rightarrow> run (k y) s)"
  by (simp_all split: option.splits)

lemma run_on_blocks: "run (on_blocks op) il = rbind (op (il_bm il)) (\<lambda>(x, bl). Inr (x, il\<lparr>il_bm := bl\<rparr>))"
  by (simp add: on_blocks_def)

lemma run_on_lock: "run (on_lock op) il = rbind (op il) (\<lambda>il. Inr ((), il))"
  by (simp add: on_lock_def)

lemma run_block_accesses:
  "run (read_block_p b junk) il = rbind (bl_read_block (il_bm il) b junk) (\<lambda>buf. Inr (buf, il))"
  "run (write_block_p b buf) il = rbind (bl_write_block (il_bm il) b buf) (\<lambda>bl. Inr ((), il\<lparr>il_bm := bl\<rparr>))"
  "run (alloc_block_p stk) il = rbind (alloc_block (stk Scratch) (il_bm il)) (\<lambda>(b, bl). Inr (b, il\<lparr>il_bm := bl\<rparr>))"
  "run (free_block_p stk b) il = rbind (free_block (stk Scratch) (il_bm il) b) (\<lambda>bl. Inr ((), il\<lparr>il_bm := bl\<rparr>))"
  "run (get_inode_p stk inum) il = rbind (get_inode stk (il_bm il) inum) (\<lambda>r. Inr (r, il))"
  by (simp_all add: read_block_p_def write_block_p_def alloc_block_p_def free_block_p_def get_inode_p_def
      run_on_blocks rbind_assoc)

lemma run_put_inode:
  "run (put_inode_p stk inum ino) il = rbind (put_inode stk (il_bm il) inum (Some ino)) (\<lambda>bl. Inr ((), il\<lparr>il_bm := bl\<rparr>))"
  by (simp add: put_inode_p_def put_inode_def read_table_p_def run_on_blocks run_block_accesses rbind_assoc Let_def)

lemma run_read_loop:
  "run (read_loop_p stk ino ind remaining already index k buf) il =
     rbind (read_loop stk (il_bm il) ino ind remaining already index k buf) (\<lambda>buf. Inr (buf, il))"
proof (induction stk ino ind remaining already index k buf rule: read_loop_p.induct)
  case (1 stk ino ind remaining already index k buf)
  note IH = "1.IH"(1) [OF _ refl, simplified] "1.IH"(2) [OF _ refl, simplified]
  show ?case
    by (subst read_loop_p.simps, subst read_loop.simps)
      (simp add: Let_def run_block_accesses rbind_assoc choice_out IH cong: rbind_cong if_cong)
qed

lemma run_read_file:
  "run (read_file_p stk t now inum buf_out sz) il =
     rbind (read_file stk t now il inum buf_out sz) (\<lambda>(b, n, il). Inr ((b, n), il))"
  unfolding read_file_p_def read_file_def
  by (simp add: run_on_lock run_block_accesses run_put_inode run_read_loop rbind_assoc choice_out Let_def
      cong: rbind_cong if_cong option.case_cong)

lemma run_free_direct_blocks:
  "run (free_direct_blocks_p stk ids) il = rbind (free_direct_blocks stk (il_bm il) ids) (\<lambda>bl. Inr ((), il\<lparr>il_bm := bl\<rparr>))"
proof (induction ids arbitrary: il)
  case (Cons b ids)
  have fault: "foldl (\<lambda>r b. rbind r (\<lambda>bl. free_block (stk Scratch) bl b)) (Inl e) bs = Inl e" for e bs
    by (induction bs) simp_all
  show ?case
    by (cases "free_block (stk Scratch) (il_bm il) b")
      (simp_all add: Cons run_block_accesses free_direct_blocks_def fault)
qed (simp add: free_direct_blocks_def)

text \<open>The local variables with and without the block layer.\<close>

definition with_bl :: "write_locals \<Rightarrow> block_layer \<Rightarrow> write_state" where
  "with_bl w bl =
     \<lparr>w_ino = w_ino w, remaining_bytes_to_write = remaining_bytes_to_write w,
      num_bytes_already_written = num_bytes_already_written w,
      need_to_overwrite_indirect = need_to_overwrite_indirect w, final_indirect_block = final_indirect_block w,
      already_allocated_indirect = already_allocated_indirect w, w_index = w_index w,
      indirect_index = indirect_index w, w_bl = bl\<rparr>"

definition locals_of :: "write_state \<Rightarrow> write_locals" where
  "locals_of w =
     \<lparr>w_ino = w_ino w, remaining_bytes_to_write = remaining_bytes_to_write w,
      num_bytes_already_written = num_bytes_already_written w,
      need_to_overwrite_indirect = need_to_overwrite_indirect w, final_indirect_block = final_indirect_block w,
      already_allocated_indirect = already_allocated_indirect w, w_index = w_index w,
      indirect_index = indirect_index w\<rparr>"

lemma with_bl_locals [simp]: "with_bl (locals_of w) (w_bl w) = w" "locals_of (with_bl l bl) = l"
  by (simp_all add: with_bl_def locals_of_def)

lemma with_bl_sel [simp]:
  "w_ino (with_bl w bl) = w_ino w" "remaining_bytes_to_write (with_bl w bl) = remaining_bytes_to_write w"
  "num_bytes_already_written (with_bl w bl) = num_bytes_already_written w"
  "need_to_overwrite_indirect (with_bl w bl) = need_to_overwrite_indirect w"
  "final_indirect_block (with_bl w bl) = final_indirect_block w"
  "already_allocated_indirect (with_bl w bl) = already_allocated_indirect w"
  "w_index (with_bl w bl) = w_index w" "indirect_index (with_bl w bl) = indirect_index w" "w_bl (with_bl w bl) = bl"
  by (simp_all add: with_bl_def)

lemma locals_of_sel [simp]:
  "w_ino (locals_of w) = w_ino w" "remaining_bytes_to_write (locals_of w) = remaining_bytes_to_write w"
  "num_bytes_already_written (locals_of w) = num_bytes_already_written w"
  "need_to_overwrite_indirect (locals_of w) = need_to_overwrite_indirect w"
  "final_indirect_block (locals_of w) = final_indirect_block w"
  "indirect_index (locals_of w) = indirect_index w"
  by (simp_all add: locals_of_def)

lemma with_bl_upd [simp]:
  "with_bl w bl\<lparr>w_bl := bl'\<rparr> = with_bl w bl'"
  "with_bl w bl\<lparr>w_ino := ino\<rparr> = with_bl (w\<lparr>w_ino := ino\<rparr>) bl"
  "with_bl w bl\<lparr>need_to_overwrite_indirect := b\<rparr> = with_bl (w\<lparr>need_to_overwrite_indirect := b\<rparr>) bl"
  "with_bl w bl\<lparr>final_indirect_block := f\<rparr> = with_bl (w\<lparr>final_indirect_block := f\<rparr>) bl"
  "with_bl w bl\<lparr>already_allocated_indirect := b\<rparr> = with_bl (w\<lparr>already_allocated_indirect := b\<rparr>) bl"
  "with_bl w bl\<lparr>indirect_index := k\<rparr> = with_bl (w\<lparr>indirect_index := k\<rparr>) bl"
  "locals_of v\<lparr>indirect_index := k\<rparr> = locals_of (v\<lparr>indirect_index := k\<rparr>)"
  by (simp_all add: with_bl_def locals_of_def)

lemma with_bl_step [simp]:
  "chunk (with_bl w bl) = chunk w" "fill_buffer a buf (with_bl w bl) = fill_buffer a buf w"
  "advance (locals_of v) = locals_of (advance v)" "w_bl (advance v) = w_bl v"
  by (simp_all add: chunk_def fill_buffer_def advance_def locals_of_def Let_def)

abbreviation split_state :: "write_state \<Rightarrow> inode_layer \<Rightarrow> write_locals \<times> inode_layer" where
  "split_state w il \<equiv> (locals_of w, il\<lparr>il_bm := w_bl w\<rparr>)"

lemma run_write_pieces:
  "run (write_direct_p stk buf w) il =
     rbind (write_direct stk buf (with_bl w (il_bm il))) (\<lambda>w. Inr (split_state w il))"
  "run (write_new_indirect_p stk buf w) il =
     rbind (write_new_indirect stk buf (with_bl w (il_bm il))) (\<lambda>w. Inr (split_state w il))"
  "run (write_old_indirect_p stk buf w) il =
     rbind (write_old_indirect stk buf (with_bl w (il_bm il))) (\<lambda>w. Inr (split_state w il))"
  "run (alloc_indirect_p stk w) il =
     rbind (alloc_indirect stk (with_bl w (il_bm il))) (\<lambda>w. Inr (split_state w il))"
  unfolding write_direct_p_def write_direct_def write_new_indirect_p_def write_new_indirect_def
    write_old_indirect_p_def write_old_indirect_def alloc_indirect_p_def alloc_indirect_def
  by (simp_all add: run_block_accesses rbind_assoc choice_out Let_def case_prod_unfold cong: rbind_cong if_cong)

lemma run_write_body:
  "run (write_body_p stk buf sz old w) il =
     rbind (write_body stk buf sz old (with_bl w (il_bm il))) (\<lambda>w. Inr (split_state w il))"
  unfolding write_body_p_def write_body_def write_indirect_p_def write_indirect_def
  by (simp add: run_write_pieces rbind_assoc choice_out Let_def cong: rbind_cong if_cong)

lemma run_write_loop:
  assumes "remaining_bytes_to_write w \<le> 512 * int k"
  shows "run (write_loop_p k stk buf sz old w) il =
     rbind (write_loop stk buf sz old (with_bl w (il_bm il))) (\<lambda>w. Inr (split_state w il))"
  using assms
proof (induction k arbitrary: w il)
  case 0
  then show ?case by (subst write_loop.simps) simp
next
  case (Suc k)
  have "run (write_loop_p k stk buf sz old (locals_of v)) (il\<lparr>il_bm := w_bl v\<rparr>) =
      rbind (write_loop stk buf sz old v) (\<lambda>w. Inr (split_state w il))"
    if "write_body stk buf sz old (with_bl w (il_bm il)) = Inr v" "remaining_bytes_to_write w > 0" for v
    using Suc.prems write_body_rem [OF that(1)] that(2) by (subst Suc.IH) auto
  then show ?case
    by (subst write_loop.simps) (simp add: run_write_body rbind_assoc cong: rbind_cong)
qed

lemma iterations_enough: "remaining \<le> 512 * int (iterations remaining)"
  unfolding iterations_def by linarith

lemma run_free_indirect_tail:
  "run (free_indirect_tail_p stk ind k n) il =
     rbind (free_indirect_tail stk (il_bm il) ind k n) (\<lambda>bl. Inr ((), il\<lparr>il_bm := bl\<rparr>))"
proof (induction stk ind k n arbitrary: il rule: free_indirect_tail_p.induct)
  case (1 stk ind k n)
  show ?case
    by (subst free_indirect_tail_p.simps, subst free_indirect_tail.simps)
      (simp add: run_block_accesses rbind_assoc "1.IH" [simplified] cong: rbind_cong)
qed

lemma run_finish_write:
  "run (finish_write_p stk sz old w) il =
     rbind (finish_write stk sz old (with_bl w (il_bm il))) (\<lambda>(bl, ino). Inr (ino, il\<lparr>il_bm := bl\<rparr>))"
  unfolding finish_write_p_def finish_write_def
  by (simp add: run_block_accesses run_free_indirect_tail rbind_assoc choice_out cong: rbind_cong if_cong)

lemma start_write_locals [simp]: "with_bl (start_write_p stk ino sz) bl = start_write stk bl ino sz"
  by (simp add: with_bl_def start_write_p_def start_write_def)

lemma run_write_inode:
  "run (write_inode_p stk inum ino buf sz) il =
     rbind (write_inode stk (il_bm il) inum ino buf sz) (\<lambda>bl. Inr ((), il\<lparr>il_bm := bl\<rparr>))"
proof -
  have "remaining_bytes_to_write (start_write_p stk ino sz) \<le> 512 * int (iterations sz)"
    using iterations_enough by (simp add: start_write_p_def)
  note loop = run_write_loop [OF this]
  show ?thesis
    unfolding write_inode_p_def write_inode_def
    by (simp add: run_free_direct_blocks loop run_finish_write run_put_inode rbind_assoc Let_def case_prod_unfold
        cong: rbind_cong)
qed

lemma run_write_file:
  "run (write_file_p stk t inum buf sz) il = rbind (write_file stk t il inum buf sz) (\<lambda>il. Inr ((), il))"
  unfolding write_file_p_def write_file_def
  by (simp add: run_on_lock run_block_accesses run_write_inode rbind_assoc choice_out
      cong: rbind_cong if_cong option.case_cong)

text \<open>
  A put or get of the client whose accesses are all made in a row is the call of \<open>Fs_Server\<close>.
\<close>

theorem run_put:
  "client_put stk t \<lparr>es = \<lparr>im = il\<rparr>\<rparr> fid s = rbind (run (put_p stk t fid s) il) (\<lambda>(st, il). Inr (st, \<lparr>es = \<lparr>im = il\<rparr>\<rparr>))"
  by (simp add: client_put_def server_put_def put_p_def run_write_file rbind_assoc)

theorem run_get:
  "client_get stk t now \<lparr>es = \<lparr>im = il\<rparr>\<rparr> fid =
     rbind (run (get_p stk t now fid) il) (\<lambda>((st, s), il). Inr (st, s, \<lparr>es = \<lparr>im = il\<rparr>\<rparr>))"
proof -
  have "(let srv' = \<lparr>im = il'\<rparr>; n = case sz of None \<Rightarrow> 0 | Some n \<Rightarrow> n in
       if n = 0 then Inr (OK, [], srv') else if n < 0 then Inl Length_error
       else case cbuf of Some (Some b) \<Rightarrow> Inr (OK, map b [0..<nat n], srv') | _ \<Rightarrow> Inl Null_deref) =
     rbind (assign_result (cbuf, sz)) (\<lambda>(st, s). Inr (st, s, \<lparr>im = il'\<rparr>))" for cbuf sz il'
    by (auto simp: assign_result_def Let_def split: option.splits)
  then show ?thesis
    by (simp add: client_get_def server_get_def get_p_def run_read_file rbind_assoc case_prod_unfold cong: rbind_cong)
qed

subsection \<open>The number of accesses\<close>

lemma bounded_on_blocks_then:
  assumes "\<And>bl x bl'. op bl = Inr (x, bl') \<Longrightarrow> bounded n (k x)"
  shows "bounded (Suc n) (bindp (on_blocks op) k)"
  unfolding on_blocks_def using assms by (intro bounded_access_then) (auto simp: rbind_Inr_iff)

lemma bounded_single [simp]:
  "bounded (Suc 0) (on_blocks op)" "bounded (Suc 0) (on_lock l)" "bounded (Suc 0) (read_block_p b junk)"
  "bounded (Suc 0) (write_block_p b buf)" "bounded (Suc 0) (alloc_block_p stk)" "bounded (Suc 0) (free_block_p stk b)"
  "bounded (Suc 0) (get_inode_p stk inum)"
  unfolding on_blocks_def on_lock_def read_block_p_def write_block_p_def alloc_block_p_def free_block_p_def get_inode_p_def
  by (rule bounded_access)+

text \<open>\<open>p\<close> makes at most \<open>n\<close> accesses, with \<open>n\<close> to be found by simplification.\<close>

lemma bounded_seq: "bounded n p \<Longrightarrow> (\<And>x. bounded m (k x)) \<Longrightarrow> n + m \<le> l \<Longrightarrow> bounded l (bindp p k)"
  by (rule bounded_mono [OF bounded_bindp])

lemma bounded_next: "bounded (Suc 0) p \<Longrightarrow> (\<And>x. bounded n (k x)) \<Longrightarrow> bounded (Suc n) (bindp p k)"
  by (rule bounded_seq [of "Suc 0" _ n]) simp_all

lemma bounded_put_inode: "bounded 2 (put_inode_p stk inum ino)"
  unfolding put_inode_p_def read_table_p_def
  by (auto intro!: bounded_seq [of 1 _ 1])

lemma bounded_read_loop:
  "length (i_blocks ino) - index + (128 - k) \<le> n \<Longrightarrow>
     bounded n (read_loop_p stk ino ind remaining already index k buf)"
proof (induction stk ino ind remaining already index k buf arbitrary: n rule: read_loop_p.induct)
  case (1 stk ino ind remaining already index k buf)
  note IH = "1.IH"(1) [OF _ refl, simplified] "1.IH"(2) [OF _ refl, simplified]
  show ?case
    by (subst read_loop_p.simps)
      (use "1.prems" in \<open>auto simp: Let_def intro!: bounded_seq [of 1 _ "n - 1"] IH\<close>)
qed

lemma bounded_read_file: "bounded 143 (read_file_p stk t now inum buf_out sz)"
proof -
  let ?exit = "\<lambda>r. bindp (on_lock (\<lambda>il. il_reader_exit il inum)) (\<lambda>_. Return r)"
  have out: "bounded (Suc n) (?exit r)" for n and r :: "buf option option \<times> int option"
    by (rule bounded_seq [of 1 _ 0]) simp_all
  let ?body = "\<lambda>ino. bindp (put_inode_p stk inum ino) (\<lambda>_. bindp (read_block_p (i_blocks ino ! 8) (stk Indirect_block)) (\<lambda>ind.
      bindp (read_loop_p stk ino ind (sint (i_size ino)) 0 0 0 (stk Malloc_buf)) (\<lambda>buf. ?exit (Some (Some buf), Some (sint (i_size ino))))))"
  have body: "bounded 141 (?body ino)" if "length (i_blocks ino) = 9" for ino
  proof -
    have "bounded 137 (read_loop_p stk ino ind (sint (i_size ino)) 0 0 0 (stk Malloc_buf))" for ind
      using that by (intro bounded_read_loop) simp
    then have "bounded 138 (bindp (read_loop_p stk ino ind (sint (i_size ino)) 0 0 0 (stk Malloc_buf)) (\<lambda>buf.
        ?exit (Some (Some buf), Some (sint (i_size ino)))))" for ind
      by (rule bounded_seq [of 137 _ 1]) (use out [of 0] in simp_all)
    then have "bounded 139 (bindp (read_block_p (i_blocks ino ! 8) (stk Indirect_block)) (\<lambda>ind.
        bindp (read_loop_p stk ino ind (sint (i_size ino)) 0 0 0 (stk Malloc_buf)) (\<lambda>buf. ?exit (Some (Some buf), Some (sint (i_size ino))))))"
      by (rule bounded_seq [of 1 _ 138, rotated]) simp_all
    then show ?thesis by (rule bounded_seq [OF bounded_put_inode]) simp
  qed
  have "bounded 142 (bindp (get_inode_p stk inum) (\<lambda>r. case r of None \<Rightarrow> ?exit (buf_out, sz) | Some ino0 \<Rightarrow> ?body (ino0\<lparr>i_atime := ucast now\<rparr>)))"
    unfolding get_inode_p_def
  proof (rule bounded_mono [OF bounded_on_blocks_then [where n = 141]])
    fix bl r bl' assume "rbind (get_inode stk bl inum) (\<lambda>r. Inr (r, bl)) = Inr (r, bl')"
    then have "length (i_blocks ino) = 9" if "r = Some ino" for ino
      using that by (auto simp: get_inode_def decode_inode_def rbind_Inr_iff Let_def split: if_splits)
    with body [of "ino\<lparr>i_atime := ucast now\<rparr>" for ino] out [of 140] show "bounded 141 (case r of None \<Rightarrow> ?exit (buf_out, sz) | Some ino0 \<Rightarrow> ?body (ino0\<lparr>i_atime := ucast now\<rparr>))"
      by (auto split: option.splits)
  qed simp
  then show ?thesis
    unfolding read_file_p_def Let_def
    using out [of 141] by (intro bounded_seq [of 1 _ 142]) simp_all
qed

lemma bounded_free_direct: "length ids \<le> n \<Longrightarrow> bounded n (free_direct_blocks_p stk ids)"
proof (induction ids arbitrary: n)
  case (Cons b ids)
  then show ?case by (auto intro!: bounded_seq [of 1 _ "n - 1"])
qed simp

lemma bounded_write_body: "bounded 3 (write_body_p stk buf sz old w)"
proof -
  have new: "bounded 2 (write_new_indirect_p stk buf w)" for w
    unfolding write_new_indirect_p_def Let_def numeral_2_eq_2 by (auto intro!: bounded_next)
  have "bounded 2 (write_old_indirect_p stk buf w)" for w
    unfolding write_old_indirect_p_def Let_def numeral_2_eq_2 by (auto intro!: bounded_next)
  moreover have "bounded 1 (alloc_indirect_p stk w)" for w
    unfolding alloc_indirect_p_def by (auto intro!: bounded_next)
  then have "bounded 3 (bindp (alloc_indirect_p stk w) (write_new_indirect_p stk buf))" for w
    by (rule bounded_seq [OF _ new]) simp
  ultimately have ind: "bounded 3 (write_indirect_p stk buf sz old w)" for w
    unfolding write_indirect_p_def Let_def using new by (intro bounded_seq [of 3 _ 0]) (auto intro: bounded_mono [of 2])
  have "bounded 2 (write_direct_p stk buf w)" for w
    unfolding write_direct_p_def Let_def numeral_2_eq_2 by (auto intro!: bounded_next)
  with ind show ?thesis
    unfolding write_body_p_def by (intro bounded_seq [of 3 _ 0]) (auto intro: bounded_mono [of 2])
qed

lemma bounded_write_loop: "bounded (3 * k) (write_loop_p k stk buf sz old w)"
proof (induction k arbitrary: w)
  case (Suc k)
  then show ?case using bounded_write_body by (auto intro!: bounded_seq [of 3 _ "3 * k"])
qed simp

lemma bounded_free_tail: "128 - k \<le> n \<Longrightarrow> bounded n (free_indirect_tail_p stk ind k m)"
proof (induction stk ind k m arbitrary: n rule: free_indirect_tail_p.induct)
  case (1 stk ind k m)
  show ?case
    by (subst free_indirect_tail_p.simps)
      (use "1.prems" in \<open>auto intro!: bounded_seq [of 1 _ "n - 1"] "1.IH" [simplified]\<close>)
qed

lemma bounded_finish_write: "bounded 131 (finish_write_p stk sz old w)"
proof -
  let ?p8 = "i_blocks (w_ino w) ! 8"
  have "bounded 129 (bindp (read_block_p ?p8 (stk Indirect_block_free)) (\<lambda>ind.
      free_indirect_tail_p stk ind (indirect_index w) (old - sz)))"
    by (rule bounded_seq [of 1 _ 128]) (auto intro: bounded_free_tail)
  then show ?thesis
    unfolding finish_write_p_def
    by (intro bounded_seq [of 129 _ "Suc (Suc 0)"] bounded_next) auto
qed

lemma bounded_write_file: "bounded 552 (write_file_p stk t inum buf sz)"
proof -
  let ?exit = "on_lock (\<lambda>il. Inr (il_writer_exit il inum))"
  have w: "bounded 549 (write_inode_p stk inum ino buf sz)" if "\<not> (sz < 0 \<or> nat sz > BLOCK_SIZE * MAXFILE)" for ino
  proof -
    have "iterations sz \<le> 136" using that unfolding iterations_def by simp linarith
    then have "bounded 408 (write_loop_p (iterations sz) stk buf sz old l)" for old l
      by (intro bounded_mono [OF bounded_write_loop]) simp
    moreover have "bounded 133 (bindp (finish_write_p stk sz old l) (\<lambda>ino. put_inode_p stk inum ino))" for old l
      by (rule bounded_seq [OF bounded_finish_write bounded_put_inode]) simp
    ultimately have "bounded 541 (bindp (write_loop_p (iterations sz) stk buf sz old l) (\<lambda>w.
        bindp (finish_write_p stk sz old w) (\<lambda>ino. put_inode_p stk inum ino)))" for old l
      by (rule bounded_seq) simp
    then show ?thesis
      unfolding write_inode_p_def Let_def by (rule bounded_seq [of 8, OF bounded_free_direct, rotated]) simp_all
  qed
  have out: "bounded (Suc n) ?exit" for n using bounded_mono [OF bounded_single(2)] by simp
  have body: "bounded 550 (case r of None \<Rightarrow> ?exit | Some ino \<Rightarrow> bindp (write_inode_p stk inum ino buf sz) (\<lambda>_. ?exit))"
    if "\<not> (sz < 0 \<or> nat sz > BLOCK_SIZE * MAXFILE)" for r
    using w [OF that] out [of 549] out [of 0] by (auto split: option.splits intro!: bounded_seq [of 549 _ 1])
  show ?thesis
    unfolding write_file_p_def using body out [of 550]
    by (intro bounded_seq [of 1 _ 551]) (auto intro!: bounded_seq [of 1 _ 550])
qed

subsection \<open>Where the locks are held\<close>

named_theorems quiet_intros "programs that leave the locks alone"

declare quiet_bindp [quiet_intros] quiet.Return [quiet_intros] quiet.Fail [quiet_intros]

lemma quiet_on_blocks [quiet_intros]: "quiet il_rwlocks (on_blocks op)"
  unfolding on_blocks_def by (rule quiet_access) (auto simp: rbind_Inr_iff)

lemma quiet_block_accesses [quiet_intros]:
  "quiet il_rwlocks (read_block_p b junk)" "quiet il_rwlocks (write_block_p b buf)"
  "quiet il_rwlocks (alloc_block_p stk)" "quiet il_rwlocks (free_block_p stk b)"
  "quiet il_rwlocks (get_inode_p stk inum)" "quiet il_rwlocks (read_table_p stk inum)"
  unfolding read_block_p_def write_block_p_def alloc_block_p_def free_block_p_def get_inode_p_def read_table_p_def
  by (rule quiet_on_blocks)+

lemma quiet_put_inode [quiet_intros]: "quiet il_rwlocks (put_inode_p stk inum ino)"
  unfolding put_inode_p_def by (auto intro!: quiet_intros)

lemma quiet_read_loop [quiet_intros]: "quiet il_rwlocks (read_loop_p stk ino ind remaining already index k buf)"
proof (induction stk ino ind remaining already index k buf rule: read_loop_p.induct)
  case (1 stk ino ind remaining already index k buf)
  then show ?case by (subst read_loop_p.simps) (auto simp: Let_def intro!: quiet_intros)
qed

lemma quiet_free_direct [quiet_intros]: "quiet il_rwlocks (free_direct_blocks_p stk ids)"
  by (induction ids) (auto intro!: quiet_intros)

lemma quiet_write_body [quiet_intros]: "quiet il_rwlocks (write_body_p stk buf sz old w)"
  unfolding write_body_p_def write_direct_p_def write_indirect_p_def write_new_indirect_p_def write_old_indirect_p_def
    alloc_indirect_p_def Let_def
  by (auto intro!: quiet_intros)

lemma quiet_write_loop [quiet_intros]: "quiet il_rwlocks (write_loop_p k stk buf sz old w)"
  by (induction k arbitrary: w) (auto intro!: quiet_intros)

lemma quiet_free_tail [quiet_intros]: "quiet il_rwlocks (free_indirect_tail_p stk ind k m)"
proof (induction stk ind k m rule: free_indirect_tail_p.induct)
  case (1 stk ind k m)
  then show ?case by (subst free_indirect_tail_p.simps) (auto intro!: quiet_intros)
qed

lemma quiet_write_inode [quiet_intros]: "quiet il_rwlocks (write_inode_p stk inum ino buf sz)"
  unfolding write_inode_p_def finish_write_p_def Let_def by (auto intro!: quiet_intros)

text \<open>
  A call that first takes the lock of an inode and keeps it until its last access. \<open>held\<close>: some
  thread has the mutex of the lock.
\<close>

definition held :: "u32 \<Rightarrow> inode_layer \<Rightarrow> bool" where
  "held inum il \<longleftrightarrow> rw_mutex (il_rwlocks il (unat inum)) \<noteq> None"

definition locked_call :: "u32 \<Rightarrow> nat \<Rightarrow> 'a io \<Rightarrow> bool" where
  "locked_call inum n p \<longleftrightarrow>
     (\<exists>enter rest. p = bindp (on_lock enter) (\<lambda>_. rest) \<and>
        (\<forall>il. held inum il \<longrightarrow> enter il = Inl Would_block) \<and>
        (\<forall>il il'. enter il = Inr il' \<longrightarrow> held inum il') \<and>
        section_of il_rwlocks rest \<and> bounded n p)"

lemma locked_callI:
  assumes "p = bindp (on_lock enter) (\<lambda>_. rest)" and "\<And>il. held inum il \<Longrightarrow> enter il = Inl Would_block"
    and "\<And>il il'. enter il = Inr il' \<Longrightarrow> held inum il'" and "section_of il_rwlocks rest" and "bounded n p"
  shows "locked_call inum n p"
  using assms unfolding locked_call_def by blast

lemma locked_call_then:
  assumes "locked_call inum n p" and "\<And>x. \<not> is_Access (k x)"
  shows "locked_call inum n (bindp p k)"
proof -
  obtain enter rest where e: "p = bindp (on_lock enter) (\<lambda>_. rest)" "\<And>il. held inum il \<Longrightarrow> enter il = Inl Would_block"
      "\<And>il il'. enter il = Inr il' \<Longrightarrow> held inum il'" "section_of il_rwlocks rest" "bounded n p"
    using assms(1) unfolding locked_call_def by blast
  have "bounded 0 (k x)" for x using assms(2) [of x] by (simp add: bounded.simps)
  then have "bounded n (bindp p k)" using bounded_seq [OF e(5), of 0 k n] by simp
  with e section_then [OF e(4) assms(2)] show ?thesis by (intro locked_callI [of _ enter "bindp rest k"]) simp_all
qed

lemma locked_call_mono: "locked_call inum n p \<Longrightarrow> n \<le> m \<Longrightarrow> locked_call inum m p"
  unfolding locked_call_def using bounded_mono by blast

lemma section_on_lock: "(\<And>x. \<not> is_Access (k x)) \<Longrightarrow> section_of il_rwlocks (bindp (on_lock l) k)"
  unfolding on_lock_def by (rule section_leave)

lemma bindp_Return [simp]: "bindp p Return = p"
proof (induction p)
  case (Access f)
  have "map_sum id (map_prod (\<lambda>p. bindp p Return) id) (f s) = f s" for s
    using Access [of s] by (cases "f s") auto
  then show ?case by simp
qed simp_all

lemma write_file_locked:
  assumes "unat inum < 1024"
  shows "locked_call inum 552 (write_file_p stk t inum buf sz)"
proof (rule locked_callI)
  show "il_writer_enter t il inum = Inl Would_block" if "held inum il" for il
    using that assms by (auto simp: held_def il_writer_enter_def writer_enter_def mutex_lock_def)
  show "held inum il'" if "il_writer_enter t il inum = Inr il'" for il il'
    using that by (auto simp: held_def il_writer_enter_def writer_enter_def mutex_lock_def writer_announce_def
        writer_admit_def rbind_Inr_iff split: if_splits option.splits)
  have exit: "section_of il_rwlocks (on_lock (\<lambda>il. Inr (il_writer_exit il inum)))"
    using section_on_lock [of Return] by simp
  then show "section_of il_rwlocks
      (if sz < 0 \<or> nat sz > BLOCK_SIZE * MAXFILE then on_lock (\<lambda>il. Inr (il_writer_exit il inum))
       else bindp (get_inode_p stk inum) (\<lambda>r. case r of None \<Rightarrow> on_lock (\<lambda>il. Inr (il_writer_exit il inum))
         | Some ino \<Rightarrow> bindp (write_inode_p stk inum ino buf sz) (\<lambda>_. on_lock (\<lambda>il. Inr (il_writer_exit il inum)))))"
    by (auto intro!: section_bindp quiet_intros split: option.splits)
qed (rule write_file_p_def, rule bounded_write_file)

lemma read_file_locked:
  assumes "unat inum < 1024"
  shows "locked_call inum 143 (read_file_p stk t now inum buf_out sz)"
proof (rule locked_callI)
  let ?exit = "\<lambda>r. bindp (on_lock (\<lambda>il. il_reader_exit il inum)) (\<lambda>_. Return r)"
  show "il_reader_enter t il inum = Inl Would_block" if "held inum il" for il
    using that assms by (auto simp: held_def il_reader_enter_def reader_enter_def mutex_lock_def)
  show "held inum il'" if "il_reader_enter t il inum = Inr il'" for il il'
    using that by (auto simp: held_def il_reader_enter_def reader_enter_def mutex_lock_def
        reader_admit_def rbind_Inr_iff split: if_splits option.splits)
  have exit: "section_of il_rwlocks (?exit r)" for r :: "buf option option \<times> int option" by (rule section_on_lock) simp
  show "section_of il_rwlocks
      (if buf_out = None \<or> sz = None then ?exit (buf_out, sz)
       else bindp (get_inode_p stk inum) (\<lambda>r. case r of None \<Rightarrow> ?exit (buf_out, sz)
         | Some ino0 \<Rightarrow>
             let ino = ino0\<lparr>i_atime := ucast now\<rparr> in bindp (put_inode_p stk inum ino) (\<lambda>_.
             let n = sint (i_size ino) in
             bindp (read_block_p (i_blocks ino ! 8) (stk Indirect_block)) (\<lambda>ind.
             bindp (read_loop_p stk ino ind n 0 0 0 (stk Malloc_buf)) (\<lambda>buf. ?exit (Some (Some buf), Some n))))))"
    unfolding Let_def by (auto intro!: exit section_bindp quiet_intros split: option.splits)
qed (rule read_file_p_def, rule bounded_read_file)

lemma put_locked: "unat (inum_of fid) < 1024 \<Longrightarrow> locked_call (inum_of fid) 552 (put_p stk t fid s)"
  unfolding put_p_def by (intro locked_call_then write_file_locked) simp_all

lemma get_locked: "unat (inum_of fid) < 1024 \<Longrightarrow> locked_call (inum_of fid) 143 (get_p stk t now fid)"
  unfolding get_p_def by (intro locked_call_then read_file_locked) (simp_all add: of_result_def split: sum.splits)

subsection \<open>One access of a call\<close>

text \<open>The first access waits while the lock is held, and otherwise takes it.\<close>

lemma locked_call_enter:
  assumes "locked_call inum n p"
  obtains f where "p = Access f" and "bounded n p"
    and "\<And>il. held inum il \<Longrightarrow> f il = Inl Would_block"
    and "\<And>il p' il'. f il = Inr (p', il') \<Longrightarrow> held inum il' \<and> section_of il_rwlocks p' \<and> bounded n p'"
proof -
  obtain enter rest where e: "p = bindp (on_lock enter) (\<lambda>_. rest)" "\<And>il. held inum il \<Longrightarrow> enter il = Inl Would_block"
      "\<And>il il'. enter il = Inr il' \<Longrightarrow> held inum il'" "section_of il_rwlocks rest" "bounded n p"
    using assms unfolding locked_call_def by blast
  let ?f = "\<lambda>il. rbind (enter il) (\<lambda>il. Inr (rest, il))"
  have "map_sum id (map_prod (\<lambda>p. bindp p (\<lambda>_. rest)) id) (rbind (rbind (enter il) (\<lambda>il. Inr ((), il))) (\<lambda>(x, s'). Inr (Return x, s'))) = ?f il"
    for il by (cases "enter il") simp_all
  then have p: "p = Access ?f" unfolding e(1) on_lock_def access_def by simp
  show thesis
  proof (rule that [OF p e(5)])
    show "held inum il' \<and> section_of il_rwlocks p' \<and> bounded n p'" if "?f il = Inr (p', il')" for il p' il'
      using that e(3,4) depth_step(2) [OF e(5) [unfolded p], of il p' il'] by (auto simp: rbind_Inr_iff)
  qed (use e(2) in simp)
qed

text \<open>A later access goes on with the call or ends it.\<close>

lemma section_access:
  assumes "section_of il_rwlocks p" and "run p il = Inr (x, il')"
  obtains f p1 il1 where "p = Access f" and "f il = Inr (p1, il1)" and "run p1 il1 = Inr (x, il')"
    and "(il_rwlocks il1 = il_rwlocks il \<and> section_of il_rwlocks p1) \<or> (p1 = Return x \<and> il1 = il')"
proof -
  obtain f where p: "p = Access f" using assms by (cases p) simp_all
  with assms(2) obtain p1 il1 where f: "f il = Inr (p1, il1)" "run p1 il1 = Inr (x, il')"
    by (auto simp: rbind_Inr_iff)
  have "p1 = Return x \<and> il1 = il'" if "\<not> is_Access p1" using that f(2) by (cases p1) simp_all
  with that [OF p f] section_step [OF assms(1) [unfolded p] f(1)] show thesis by blast
qed

end
