(* ===== verification/Tester_Part2.thy ===== *)
theory Tester_Part2
  imports Test_Support File_Steps Interleave
begin

text \<open>
  \<open>part2_tester.cc\<close>: two writers and two readers on one file. The threads interleave at every
  access to the disk and every operation on a lock that \<open>put\<close> and \<open>get\<close> make (\<open>File_Steps\<close>); a thread
  that finds the lock of the file taken waits. The look at the result of a call and the look at
  the two error flags are steps of their own. The choice of the string, the clock and the
  uninitialised memory of each call are left open. \<open>single_repeated_reader\<close> ends without a
  \<open>return\<close>; its value is not used, and the thread ends there.
\<close>

subsection \<open>The threads\<close>

definition N_READ_WRITE_TEST :: nat where "N_READ_WRITE_TEST = 10000"

datatype role = Writer | Reader

text \<open>
  Before the call of iteration \<open>i\<close>, in the call with the accesses still to make, before the look at
  the flags, and after the loop.
\<close>

datatype thread_pc = Call nat | Running nat "bool io" | Check nat | Done

record test_globals =
  t_ec :: fs_client
  err_in_single_repeated_writer :: bool
  err_in_single_repeated_reader :: bool

abbreviation client_il :: "fs_client \<Rightarrow> inode_layer" where
  "client_il c \<equiv> im (es c)"

abbreviation with_il :: "inode_layer \<Rightarrow> fs_client" where
  "with_il il \<equiv> \<lparr>es = \<lparr>im = il\<rparr>\<rparr>"

definition loop_head :: "nat \<Rightarrow> thread_pc" where
  "loop_head i = (if i < N_READ_WRITE_TEST then Call i else Done)"

text \<open>The call of an iteration and what is made of its result: whether it is an error.\<close>

definition single_repeated_writer ::
    "call_env \<Rightarrow> nat \<Rightarrow> byte list \<Rightarrow> byte list \<Rightarrow> fsid_t \<Rightarrow> bool io" where
  "single_repeated_writer e rnum str1 str2 fid =
     bindp (put_p (e_stk e) (e_tid e) fid (if rnum mod 2 \<noteq> 0 then str1 else str2)) (\<lambda>st.
       Return (st \<noteq> OK))"

definition single_repeated_reader ::
    "call_env \<Rightarrow> byte list \<Rightarrow> byte list \<Rightarrow> fsid_t \<Rightarrow> bool io" where
  "single_repeated_reader e str1 str2 fid =
     bindp (get_p (e_stk e) (e_tid e) (e_now e) fid) (\<lambda>(st, readbuf).
       Return (st \<noteq> OK \<or> str1 \<noteq> readbuf \<and> str2 \<noteq> readbuf))"

definition thread_call :: "role \<Rightarrow> call_env \<Rightarrow> nat \<Rightarrow> byte list \<Rightarrow> byte list \<Rightarrow> fsid_t \<Rightarrow> bool io" where
  "thread_call r e rnum str1 str2 fid =
     (case r of
        Writer \<Rightarrow> single_repeated_writer e rnum str1 str2 fid
      | Reader \<Rightarrow> single_repeated_reader e str1 str2 fid)"

definition report_error :: "role \<Rightarrow> test_globals \<Rightarrow> test_globals" where
  "report_error r g =
     (case r of
        Writer \<Rightarrow> g\<lparr>err_in_single_repeated_writer := True\<rparr>
      | Reader \<Rightarrow> g\<lparr>err_in_single_repeated_reader := True\<rparr>)"

definition test_failed :: "test_globals \<Rightarrow> bool" where
  "test_failed g \<longleftrightarrow> err_in_single_repeated_reader g \<or> err_in_single_repeated_writer g"

text \<open>
  The moves of one thread. An access that answers \<open>Would_block\<close> cannot be made: the thread waits. Any
  other fault ends the program.
\<close>

inductive thread_act ::
    "byte list \<Rightarrow> byte list \<Rightarrow> fsid_t \<Rightarrow> role \<times> thread_pc \<Rightarrow> fault + test_globals \<Rightarrow>
     (role \<times> thread_pc) \<times> (fault + test_globals) \<Rightarrow> bool"
  for str1 str2 fid where
  call: "thread_act str1 str2 fid (r, Call i) (Inr g)
    ((r, Running i (thread_call r e rnum str1 str2 fid)), Inr g)"
| access: "f (client_il (t_ec g)) = Inr (p, il) \<Longrightarrow>
    thread_act str1 str2 fid (r, Running i (Access f)) (Inr g) ((r, Running i p), Inr (g\<lparr>t_ec := with_il il\<rparr>))"
| crash: "f (client_il (t_ec g)) = Inl e \<Longrightarrow> e \<noteq> Would_block \<Longrightarrow>
    thread_act str1 str2 fid (r, Running i (Access f)) (Inr g) ((r, Done), Inl e)"
| fail: "thread_act str1 str2 fid (r, Running i (Fail e)) (Inr g) ((r, Done), Inl e)"
| passed: "thread_act str1 str2 fid (r, Running i (Return False)) (Inr g) ((r, Check i), Inr g)"
| failed: "thread_act str1 str2 fid (r, Running i (Return True)) (Inr g) ((r, Done), Inr (report_error r g))"
| check: "thread_act str1 str2 fid (r, Check i) (Inr g)
    ((r, if test_failed g then Done else loop_head (i + 1)), Inr g)"

inductive_cases thread_actE: "thread_act str1 str2 fid (r, pc) x p"

definition test_threads :: "(role \<times> thread_pc) list" where
  "test_threads = [(Writer, loop_head 0), (Writer, loop_head 0), (Reader, loop_head 0), (Reader, loop_head 0)]"

definition finished :: "role \<times> thread_pc \<Rightarrow> bool" where
  "finished t \<longleftrightarrow> snd t = Done"

subsection \<open>The program\<close>

record part2_input =
  p2_rnd1 :: rng
  p2_rnd2 :: rng
  p2_rnd3 :: rng
  p2_mem :: buf
  p2_mem2 :: buf
  p2_env :: "nat \<Rightarrow> call_env"
  p2_spawn1 :: bool
  p2_spawn2 :: bool

text \<open>
  \<open>test_concurrent\<close> up to the first \<open>pthread_create\<close>: an early return, or the id, the two
  strings and the client.
\<close>

definition prepare ::
    "part2_input \<Rightarrow> fs_client \<Rightarrow> fault + (int + fsid_t \<times> byte list \<times> byte list \<times> fs_client)" where
  "prepare inp c =
     (let E = p2_env inp in
      rbind (client_create (e_stk (E 0)) (e_times (E 0)) c (ftype_code T_FILE)) (\<lambda>(_, fid, c).
      let buf = (fill_letters (p2_rnd1 inp) LARGE_FILE_SIZE (p2_mem inp))(LARGE_FILE_SIZE := 0) in
      rbind (string_of (LARGE_FILE_SIZE + 1) buf) (\<lambda>strbuf.
      rbind (client_put (e_stk (E 1)) (e_tid (E 1)) c fid strbuf) (\<lambda>(st, c).
      if st \<noteq> OK then Inr (Inl 1) else
      rbind (client_get (e_stk (E 2)) (e_tid (E 2)) (e_now (E 2)) c fid) (\<lambda>(st, readbuf, c).
      if st \<noteq> OK then Inr (Inl 2)
      else if strbuf \<noteq> readbuf then Inr (Inl 3) else
      let buf = fill_letters (p2_rnd2 inp) LARGE_FILE_SIZE buf in
      rbind (string_of (LARGE_FILE_SIZE + 1) buf) (\<lambda>str2.
      Inr (Inr (fid, strbuf, str2, c))))))))"


definition start_globals :: "fs_client \<Rightarrow> test_globals" where
  "start_globals c =
     \<lparr>t_ec = c, err_in_single_repeated_writer = False, err_in_single_repeated_reader = False\<rparr>"





subsection \<open>The threads keep one of the two strings in the file\<close>

definition the_table :: "byte list \<Rightarrow> afs" where
  "the_table s = [0 \<mapsto> (1, []), 1 \<mapsto> (2, s)]"

text \<open>The sizes of the strings the program uses.\<close>

definition good_size :: "byte list \<Rightarrow> bool" where
  "good_size s \<longleftrightarrow> length s = 32768 \<or> length s = 65536"

lemma the_table_put:
  assumes "s = [] \<or> good_size s" and "good_size s'"
  shows "clean (the_table s) (Put 1 s')" and "snd (a_step (the_table s) (Put 1 s')) = the_table s'"
proof -
  have one: "unat (inum_of 1) = 1" by (simp add: unat_inum_of)
  have "put_ok (length s) (length s')"
    using assms by (auto simp: good_size_def put_ok_def rewrite_ok_def nblk_def)
  moreover have "a_blocks (the_table s') \<le> 32645"
    using assms(2) by (auto simp: the_table_def good_size_def a_blocks_split a_blocks_empty blocks_needed_def nblk_def)
  moreover have upd: "(the_table s)(1 \<mapsto> (2, s')) = the_table s'" by (auto simp: the_table_def)
  moreover have at: "the_table s 1 = Some (2, s)" by (simp add: the_table_def)
  ultimately show "clean (the_table s) (Put 1 s')"
    using assms(2) by (simp add: one good_size_def upd) auto
  show "snd (a_step (the_table s) (Put 1 s')) = the_table s'"
    using assms(2) upd at by (auto simp: one good_size_def)
qed

text \<open>The file holds one of the two strings; a put of either and a get keep that.\<close>

definition serving :: "byte list \<Rightarrow> byte list \<Rightarrow> nat \<Rightarrow> fs_client \<Rightarrow> bool" where
  "serving str1 str2 n c \<longleftrightarrow> good_size str1 \<and> good_size str2 \<and> client_inv n c \<and>
     (\<exists>s \<in> {str1, str2}. abs_fs (client_bl c) = the_table s)"

lemma serving_mono: "serving str1 str2 n c \<Longrightarrow> n \<le> m \<Longrightarrow> serving str1 str2 m c"
  using client_inv_mono by (auto simp: serving_def)

lemma serving_put:
  fixes e :: call_env
  assumes "serving str1 str2 n c" and "n < 2 ^ 31" and "s \<in> {str1, str2}"
  obtains c' where "client_put (e_stk e) (e_tid e) c 1 s = Inr (OK, c')" and "serving str1 str2 (Suc n) c'"
proof -
  obtain s0 where s0: "good_size s0" "abs_fs (client_bl c) = the_table s0" "client_inv n c" "good_size s"
    using assms(1,3) by (auto simp: serving_def)
  have "clean (abs_fs (client_bl c)) (Put 1 s)" "snd (a_step (abs_fs (client_bl c)) (Put 1 s)) = the_table s"
    unfolding s0(2) using the_table_put [of s0 s] s0(1,4) by blast+
  then obtain c' where "client_put (e_stk e) (e_tid e) c 1 s = Inr (OK, c')" "client_inv (Suc n) c'"
      "abs_fs (client_bl c') = the_table s"
    using client_put_clean [OF s0(3) assms(2), of 1 s e] by metis
  with that [of c'] assms(1,3) show thesis by (auto simp: serving_def)
qed

lemma serving_get:
  fixes e :: call_env
  assumes "serving str1 str2 n c" and "n < 2 ^ 31"
  obtains s c' where "client_get (e_stk e) (e_tid e) (e_now e) c 1 = Inr (OK, s, c')" and "s \<in> {str1, str2}"
    and "serving str1 str2 (Suc n) c'"
proof -
  obtain s where s: "s \<in> {str1, str2}" "abs_fs (client_bl c) = the_table s" "client_inv n c"
    using assms(1) by (auto simp: serving_def)
  have "abs_fs (client_bl c) (unat (inum_of 1)) = Some (2, s)" using s(2) by (simp add: unat_inum_of the_table_def)
  then obtain c' where "client_get (e_stk e) (e_tid e) (e_now e) c 1 = Inr (OK, s, c')" "client_inv (Suc n) c'"
      "abs_fs (client_bl c') = abs_fs (client_bl c)"
    using client_get_clean [OF s(3) assms(2), of 1 2 s e] by metis
  with that [of s c'] assms(1) s show thesis by (auto simp: serving_def)
qed

lemma with_client_il [simp]: "with_il (client_il c) = c"
  by simp

text \<open>The call of a thread on the file, as a whole.\<close>

lemma thread_call_run:
  assumes "serving str1 str2 n c" and "n < 2 ^ 31"
  obtains il where "run (thread_call r e rnum str1 str2 1) (client_il c) = Inr (False, il)"
    and "serving str1 str2 (Suc n) (with_il il)"
proof (cases r)
  case Writer
  let ?s = "if rnum mod 2 \<noteq> 0 then str1 else str2"
  obtain c' where c': "client_put (e_stk e) (e_tid e) c 1 ?s = Inr (OK, c')" "serving str1 str2 (Suc n) c'"
    by (rule serving_put [OF assms, of ?s e]) auto
  have "rbind (run (put_p (e_stk e) (e_tid e) 1 ?s) (client_il c)) (\<lambda>(st, il). Inr (st, with_il il)) = Inr (OK, c')"
    using run_put [of "e_stk e" "e_tid e" "client_il c" 1 ?s] c'(1) by simp
  then obtain il where "run (put_p (e_stk e) (e_tid e) 1 ?s) (client_il c) = Inr (OK, il)" "c' = with_il il"
    by (auto simp: rbind_Inr_iff)
  with that [of il] c'(2) Writer show thesis by (simp add: thread_call_def single_repeated_writer_def)
next
  case Reader
  obtain s c' where c': "client_get (e_stk e) (e_tid e) (e_now e) c 1 = Inr (OK, s, c')" "s \<in> {str1, str2}"
      "serving str1 str2 (Suc n) c'"
    by (rule serving_get [OF assms, of e])
  have "rbind (run (get_p (e_stk e) (e_tid e) (e_now e) 1) (client_il c)) (\<lambda>((st, s), il). Inr (st, s, with_il il)) =
      Inr (OK, s, c')"
    using run_get [of "e_stk e" "e_tid e" "e_now e" "client_il c" 1] c'(1) by simp
  then obtain il where "run (get_p (e_stk e) (e_tid e) (e_now e) 1) (client_il c) = Inr ((OK, s), il)" "c' = with_il il"
    by (auto simp: rbind_Inr_iff)
  with that [of il] c'(2,3) Reader show thesis by (auto simp: thread_call_def single_repeated_reader_def)
qed

lemma thread_call_locked: "locked_call 1 552 (thread_call r e rnum str1 str2 1)"
proof -
  have one: "inum_of 1 = 1" by (simp add: inum_of_def)
  have "locked_call 1 552 (get_p stk t now 1)" for stk t now
    using locked_call_mono [OF get_locked [of 1], of 552] one by simp
  then show ?thesis
    using put_locked [of 1] one
    by (auto simp: thread_call_def single_repeated_writer_def single_repeated_reader_def split: role.splits
        intro!: locked_call_then)
qed

text \<open>
  A thread in the middle of its call: it has the lock, and its remaining accesses will end the call
  without an error and with one of the two strings in the file.
\<close>

definition in_call :: "byte list \<Rightarrow> byte list \<Rightarrow> nat \<Rightarrow> bool io \<Rightarrow> fs_client \<Rightarrow> bool" where
  "in_call str1 str2 n p c \<longleftrightarrow>
     section_of il_rwlocks p \<and> (\<exists>m. bounded m p) \<and> held 1 (client_il c) \<and>
     (\<exists>il. run p (client_il c) = Inr (False, il) \<and> serving str1 str2 n (with_il il))"

lemma in_call_mono: "in_call str1 str2 n p c \<Longrightarrow> n \<le> m \<Longrightarrow> in_call str1 str2 m p c"
  using serving_mono unfolding in_call_def by blast

lemma call_begins:
  assumes "serving str1 str2 n c" and "n < 2 ^ 31"
  obtains f p il where "thread_call r e rnum str1 str2 1 = Access f" and "f (client_il c) = Inr (p, il)"
    and "in_call str1 str2 (Suc n) p (with_il il)"
proof -
  obtain f where f: "thread_call r e rnum str1 str2 1 = Access f" "bounded 552 (thread_call r e rnum str1 str2 1)"
      "\<And>il. held 1 il \<Longrightarrow> f il = Inl Would_block"
      "\<And>il p' il'. f il = Inr (p', il') \<Longrightarrow> held 1 il' \<and> section_of il_rwlocks p' \<and> bounded 552 p'"
    by (rule locked_call_enter [OF thread_call_locked [of r e rnum str1 str2]]) (rule that)
  obtain il where il: "run (thread_call r e rnum str1 str2 1) (client_il c) = Inr (False, il)"
      "serving str1 str2 (Suc n) (with_il il)"
    by (rule thread_call_run [OF assms, of r e rnum])
  then obtain p1 il1 where s: "f (client_il c) = Inr (p1, il1)" "run p1 il1 = Inr (False, il)"
    unfolding f(1) by (auto simp: rbind_Inr_iff)
  with that [OF f(1) s(1)] f(4) [OF s(1)] il(2) show thesis by (auto simp: in_call_def)
qed

lemma thread_call_waits:
  "held 1 il \<Longrightarrow> \<exists>f. thread_call r e rnum str1 str2 1 = Access f \<and> f il = Inl Would_block"
  using locked_call_enter [OF thread_call_locked [of r e rnum str1 str2]] by metis

lemma call_goes_on:
  assumes "in_call str1 str2 n p c"
  obtains f p1 il where "p = Access f" and "f (client_il c) = Inr (p1, il)" and "depth p1 < depth p"
    and "in_call str1 str2 n p1 (with_il il) \<or> (p1 = Return False \<and> serving str1 str2 n (with_il il))"
proof -
  obtain m il' where p: "section_of il_rwlocks p" "bounded m p" "held 1 (client_il c)"
      "run p (client_il c) = Inr (False, il')" "serving str1 str2 n (with_il il')"
    using assms by (auto simp: in_call_def)
  obtain f p1 il1 where f: "p = Access f" "f (client_il c) = Inr (p1, il1)" "run p1 il1 = Inr (False, il')"
      "(il_rwlocks il1 = il_rwlocks (client_il c) \<and> section_of il_rwlocks p1) \<or> (p1 = Return False \<and> il1 = il')"
    by (rule section_access [OF p(1,4)])
  note d = depth_step [OF p(2) [unfolded f(1)] f(2)]
  have "in_call str1 str2 n p1 (with_il il1) \<or> (p1 = Return False \<and> serving str1 str2 n (with_il il1))"
    using f(3,4) p(3,5) d(2) by (auto simp: in_call_def held_def)
  with that [OF f(1,2)] d(1) f(1) show thesis by simp
qed

subsection \<open>All threads\<close>

definition thread_inv :: "byte list \<Rightarrow> byte list \<Rightarrow> nat \<Rightarrow> fault + test_globals \<Rightarrow> bool" where
  "thread_inv str1 str2 n x \<longleftrightarrow> (\<exists>g. x = Inr g \<and> \<not> test_failed g \<and> serving str1 str2 n (t_ec g))"

fun thread_outside :: "byte list \<Rightarrow> byte list \<Rightarrow> role \<times> thread_pc \<Rightarrow> bool" where
  "thread_outside str1 str2 (r, Running i p) \<longleftrightarrow>
     p = Return False \<or> (\<exists>e rnum. p = thread_call r e rnum str1 str2 1)"
| "thread_outside str1 str2 _ \<longleftrightarrow> True"

definition thread_inside :: "byte list \<Rightarrow> byte list \<Rightarrow> nat \<Rightarrow> role \<times> thread_pc \<Rightarrow> fault + test_globals \<Rightarrow> bool" where
  "thread_inside str1 str2 n t x \<longleftrightarrow>
     (\<exists>r i p g. t = (r, Running i p) \<and> x = Inr g \<and> \<not> test_failed g \<and> in_call str1 str2 n p (t_ec g))"

text \<open>An iteration is at most 552 accesses, the call, its result and the look at the flags.\<close>

fun thread_rank :: "role \<times> thread_pc \<Rightarrow> nat" where
  "thread_rank (r, Call i) = 555 * (N_READ_WRITE_TEST - Suc i) + 555"
| "thread_rank (r, Running i p) = 555 * (N_READ_WRITE_TEST - Suc i) + 2 + depth p"
| "thread_rank (r, Check i) = 555 * (N_READ_WRITE_TEST - Suc i) + 1"
| "thread_rank (r, Done) = 0"

lemma thread_inv_mono: "thread_inv str1 str2 n x \<Longrightarrow> n \<le> m \<Longrightarrow> thread_inv str1 str2 m x"
  using serving_mono by (fastforce simp: thread_inv_def)

lemma thread_call_depth: "depth (thread_call r e rnum str1 str2 1) \<le> 552"
  using thread_call_locked [of r e rnum str1 str2] by (auto simp: locked_call_def intro: depth_le)

lemma depth_Return [simp]: "depth (Return x) = 0"
  using depth_le [of 0 "Return x"] by simp

lemma idle_act:
  assumes "thread_inv str1 str2 n x" and "n < 2 ^ 31" and "thread_outside str1 str2 t" and "thread_act str1 str2 1 t x (t', x')"
  shows "(thread_inv str1 str2 (Suc n) x' \<and> thread_outside str1 str2 t') \<or> thread_inside str1 str2 (Suc n) t' x'"
proof -
  obtain g where g: "x = Inr g" "\<not> test_failed g" "serving str1 str2 n (t_ec g)" using assms(1) by (auto simp: thread_inv_def)
  have mono: "thread_inv str1 str2 (Suc n) x" using thread_inv_mono [OF assms(1)] by simp
  have first: "\<exists>p il. f (client_il (t_ec g)) = Inr (p, il) \<and> in_call str1 str2 (Suc n) p (with_il il)"
    if "thread_outside str1 str2 (r, Running i (Access f))" for r i f
    using that call_begins [OF g(3) assms(2)] by (metis prog.distinct(3) prog.inject(3) thread_outside.simps(1))
  show ?thesis
    using assms(4)
  proof cases
    case (access f g' p il r i)
    with first [of r i f] assms(3) g(1,2) show ?thesis by (auto simp: thread_inside_def test_failed_def)
  next
    case (crash f g' e r i)
    with first [of r i f] assms(3) g(1) show ?thesis by auto
  next
    case (fail r i e g')
    with assms(3) call_begins [OF g(3) assms(2)] show ?thesis by (metis prog.distinct thread_outside.simps(1))
  next
    case (failed r i g')
    with assms(3) call_begins [OF g(3) assms(2)] show ?thesis by (metis prog.distinct prog.inject(1) thread_outside.simps(1))
  qed (use mono in \<open>auto simp: loop_head_def\<close>)
qed

lemma other_act:
  assumes "thread_inside str1 str2 n u x" and "thread_outside str1 str2 t" and "thread_act str1 str2 1 t x (t', x')"
  shows "thread_outside str1 str2 t' \<and> thread_inside str1 str2 (Suc n) u x'"
proof -
  obtain r0 i0 p0 g where u: "u = (r0, Running i0 p0)" "x = Inr g" "\<not> test_failed g" "in_call str1 str2 n p0 (t_ec g)"
    using assms(1) by (auto simp: thread_inside_def)
  have mono: "thread_inside str1 str2 (Suc n) u x" using u in_call_mono [of str1 str2 n p0 "t_ec g" "Suc n"] by (auto simp: thread_inside_def)
  have held: "held 1 (client_il (t_ec g))" using u(4) by (simp add: in_call_def)
  have waits: "\<exists>f. p = Access f \<and> f (client_il (t_ec g)) = Inl Would_block"
    if out: "thread_outside str1 str2 (r, Running i p)" and "p \<noteq> Return False" for r i p
    using thread_call_waits [OF held] out \<open>p \<noteq> Return False\<close> by auto
  show ?thesis
    using assms(3)
  proof cases
    case (access f g' p il r i)
    with waits [of r i "Access f"] assms(2) u(2) show ?thesis by auto
  next
    case (crash f g' e r i)
    with waits [of r i "Access f"] assms(2) u(2) show ?thesis by auto
  next
    case (fail r i e g')
    with waits [of r i "Fail e"] assms(2) show ?thesis by auto
  next
    case (failed r i g')
    with waits [of r i "Return True"] assms(2) show ?thesis by auto
  qed (use mono in \<open>auto simp: loop_head_def\<close>)
qed

lemma inside_act:
  assumes "thread_inside str1 str2 n t x" and "thread_act str1 str2 1 t x (t', x')"
  shows "(thread_inv str1 str2 (Suc n) x' \<and> thread_outside str1 str2 t') \<or> thread_inside str1 str2 (Suc n) t' x'"
    and "thread_rank t' < thread_rank t"
proof -
  obtain r i p g where t: "t = (r, Running i p)" "x = Inr g" "\<not> test_failed g" "in_call str1 str2 n p (t_ec g)"
    using assms(1) by (auto simp: thread_inside_def)
  obtain f p1 il where f: "p = Access f" "f (client_il (t_ec g)) = Inr (p1, il)" "depth p1 < depth p"
      "in_call str1 str2 n p1 (with_il il) \<or> (p1 = Return False \<and> serving str1 str2 n (with_il il))"
    by (rule call_goes_on [OF t(4)])
  have eq: "t' = (r, Running i p1)" "x' = Inr (g\<lparr>t_ec := with_il il\<rparr>)"
    using assms(2) [unfolded t(1,2) f(1)] f(2) by (auto elim: thread_actE)
  show "thread_rank t' < thread_rank t" using eq t(1) f(3) by simp
  have "\<not> test_failed (g\<lparr>t_ec := with_il il\<rparr>)" using t(3) by (simp add: test_failed_def)
  with eq f(4) in_call_mono [of str1 str2 n p1 "with_il il" "Suc n"] serving_mono [of str1 str2 n "with_il il" "Suc n"]
  show "(thread_inv str1 str2 (Suc n) x' \<and> thread_outside str1 str2 t') \<or> thread_inside str1 str2 (Suc n) t' x'"
    by (auto simp: thread_inv_def thread_inside_def)
qed

lemma outside_rank:
  assumes "thread_outside str1 str2 t" and "thread_act str1 str2 1 t x (t', x')"
  shows "thread_rank t' < thread_rank t"
  using assms(2)
proof cases
  case (access f g p il r i)
  then have "thread_outside str1 str2 (r, Running i (Access f))" using assms(1) by simp
  then obtain e rnum where "Access f = thread_call r e rnum str1 str2 1" by auto
  then have "bounded 552 (Access f)" using thread_call_locked [of r e rnum str1 str2] by (auto simp: locked_call_def)
  with depth_step(1) access show ?thesis by simp
next
  case (call r i g e rnum)
  then show ?thesis using thread_call_depth [of r e rnum str1 str2] by simp
qed (auto simp: loop_head_def)

interpretation tt: serialized_threads "thread_act str1 str2 1" "thread_inv str1 str2" "thread_outside str1 str2"
  "thread_inside str1 str2" thread_rank "2 ^ 31" for str1 str2
proof
  fix n x t
  assume inv: "thread_inv str1 str2 n x" and n: "n < 2 ^ 31" and out: "thread_outside str1 str2 t" and "0 < thread_rank t"
  obtain g where g: "x = Inr g" "serving str1 str2 n (t_ec g)" using inv by (auto simp: thread_inv_def)
  obtain r pc where t: "t = (r, pc)" by (cases t)
  show "\<exists>t' x'. thread_act str1 str2 1 t x (t', x')"
  proof (cases pc)
    case (Call i)
    then show ?thesis using t g(1) thread_act.call by blast
  next
    case (Running i p)
    consider "p = Return False" | e rnum where "p = thread_call r e rnum str1 str2 1" using out t Running by auto
    then show ?thesis
    proof cases
      case 1
      then show ?thesis using t g(1) Running thread_act.passed by blast
    next
      case (2 e rnum)
      with call_begins [OF g(2) n, of r e rnum] t g(1) Running thread_act.access show ?thesis by metis
    qed
  next
    case (Check i)
    then show ?thesis using t g(1) thread_act.check by blast
  qed (use t \<open>0 < thread_rank t\<close> in simp)
next
  fix n t x
  assume "thread_inside str1 str2 n t x"
  then obtain r i p g where t: "t = (r, Running i p)" "x = Inr g" "in_call str1 str2 n p (t_ec g)"
    by (auto simp: thread_inside_def)
  then show "\<exists>t' x'. thread_act str1 str2 1 t x (t', x')"
    using call_goes_on [OF t(3)] thread_act.access by metis
qed (rule idle_act, assumption+, rule other_act, assumption+, rule inside_act, assumption+,
    rule outside_rank, assumption+, rule inside_act, assumption+)

lemma finished_rank: "finished = (\<lambda>t. thread_rank t = 0)"
proof
  fix t show "finished t \<longleftrightarrow> thread_rank t = 0" by (cases t rule: thread_rank.cases) (auto simp: finished_def)
qed

lemma test_threads_rank: "sum_list (map thread_rank test_threads) = 22200000"
  by (simp add: test_threads_def loop_head_def N_READ_WRITE_TEST_def)

text \<open>A phase: the four threads can all finish, and whenever they have, nothing has failed.\<close>

lemma phase_system:
  assumes "thread_inv str1 str2 n (Inr g)"
  shows "tt.system str1 str2 n test_threads (Inr g)"
proof -
  have "thread_outside str1 str2 (r, loop_head 0)" for r by (simp add: loop_head_def)
  then show ?thesis using assms by (auto simp: tt.system_def test_threads_def less_Suc_eq numeral_eq_Suc)
qed

lemma phase_ok:
  assumes "thread_inv str1 str2 n (Inr g)" and "n + 22200000 \<le> 2 ^ 31"
  shows "\<exists>x. joined (thread_act str1 str2 1) finished test_threads (Inr g) x"
    and "joined (thread_act str1 str2 1) finished test_threads (Inr g) x \<Longrightarrow> thread_inv str1 str2 (n + 22200000) x"
proof -
  have lim: "n + sum_list (map thread_rank test_threads) \<le> 2 ^ 31" using assms(2) by (simp add: test_threads_rank)
  note sys = phase_system [OF assms(1)]
  show "\<exists>x. joined (thread_act str1 str2 1) finished test_threads (Inr g) x"
    unfolding finished_rank by (rule tt.can_finish [OF sys lim])
  assume j: "joined (thread_act str1 str2 1) finished test_threads (Inr g) x"
  show "thread_inv str1 str2 (n + 22200000) x"
    by (rule tt.joined_idle [OF j [unfolded finished_rank] sys lim]) (use thread_inv_mono in \<open>simp add: test_threads_rank\<close>)
qed

subsection \<open>The program passes\<close>

text \<open>The first file of a new client, and the first put to it.\<close>

lemma first_file:
  fixes e e' :: call_env
  assumes "client_inv n c" and "n + 2 \<le> 2 ^ 31" and "abs_fs (client_bl c) = [0 \<mapsto> (1, [])]" and "good_size s"
  obtains c1 c2 where "client_create (e_stk e) (e_times e) c 2 = Inr (OK, 1, c1)"
    and "client_put (e_stk e') (e_tid e') c1 1 s = Inr (OK, c2)" and "client_inv (n + 2) c2"
    and "abs_fs (client_bl c2) = the_table s"
proof -
  have cl: "clean (abs_fs (client_bl c)) (Create 2)" using assms(3) by (auto intro!: exI [of _ 1])
  have free: "a_free (abs_fs (client_bl c)) = 1" unfolding assms(3) by (rule a_free_eqI) auto
  obtain fid c1 where c1: "client_create (e_stk e) (e_times e) c 2 = Inr (OK, fid, c1)" "unat fid = 1"
      "client_inv (Suc n) c1" "abs_fs (client_bl c1) = the_table []"
    using client_create_clean [OF assms(1) _ cl, of e] assms(2,3) free by (auto simp: the_table_def)
  have fid: "fid = 1" using c1(2) by (simp add: word_unat_eq_iff)
  obtain c2 where "client_put (e_stk e') (e_tid e') c1 1 s = Inr (OK, c2)" "client_inv (Suc (Suc n)) c2"
      "abs_fs (client_bl c2) = the_table s"
    using client_put_clean [OF c1(3), of 1 s e'] the_table_put [of "[]" s] assms(2,4) c1(4) by auto
  with that c1(1) fid show thesis by simp
qed

lemma prepare_ok:
  assumes "client_inv n c" and "n + 3 \<le> 2 ^ 31" and "abs_fs (client_bl c) = [0 \<mapsto> (1, [])]"
  obtains c' where
    "prepare inp c = Inr (Inr (1, letters (p2_rnd1 inp) 32768, letters (p2_rnd2 inp) 32768, c'))"
    and "client_inv (n + 3) c'" and "abs_fs (client_bl c') = the_table (letters (p2_rnd1 inp) 32768)"
proof -
  let ?E = "p2_env inp" and ?s = "letters (p2_rnd1 inp) 32768"
  let ?b = "(fill_letters (p2_rnd1 inp) 32768 (p2_mem inp))(32768 := 0)"
  have good: "good_size ?s" by (simp add: good_size_def)
  have one: "unat (inum_of 1) = 1" by (simp add: unat_inum_of)
  obtain c1 c2 where c1: "client_create (e_stk (?E 0)) (e_times (?E 0)) c 2 = Inr (OK, 1, c1)"
    and c2: "client_put (e_stk (?E 1)) (e_tid (?E 1)) c1 1 ?s = Inr (OK, c2)" "client_inv (n + 2) c2"
      "abs_fs (client_bl c2) = the_table ?s"
    by (rule first_file [OF assms(1) _ assms(3) good, of "?E 0" "?E 1"]) (use assms(2) in auto)
  have s1: "string_of 32769 ?b = Inr ?s" by (rule string_of_letters) auto
  have "abs_fs (client_bl c2) (unat (inum_of 1)) = Some (2, ?s)" using c2(3) one by (simp add: the_table_def)
  then obtain c3 where c3: "client_get (e_stk (?E 2)) (e_tid (?E 2)) (e_now (?E 2)) c2 1 = Inr (OK, ?s, c3)"
      "client_inv (n + 3) c3" "abs_fs (client_bl c3) = abs_fs (client_bl c2)"
    using client_get_clean [OF c2(2), of 1 2 ?s "?E 2"] assms(2) by (auto simp: numeral_3_eq_3)
  have s2: "string_of 32769 (fill_letters (p2_rnd2 inp) 32768 ?b) = Inr (letters (p2_rnd2 inp) 32768)"
    by (rule string_of_letters) (auto simp: fill_letters_out)
  show thesis
    by (rule that [of c3]) (use c1 s1 c2 c3 s2 in \<open>simp_all add: prepare_def\<close>)
qed




subsection \<open>Properties\<close>


definition demo_input2 :: part2_input where
  "demo_input2 = \<lparr>p2_rnd1 = (\<lambda>i. i), p2_rnd2 = (\<lambda>i. i * i), p2_rnd3 = (\<lambda>_. 4), p2_mem = (\<lambda>_. 0),
     p2_mem2 = (\<lambda>_. 0), p2_env = (\<lambda>_. \<lparr>e_stk = (\<lambda>_ _. 0), e_tid = 0, e_now = 0, e_times = (0, 0, 0)\<rparr>),
     p2_spawn1 = True, p2_spawn2 = True\<rparr>"


text \<open>
  C40: The threads of part 2 terminate under every schedule of their accesses to the disk and the
  locks. Let the client keep the invariant after \<open>n\<close> calls, \<open>n + 22200000 \<le> 2\<^sup>3\<^sup>1\<close>, and have the root
  directory and one file that holds \<open>str1\<close>, and let both strings have 32768 or 65536 bytes. Then
  a run of the four threads has at most 22200000 steps, and it stops only when all of them have
  finished their loops: no thread is left waiting for the lock of the file.
\<close>

theorem test_threads_terminate:
  assumes "client_inv n c" and "n + 22200000 \<le> 2 ^ 31" and "abs_fs (client_bl c) = the_table str1"
    and "good_size str1" and "good_size str2"
    and "(interleave (thread_act str1 str2 1) ^^ m) (test_threads, Inr (start_globals c)) (ts, x)"
  shows "m \<le> 22200000 \<and> ((\<forall>cfg. \<not> interleave (thread_act str1 str2 1) (ts, x) cfg) \<longrightarrow> list_all finished ts)"
proof -
  have inv: "thread_inv str1 str2 n (Inr (start_globals c))"
    using assms(1,3,4,5) by (auto simp: thread_inv_def start_globals_def test_failed_def serving_def)
  have lim: "n + sum_list (map thread_rank test_threads) \<le> 2 ^ 31" using assms(2) by (simp add: test_threads_rank)
  note run = tt.run_bounded [OF assms(6) phase_system [OF inv] lim]
  then have "n + m + sum_list (map thread_rank ts) \<le> 2 ^ 31" using lim by simp
  with tt.stuck_finished [of str1 str2 "n + m" ts x] run test_threads_rank
  show ?thesis by (auto simp: finished_rank)
qed

theorem test_threads_terminate_witness:
  "\<exists>c m ts x. (interleave (thread_act (letters (\<lambda>_. 3) 32768) (letters (\<lambda>_. 5) 32768) 1) ^^ m)
       (test_threads, Inr (start_globals c)) (ts, x) \<and> list_all finished ts \<and> m \<le> 22200000"
proof -
  let ?s1 = "letters (\<lambda>_. 3) 32768" and ?s2 = "letters (\<lambda>_. 5) 32768"
  obtain c0 where c0: "client_inv 0 c0" "abs_fs (client_bl c0) = [0 \<mapsto> (1, [])]"
    using new_client_inv [of "\<lambda>_ _. 0" "(0, 0, 0)"] by blast
  obtain c where c: "client_inv 3 c" "abs_fs (client_bl c) = the_table ?s1"
    using prepare_ok [OF c0(1) _ c0(2), of "demo_input2\<lparr>p2_rnd1 := \<lambda>_. 3\<rparr>"] by auto
  have good: "good_size ?s1" "good_size ?s2" by (simp_all add: good_size_def)
  have inv: "thread_inv ?s1 ?s2 3 (Inr (start_globals c))"
    using c good by (auto simp: thread_inv_def start_globals_def test_failed_def serving_def)
  obtain x where "joined (thread_act ?s1 ?s2 1) finished test_threads (Inr (start_globals c)) x"
    using phase_ok(1) [OF inv] by auto
  then obtain ts m where r: "(interleave (thread_act ?s1 ?s2 1) ^^ m) (test_threads, Inr (start_globals c)) (ts, x)"
      "list_all finished ts"
    by (auto simp: joined_def dest!: rtranclp_imp_relpowp)
  have "m \<le> 22200000" using test_threads_terminate [OF c(1) _ c(2) good r(1)] by simp
  with r show ?thesis by blast
qed

end
