(* ===== verification/Tester_Part3.thy ===== *)
theory Tester_Part3
  imports Tester_Part2
begin

text \<open>
  \<open>part3_tester.cc\<close>: 400 readers of one file, each of which measures the time of its call. The
  place where writers should be started is empty in the source, so \<open>single_writer\<close> is defined
  and never runs. As in part 2 the threads interleave at every access of their calls; reading the
  clock before and after the call and noting an error are steps of their own. Clock readings are
  left open, and \<open>pthread_create\<close>, whose status the program does not look at, is taken to succeed.
\<close>

subsection \<open>The threads\<close>

text \<open>\<open>get_usec\<close> from the seconds and nanoseconds of \<open>clock_gettime\<close>.\<close>

definition get_usec :: "int \<Rightarrow> int \<Rightarrow> u64" where
  "get_usec tv_sec tv_nsec = word_of_int tv_sec * (1000 * 1000) + word_of_int (tv_nsec div 1000)"

record timed_globals =
  m_ec :: fs_client
  err_in_single_writer :: bool
  err_in_single_reader :: bool
  latencies :: "nat \<Rightarrow> u64"

datatype timed_pc = Begin | Started u64 | In_call u64 "bool io" | Called u64 | Ended

text \<open>The call of a thread and whether its result is an error.\<close>

definition single_writer :: "call_env \<Rightarrow> nat \<Rightarrow> byte list \<Rightarrow> byte list \<Rightarrow> fsid_t \<Rightarrow> bool io" where
  "single_writer e rnum str1 str2 fid =
     bindp (put_p (e_stk e) (e_tid e) fid (if rnum mod 2 \<noteq> 0 then str1 else str2)) (\<lambda>st.
       Return (st \<noteq> OK))"

definition single_reader :: "call_env \<Rightarrow> byte list \<Rightarrow> byte list \<Rightarrow> fsid_t \<Rightarrow> bool io" where
  "single_reader e str1 str2 fid =
     bindp (get_p (e_stk e) (e_tid e) (e_now e) fid) (\<lambda>(st, readbuf).
       Return (st \<noteq> OK \<or> str1 \<noteq> readbuf \<and> str2 \<noteq> readbuf))"

definition timed_call :: "role \<Rightarrow> call_env \<Rightarrow> nat \<Rightarrow> byte list \<Rightarrow> byte list \<Rightarrow> fsid_t \<Rightarrow> bool io" where
  "timed_call r e rnum str1 str2 fid =
     (case r of Writer \<Rightarrow> single_writer e rnum str1 str2 fid | Reader \<Rightarrow> single_reader e str1 str2 fid)"

definition note_error :: "role \<Rightarrow> bool \<Rightarrow> timed_globals \<Rightarrow> timed_globals" where
  "note_error r err g =
     (if \<not> err then g
      else case r of Writer \<Rightarrow> g\<lparr>err_in_single_writer := True\<rparr> | Reader \<Rightarrow> g\<lparr>err_in_single_reader := True\<rparr>)"

text \<open>A thread is its role, the index of its latency, and where it is.\<close>

inductive timed_act ::
    "byte list \<Rightarrow> byte list \<Rightarrow> fsid_t \<Rightarrow> role \<times> nat \<times> timed_pc \<Rightarrow> fault + timed_globals \<Rightarrow>
     (role \<times> nat \<times> timed_pc) \<times> (fault + timed_globals) \<Rightarrow> bool"
  for str1 str2 fid where
  start: "timed_act str1 str2 fid (r, k, Begin) (Inr g) ((r, k, Started (get_usec sec nsec)), Inr g)"
| call: "timed_act str1 str2 fid (r, k, Started t0) (Inr g)
    ((r, k, In_call t0 (timed_call r e rnum str1 str2 fid)), Inr g)"
| access: "f (client_il (m_ec g)) = Inr (p, il) \<Longrightarrow>
    timed_act str1 str2 fid (r, k, In_call t0 (Access f)) (Inr g) ((r, k, In_call t0 p), Inr (g\<lparr>m_ec := with_il il\<rparr>))"
| crash: "f (client_il (m_ec g)) = Inl e \<Longrightarrow> e \<noteq> Would_block \<Longrightarrow>
    timed_act str1 str2 fid (r, k, In_call t0 (Access f)) (Inr g) ((r, k, Ended), Inl e)"
| fail: "timed_act str1 str2 fid (r, k, In_call t0 (Fail e)) (Inr g) ((r, k, Ended), Inl e)"
| returned: "timed_act str1 str2 fid (r, k, In_call t0 (Return err)) (Inr g) ((r, k, Called t0), Inr (note_error r err g))"
| stop: "timed_act str1 str2 fid (r, k, Called t0) (Inr g)
    ((r, k, Ended), Inr (g\<lparr>latencies := (latencies g)(k := get_usec sec nsec - t0)\<rparr>))"

inductive_cases timed_actE: "timed_act str1 str2 fid (r, k, pc) x p"

definition nreader :: nat where "nreader = 400"

definition readers :: "(role \<times> nat \<times> timed_pc) list" where
  "readers = map (\<lambda>k. (Reader, k, Begin)) [0..<nreader]"

definition ended :: "role \<times> nat \<times> timed_pc \<Rightarrow> bool" where
  "ended t \<longleftrightarrow> snd (snd t) = Ended"

subsection \<open>The program\<close>

record part3_input =
  p3_rnd1 :: rng
  p3_rnd2 :: rng
  p3_mem1 :: buf
  p3_mem2 :: buf
  p3_env :: "nat \<Rightarrow> call_env"
  p3_latencies :: "nat \<Rightarrow> u64"

text \<open>\<open>test_concurrent\<close> up to the first \<open>pthread_create\<close>.\<close>

definition prepare3 ::
    "part3_input \<Rightarrow> fs_client \<Rightarrow> fault + ((int \<times> fs_client) + fsid_t \<times> byte list \<times> byte list \<times> fs_client)" where
  "prepare3 inp c =
     (let E = p3_env inp in
      rbind (client_create (e_stk (E 0)) (e_times (E 0)) c (ftype_code T_FILE)) (\<lambda>(_, fid, c).
      rbind (string_of (LARGE_FILE_SIZE + 1)
        ((fill_letters (p3_rnd1 inp) LARGE_FILE_SIZE (p3_mem1 inp))(LARGE_FILE_SIZE := 0))) (\<lambda>str1.
      rbind (string_of (LARGE_FILE_SIZE * 2 + 1)
        ((fill_letters (p3_rnd2 inp) (LARGE_FILE_SIZE * 2) (p3_mem2 inp))(LARGE_FILE_SIZE * 2 := 0))) (\<lambda>str2.
      rbind (client_put (e_stk (E 1)) (e_tid (E 1)) c fid str1) (\<lambda>(st, c).
      if st \<noteq> OK then Inr (Inl (7, c)) else Inr (Inr (fid, str1, str2, c)))))))"

text \<open>\<open>for (...) avg_reader_latency += reader_latencies[i]; avg_reader_latency /= nreader;\<close>.\<close>

definition average_latency :: "(nat \<Rightarrow> u64) \<Rightarrow> u64" where
  "average_latency lat = foldl (\<lambda>s k. s + lat k) 0 [0..<nreader] div word_of_nat nreader"

definition start_timed :: "part3_input \<Rightarrow> fs_client \<Rightarrow> timed_globals" where
  "start_timed inp c = \<lparr>m_ec = c, err_in_single_writer = False, err_in_single_reader = False,
     latencies = p3_latencies inp\<rparr>"

text \<open>
  The possible results of \<open>test_concurrent\<close>: the return code, the average and the final globals.
  The writers' average stays 0.
\<close>

inductive test_timed ::
    "part3_input \<Rightarrow> fs_client \<Rightarrow> fault + (int \<times> u64 \<times> timed_globals) \<Rightarrow> bool"
  for inp c where
  prepare_fault: "prepare3 inp c = Inl f \<Longrightarrow> test_timed inp c (Inl f)"
| prepare_error: "prepare3 inp c = Inr (Inl (rc, c1)) \<Longrightarrow> test_timed inp c (Inr (rc, 0, start_timed inp c1))"
| threads: "prepare3 inp c = Inr (Inr (fid, str1, str2, c1)) \<Longrightarrow>
    joined (timed_act str1 str2 fid) ended readers (Inr (start_timed inp c1)) x \<Longrightarrow>
    r = rbind x (\<lambda>g. Inr (0, average_latency (latencies g), g)) \<Longrightarrow> test_timed inp c r"

inductive_cases test_timedE: "test_timed inp c r"

text \<open>
  What \<open>main\<close> reports: the usage message, a warning about a bug, or the total time in
  milliseconds between its two readings of the clock.
\<close>

datatype report = Usage | Probably_a_bug | Total_latency u64

definition part3_main ::
    "stack \<Rightarrow> u64 \<times> u64 \<times> u64 \<Rightarrow> bool \<Rightarrow> part3_input \<Rightarrow> u64 \<Rightarrow> u64 \<Rightarrow> int \<Rightarrow> fault + (int \<times> report) \<Rightarrow> bool" where
  "part3_main stk ts m0 inp t_start t_end argc r \<longleftrightarrow>
     (if argc \<noteq> 1 then r = Inr (1, Usage)
      else case new_fs_client stk ts m0 of
        Inl f \<Rightarrow> r = Inl f
      | Inr c \<Rightarrow> (\<exists>r'. test_timed inp c r' \<and> r = rbind r' (\<lambda>(err, _, g).
          Inr (0, if err \<noteq> 0 \<or> err_in_single_writer g \<or> err_in_single_reader g then Probably_a_bug
                  else Total_latency ((t_end - t_start) div 1000)))))"

subsection \<open>The readers read one of the two strings\<close>

lemma timed_call_eq: "timed_call = thread_call"
  by (intro ext) (simp add: timed_call_def thread_call_def single_writer_def single_reader_def
      single_repeated_writer_def single_repeated_reader_def split: role.splits)

definition no_bug :: "timed_globals \<Rightarrow> bool" where
  "no_bug g \<longleftrightarrow> \<not> err_in_single_writer g \<and> \<not> err_in_single_reader g"

definition timed_inv :: "byte list \<Rightarrow> byte list \<Rightarrow> nat \<Rightarrow> fault + timed_globals \<Rightarrow> bool" where
  "timed_inv str1 str2 n x \<longleftrightarrow> (\<exists>g. x = Inr g \<and> no_bug g \<and> serving str1 str2 n (m_ec g))"

fun timed_outside :: "byte list \<Rightarrow> byte list \<Rightarrow> role \<times> nat \<times> timed_pc \<Rightarrow> bool" where
  "timed_outside str1 str2 (r, k, In_call t0 p) \<longleftrightarrow>
     p = Return False \<or> (\<exists>e rnum. p = thread_call r e rnum str1 str2 1)"
| "timed_outside str1 str2 _ \<longleftrightarrow> True"

definition timed_inside :: "byte list \<Rightarrow> byte list \<Rightarrow> nat \<Rightarrow> role \<times> nat \<times> timed_pc \<Rightarrow> fault + timed_globals \<Rightarrow> bool" where
  "timed_inside str1 str2 n t x \<longleftrightarrow>
     (\<exists>r k t0 p g. t = (r, k, In_call t0 p) \<and> x = Inr g \<and> no_bug g \<and> in_call str1 str2 n p (m_ec g))"

fun timed_rank :: "role \<times> nat \<times> timed_pc \<Rightarrow> nat" where
  "timed_rank (r, k, Begin) = 556"
| "timed_rank (r, k, Started _) = 555"
| "timed_rank (r, k, In_call _ p) = 2 + depth p"
| "timed_rank (r, k, Called _) = 1"
| "timed_rank (r, k, Ended) = 0"

lemma no_bug_simps [simp]: "no_bug (g\<lparr>m_ec := c\<rparr>) = no_bug g" "no_bug (g\<lparr>latencies := l\<rparr>) = no_bug g"
  "note_error r False g = g"
  by (simp_all add: no_bug_def note_error_def)

lemma timed_inv_mono: "timed_inv str1 str2 n (Inr g) \<Longrightarrow> n \<le> m \<Longrightarrow> timed_inv str1 str2 m (Inr (g\<lparr>latencies := l\<rparr>))"
  using serving_mono by (fastforce simp: timed_inv_def)

lemma timed_inside_mono:
  "timed_inside str1 str2 n t (Inr g) \<Longrightarrow> n \<le> m \<Longrightarrow> timed_inside str1 str2 m t (Inr (g\<lparr>latencies := l\<rparr>))"
  using in_call_mono by (fastforce simp: timed_inside_def)

lemma timed_idle_act:
  assumes "timed_inv str1 str2 n x" and "n < 2 ^ 31" and "timed_outside str1 str2 t" and "timed_act str1 str2 1 t x (t', x')"
  shows "(timed_inv str1 str2 (Suc n) x' \<and> timed_outside str1 str2 t') \<or> timed_inside str1 str2 (Suc n) t' x'"
proof -
  obtain g where g: "x = Inr g" "no_bug g" "serving str1 str2 n (m_ec g)" using assms(1) by (auto simp: timed_inv_def)
  have mono: "timed_inv str1 str2 (Suc n) (Inr (g\<lparr>latencies := l\<rparr>))" for l using timed_inv_mono assms(1) g(1) by simp
  have mono': "timed_inv str1 str2 (Suc n) (Inr g)" using mono [of "latencies g"] by simp
  have first: "\<exists>f p' il. p = Access f \<and> f (client_il (m_ec g)) = Inr (p', il) \<and> in_call str1 str2 (Suc n) p' (with_il il)"
    if "timed_outside str1 str2 (r, k, In_call t0 p)" "p \<noteq> Return False" for r k t0 p
    using that call_begins [OF g(3) assms(2)] by (metis timed_outside.simps(1))
  show ?thesis
    using assms(4)
  proof cases
    case (access f g' p il r k t0)
    with first [of r k t0 "Access f"] assms(3) g(1,2) show ?thesis by (auto simp: timed_inside_def)
  next
    case (crash f g' e r k t0)
    with first [of r k t0 "Access f"] assms(3) g(1) show ?thesis by auto
  next
    case (fail r k t0 e g')
    with first [of r k t0 "Fail e"] assms(3) show ?thesis by auto
  next
    case (returned r k t0 err g')
    with first [of r k t0 "Return err"] assms(3) have "\<not> err" by auto
    with returned mono' g(1) show ?thesis by auto
  qed (use mono mono' g(1) in \<open>auto simp: timed_call_eq\<close>)
qed

lemma timed_other_act:
  assumes "timed_inside str1 str2 n u x" and "timed_outside str1 str2 t" and "timed_act str1 str2 1 t x (t', x')"
  shows "timed_outside str1 str2 t' \<and> timed_inside str1 str2 (Suc n) u x'"
proof -
  obtain g where x: "x = Inr g" "held 1 (client_il (m_ec g))" using assms(1) by (auto simp: timed_inside_def in_call_def)
  have mono: "timed_inside str1 str2 (Suc n) u (Inr (g\<lparr>latencies := l\<rparr>))" for l using timed_inside_mono assms(1) x(1) by simp
  have mono': "timed_inside str1 str2 (Suc n) u (Inr g)" using mono [of "latencies g"] by simp
  have waits: "\<exists>f. p = Access f \<and> f (client_il (m_ec g)) = Inl Would_block"
    if out: "timed_outside str1 str2 (r, k, In_call t0 p)" and "p \<noteq> Return False" for r k t0 p
    using thread_call_waits [OF x(2)] out \<open>p \<noteq> Return False\<close> by auto
  show ?thesis
    using assms(3)
  proof cases
    case (access f g' p il r k t0)
    with waits [of r k t0 "Access f"] assms(2) x(1) show ?thesis by auto
  next
    case (crash f g' e r k t0)
    with waits [of r k t0 "Access f"] assms(2) x(1) show ?thesis by auto
  next
    case (fail r k t0 e g')
    with waits [of r k t0 "Fail e"] assms(2) show ?thesis by auto
  next
    case (returned r k t0 err g')
    with waits [of r k t0 "Return err"] assms(2) have "\<not> err" by auto
    with returned mono' x(1) show ?thesis by auto
  qed (use mono mono' x(1) in \<open>auto simp: timed_call_eq\<close>)
qed

lemma timed_inside_act:
  assumes "timed_inside str1 str2 n t x" and "timed_act str1 str2 1 t x (t', x')"
  shows "(timed_inv str1 str2 (Suc n) x' \<and> timed_outside str1 str2 t') \<or> timed_inside str1 str2 (Suc n) t' x'"
    and "timed_rank t' < timed_rank t"
proof -
  obtain r k t0 p g where t: "t = (r, k, In_call t0 p)" "x = Inr g" "no_bug g" "in_call str1 str2 n p (m_ec g)"
    using assms(1) by (auto simp: timed_inside_def)
  obtain f p1 il where f: "p = Access f" "f (client_il (m_ec g)) = Inr (p1, il)" "depth p1 < depth p"
      "in_call str1 str2 n p1 (with_il il) \<or> (p1 = Return False \<and> serving str1 str2 n (with_il il))"
    by (rule call_goes_on [OF t(4)])
  have eq: "t' = (r, k, In_call t0 p1)" "x' = Inr (g\<lparr>m_ec := with_il il\<rparr>)"
    using assms(2) [unfolded t(1,2) f(1)] f(2) by (auto elim: timed_actE)
  show "timed_rank t' < timed_rank t" using eq t(1) f(3) by simp
  from eq f(4) t(3) in_call_mono [of str1 str2 n p1 "with_il il" "Suc n"] serving_mono [of str1 str2 n "with_il il" "Suc n"]
  show "(timed_inv str1 str2 (Suc n) x' \<and> timed_outside str1 str2 t') \<or> timed_inside str1 str2 (Suc n) t' x'"
    by (auto simp: timed_inv_def timed_inside_def)
qed

lemma timed_outside_rank:
  assumes "timed_outside str1 str2 t" and "timed_act str1 str2 1 t x (t', x')"
  shows "timed_rank t' < timed_rank t"
  using assms(2)
proof cases
  case (access f g p il r k t0)
  then obtain e rnum where "Access f = thread_call r e rnum str1 str2 1" using assms(1) by auto
  then have "bounded 552 (Access f)" using thread_call_locked [of r e rnum str1 str2] by (auto simp: locked_call_def)
  with depth_step(1) access show ?thesis by simp
next
  case (call r k t0 g e rnum)
  then show ?thesis using thread_call_depth [of r e rnum str1 str2] by (simp add: timed_call_eq)
qed auto

interpretation tm: serialized_threads "timed_act str1 str2 1" "timed_inv str1 str2" "timed_outside str1 str2"
  "timed_inside str1 str2" timed_rank "2 ^ 31" for str1 str2
proof
  fix n x t
  assume inv: "timed_inv str1 str2 n x" and n: "n < 2 ^ 31" and out: "timed_outside str1 str2 t" and "0 < timed_rank t"
  obtain g where g: "x = Inr g" "serving str1 str2 n (m_ec g)" using inv by (auto simp: timed_inv_def)
  obtain r k pc where t: "t = (r, k, pc)" by (cases t)
  show "\<exists>t' x'. timed_act str1 str2 1 t x (t', x')"
  proof (cases pc)
    case (In_call t0 p)
    consider "p = Return False" | e rnum where "p = thread_call r e rnum str1 str2 1" using out t In_call by auto
    then show ?thesis
    proof cases
      case 1
      then show ?thesis using t g(1) In_call timed_act.returned by blast
    next
      case (2 e rnum)
      with call_begins [OF g(2) n, of r e rnum] t g(1) In_call timed_act.access show ?thesis by metis
    qed
  next
    case Begin
    then show ?thesis using t g(1) timed_act.start by blast
  next
    case Started
    then show ?thesis using t g(1) timed_act.call by blast
  next
    case Called
    then show ?thesis using t g(1) timed_act.stop by blast
  next
    case Ended
    then show ?thesis using t \<open>0 < timed_rank t\<close> by simp
  qed
next
  fix n t x
  assume "timed_inside str1 str2 n t x"
  then obtain r k t0 p g where t: "t = (r, k, In_call t0 p)" "x = Inr g" "in_call str1 str2 n p (m_ec g)"
    by (auto simp: timed_inside_def)
  then show "\<exists>t' x'. timed_act str1 str2 1 t x (t', x')"
    using call_goes_on [OF t(3)] timed_act.access by metis
qed (rule timed_idle_act, assumption+, rule timed_other_act, assumption+, rule timed_inside_act, assumption+,
    rule timed_outside_rank, assumption+, rule timed_inside_act, assumption+)

lemma ended_rank: "ended = (\<lambda>t. timed_rank t = 0)"
proof
  fix t show "ended t \<longleftrightarrow> timed_rank t = 0" by (cases t rule: timed_rank.cases) (auto simp: ended_def)
qed

lemma readers_rank: "sum_list (map timed_rank readers) = 222400"
  by (simp add: readers_def nreader_def comp_def sum_list_triv)

subsection \<open>Properties\<close>

lemma prepare3_ok:
  assumes "client_inv n c" and "n + 2 \<le> 2 ^ 31" and "abs_fs (client_bl c) = [0 \<mapsto> (1, [])]"
  obtains c' where
    "prepare3 inp c = Inr (Inr (1, letters (p3_rnd1 inp) 32768, letters (p3_rnd2 inp) 65536, c'))"
    and "serving (letters (p3_rnd1 inp) 32768) (letters (p3_rnd2 inp) 65536) (n + 2) c'"
proof -
  let ?s1 = "letters (p3_rnd1 inp) 32768" and ?s2 = "letters (p3_rnd2 inp) 65536" and ?E = "p3_env inp"
  have good: "good_size ?s1" "good_size ?s2" by (simp_all add: good_size_def)
  obtain c1 c2 where c: "client_create (e_stk (?E 0)) (e_times (?E 0)) c 2 = Inr (OK, 1, c1)"
      "client_put (e_stk (?E 1)) (e_tid (?E 1)) c1 1 ?s1 = Inr (OK, c2)" "client_inv (n + 2) c2"
      "abs_fs (client_bl c2) = the_table ?s1"
    by (rule first_file [OF assms(1,2,3) good(1), of "?E 0" "?E 1"])
  have "string_of 32769 ((fill_letters (p3_rnd1 inp) 32768 (p3_mem1 inp))(32768 := 0)) = Inr ?s1"
    "string_of 65537 ((fill_letters (p3_rnd2 inp) 65536 (p3_mem2 inp))(65536 := 0)) = Inr ?s2"
    by (rule string_of_letters; simp)+
  with c have "prepare3 inp c = Inr (Inr (1, ?s1, ?s2, c2))" by (simp add: prepare3_def)
  moreover have "serving ?s1 ?s2 (n + 2) c2" using c(3,4) good by (auto simp: serving_def)
  ultimately show thesis using that by blast
qed

text \<open>
  The program of part 3 reports the total time, and no bug, under every schedule of its 400
  readers and for every reading of the clocks.
\<close>

theorem part3_reports_time:
  "part3_main stk ts False inp t_start t_end 1 r \<longleftrightarrow> r = Inr (0, Total_latency ((t_end - t_start) div 1000))"
proof -
  obtain c where c: "new_fs_client stk ts False = Inr c" "client_inv 0 c" "abs_fs (client_bl c) = [0 \<mapsto> (1, [])]"
    using new_client_inv by blast
  let ?s1 = "letters (p3_rnd1 inp) 32768" and ?s2 = "letters (p3_rnd2 inp) 65536"
  obtain c' where p: "prepare3 inp c = Inr (Inr (1, ?s1, ?s2, c'))" "serving ?s1 ?s2 (0 + 2) c'"
    by (rule prepare3_ok [OF c(2) _ c(3), of inp]) auto
  have "timed_inv ?s1 ?s2 2 (Inr (start_timed inp c'))"
    using p(2) by (simp add: timed_inv_def start_timed_def no_bug_def numeral_2_eq_2)
  then have sys: "tm.system ?s1 ?s2 2 readers (Inr (start_timed inp c'))"
    by (auto simp: tm.system_def readers_def)
  have lim: "2 + sum_list (map timed_rank readers) \<le> 2 ^ 31" by (simp add: readers_rank)
  have good: "\<exists>g. x = Inr g \<and> \<not> err_in_single_writer g \<and> \<not> err_in_single_reader g"
    if "joined (timed_act ?s1 ?s2 1) ended readers (Inr (start_timed inp c')) x" for x
    by (rule tm.joined_idle [OF that [unfolded ended_rank] sys lim]) (auto simp: timed_inv_def no_bug_def)
  obtain x where x: "joined (timed_act ?s1 ?s2 1) ended readers (Inr (start_timed inp c')) x"
    using tm.can_finish [OF sys lim] unfolding ended_rank by blast
  have one: "\<exists>err avg g. r' = Inr (err, avg, g) \<and> err = 0 \<and> \<not> err_in_single_writer g \<and> \<not> err_in_single_reader g"
    if "test_timed inp c r'" for r'
    using that by (rule test_timedE) (use p(1) good in fastforce)+
  obtain g where g: "x = Inr g" using good [OF x] by blast
  have ex: "test_timed inp c (Inr (0, average_latency (latencies g), g))"
    using test_timed.threads [OF p(1) x, unfolded g, OF refl] by simp
  show ?thesis
    using one ex one [OF ex] c(1) by (fastforce simp: part3_main_def)
qed

end
