(* ===== verification/Thread_Helpers.thy ===== *)
theory Thread_Helpers
  imports Prelude
begin

text \<open>
  \<open>rpc/method_thread.h\<close> and the job wrapper of \<open>rpc/thr_pool.h\<close>: a method of an object is packed
  into a heap object, the address travels through \<open>pthread_create\<close> or the job queue, and the
  thread that gets it unpacks the object, deletes it and calls the method. A method is a
  function of its object, its arguments and a state \<open>'s\<close>. The results of the \<open>pthread\<close> functions
  are inputs (\<open>os\<close>), and so is \<open>addJob\<close>, which is compiled into \<open>librpc.a\<close>.
\<close>

subsection \<open>Heap objects\<close>

record 'w memory =
  m_next :: nat
  m_cells :: "nat \<rightharpoonup> 'w"

definition mem_new :: "'w \<Rightarrow> 'w memory \<Rightarrow> nat \<times> 'w memory" where
  "mem_new w M = (m_next M, M\<lparr>m_next := Suc (m_next M), m_cells := (m_cells M)(m_next M \<mapsto> w)\<rparr>)"

definition mem_read :: "nat \<Rightarrow> 'w memory \<Rightarrow> fault + 'w" where
  "mem_read p M = (case m_cells M p of None \<Rightarrow> Inl Dangling | Some w \<Rightarrow> Inr w)"

definition mem_delete :: "nat \<Rightarrow> 'w memory \<Rightarrow> fault + 'w memory" where
  "mem_delete p M =
     (if m_cells M p = None then Inl Dangling else Inr (M\<lparr>m_cells := (m_cells M)(p := None)\<rparr>))"

definition mem_ok :: "'w memory \<Rightarrow> bool" where
  "mem_ok M \<longleftrightarrow> (\<forall>p \<ge> m_next M. m_cells M p = None)"

subsection \<open>Starting a thread\<close>

text \<open>What the \<open>pthread\<close> functions return: zero is success.\<close>

record os_results =
  os_create :: int
  os_thread :: nat
  os_detach :: int
  os_cancelstate :: int
  os_canceltype :: int

text \<open>The thread that \<open>pthread_create\<close> started: its id, the function it runs and its argument.\<close>

record ('m, 's) new_thread =
  th_id :: nat
  th_fn :: "nat \<Rightarrow> 'm \<Rightarrow> 's \<Rightarrow> fault + ('m \<times> 's)"
  th_arg :: nat

definition method_thread_parent ::
    "os_results \<Rightarrow> (nat \<Rightarrow> 'm \<Rightarrow> 's \<Rightarrow> fault + ('m \<times> 's)) \<Rightarrow> nat \<Rightarrow> bool \<Rightarrow> fault + ('m, 's) new_thread" where
  "method_thread_parent os fn arg detach =
     (if os_create os \<noteq> 0 then Inl Exit_called
      else rbind (if detach then VERIFY (os_detach os = 0) else Inr ()) (\<lambda>_.
        Inr \<lparr>th_id = os_thread os, th_fn = fn, th_arg = arg\<rparr>))"

definition method_thread_child :: "os_results \<Rightarrow> fault + unit" where
  "method_thread_child os =
     rbind (VERIFY (os_cancelstate os = 0)) (\<lambda>_. VERIFY (os_canceltype os = 0))"

subsection \<open>Methods without arguments and with one, two and three\<close>

record ('o, 's) xxx0 =
  o0 :: 'o
  m0 :: "'o \<Rightarrow> 's \<Rightarrow> fault + 's"

definition yyy0 :: "os_results \<Rightarrow> nat \<Rightarrow> ('o, 's) xxx0 memory \<Rightarrow> 's \<Rightarrow> fault + (('o, 's) xxx0 memory \<times> 's)" where
  "yyy0 os vvv M s =
     rbind (mem_read vvv M) (\<lambda>x.
     rbind (mem_delete vvv M) (\<lambda>M.
     rbind (method_thread_child os) (\<lambda>_.
     rbind (m0 x (o0 x) s) (\<lambda>s. Inr (M, s)))))"

definition method_thread0 ::
    "os_results \<Rightarrow> 'o \<Rightarrow> bool \<Rightarrow> ('o \<Rightarrow> 's \<Rightarrow> fault + 's) \<Rightarrow> ('o, 's) xxx0 memory \<Rightarrow>
     fault + ((('o, 's) xxx0 memory, 's) new_thread \<times> ('o, 's) xxx0 memory)" where
  "method_thread0 os ob detach m M =
     (let (x, M) = mem_new \<lparr>o0 = ob, m0 = m\<rparr> M
      in rbind (method_thread_parent os (yyy0 os) x detach) (\<lambda>th. Inr (th, M)))"

record ('o, 'a, 's) xxx1 =
  o1 :: 'o
  m1 :: "'o \<Rightarrow> 'a \<Rightarrow> 's \<Rightarrow> fault + 's"
  a1_1 :: 'a

definition yyy1 ::
    "os_results \<Rightarrow> nat \<Rightarrow> ('o, 'a, 's) xxx1 memory \<Rightarrow> 's \<Rightarrow> fault + (('o, 'a, 's) xxx1 memory \<times> 's)" where
  "yyy1 os vvv M s =
     rbind (mem_read vvv M) (\<lambda>x.
     rbind (mem_delete vvv M) (\<lambda>M.
     rbind (method_thread_child os) (\<lambda>_.
     rbind (m1 x (o1 x) (a1_1 x) s) (\<lambda>s. Inr (M, s)))))"

definition method_thread1 ::
    "os_results \<Rightarrow> 'o \<Rightarrow> bool \<Rightarrow> ('o \<Rightarrow> 'a \<Rightarrow> 's \<Rightarrow> fault + 's) \<Rightarrow> 'a \<Rightarrow> ('o, 'a, 's) xxx1 memory \<Rightarrow>
     fault + ((('o, 'a, 's) xxx1 memory, 's) new_thread \<times> ('o, 'a, 's) xxx1 memory)" where
  "method_thread1 os ob detach m a M =
     (let (x, M) = mem_new \<lparr>o1 = ob, m1 = m, a1_1 = a\<rparr> M
      in rbind (method_thread_parent os (yyy1 os) x detach) (\<lambda>th. Inr (th, M)))"

record ('o, 'a1, 'a2, 's) xxx2 =
  o2 :: 'o
  m2 :: "'o \<Rightarrow> 'a1 \<Rightarrow> 'a2 \<Rightarrow> 's \<Rightarrow> fault + 's"
  a1_2 :: 'a1
  a2_2 :: 'a2

definition yyy2 ::
    "os_results \<Rightarrow> nat \<Rightarrow> ('o, 'a1, 'a2, 's) xxx2 memory \<Rightarrow> 's \<Rightarrow>
     fault + (('o, 'a1, 'a2, 's) xxx2 memory \<times> 's)" where
  "yyy2 os vvv M s =
     rbind (mem_read vvv M) (\<lambda>x.
     rbind (mem_delete vvv M) (\<lambda>M.
     rbind (method_thread_child os) (\<lambda>_.
     rbind (m2 x (o2 x) (a1_2 x) (a2_2 x) s) (\<lambda>s. Inr (M, s)))))"

definition method_thread2 ::
    "os_results \<Rightarrow> 'o \<Rightarrow> bool \<Rightarrow> ('o \<Rightarrow> 'a1 \<Rightarrow> 'a2 \<Rightarrow> 's \<Rightarrow> fault + 's) \<Rightarrow> 'a1 \<Rightarrow> 'a2 \<Rightarrow>
     ('o, 'a1, 'a2, 's) xxx2 memory \<Rightarrow> fault + ((('o, 'a1, 'a2, 's) xxx2 memory, 's) new_thread \<times> ('o, 'a1, 'a2, 's) xxx2 memory)" where
  "method_thread2 os ob detach m a1 a2 M =
     (let (x, M) = mem_new \<lparr>o2 = ob, m2 = m, a1_2 = a1, a2_2 = a2\<rparr> M
      in rbind (method_thread_parent os (yyy2 os) x detach) (\<lambda>th. Inr (th, M)))"

record ('o, 'a1, 'a2, 'a3, 's) xxx3 =
  o3 :: 'o
  m3 :: "'o \<Rightarrow> 'a1 \<Rightarrow> 'a2 \<Rightarrow> 'a3 \<Rightarrow> 's \<Rightarrow> fault + 's"
  a1_3 :: 'a1
  a2_3 :: 'a2
  a3_3 :: 'a3

definition yyy3 ::
    "os_results \<Rightarrow> nat \<Rightarrow> ('o, 'a1, 'a2, 'a3, 's) xxx3 memory \<Rightarrow> 's \<Rightarrow>
     fault + (('o, 'a1, 'a2, 'a3, 's) xxx3 memory \<times> 's)" where
  "yyy3 os vvv M s =
     rbind (mem_read vvv M) (\<lambda>x.
     rbind (mem_delete vvv M) (\<lambda>M.
     rbind (method_thread_child os) (\<lambda>_.
     rbind (m3 x (o3 x) (a1_3 x) (a2_3 x) (a3_3 x) s) (\<lambda>s. Inr (M, s)))))"

definition method_thread3 ::
    "os_results \<Rightarrow> 'o \<Rightarrow> bool \<Rightarrow> ('o \<Rightarrow> 'a1 \<Rightarrow> 'a2 \<Rightarrow> 'a3 \<Rightarrow> 's \<Rightarrow> fault + 's) \<Rightarrow> 'a1 \<Rightarrow> 'a2 \<Rightarrow> 'a3 \<Rightarrow>
     ('o, 'a1, 'a2, 'a3, 's) xxx3 memory \<Rightarrow>
     fault + ((('o, 'a1, 'a2, 'a3, 's) xxx3 memory, 's) new_thread \<times> ('o, 'a1, 'a2, 'a3, 's) xxx3 memory)" where
  "method_thread3 os ob detach m a1 a2 a3 M =
     (let (x, M) = mem_new \<lparr>o3 = ob, m3 = m, a1_3 = a1, a2_3 = a2, a3_3 = a3\<rparr> M
      in rbind (method_thread_parent os (yyy3 os) x detach) (\<lambda>th. Inr (th, M)))"

subsection \<open>Jobs of the thread pool\<close>

text \<open>\<open>job_t\<close>: a function over the heap and the state, and its argument.\<close>

record ('m, 's) job_t =
  j_f :: "nat \<Rightarrow> 'm \<Rightarrow> 's \<Rightarrow> fault + ('m \<times> 's)"
  j_a :: nat

record ('o, 'a, 's) objfunc_wrapper =
  w_o :: 'o
  w_m :: "'o \<Rightarrow> 'a \<Rightarrow> 's \<Rightarrow> fault + 's"
  w_a :: 'a

text \<open>\<open>objfunc_wrapper::func\<close> calls the method before it deletes the wrapper.\<close>

definition objfunc ::
    "nat \<Rightarrow> ('o, 'a, 's) objfunc_wrapper memory \<Rightarrow> 's \<Rightarrow> fault + (('o, 'a, 's) objfunc_wrapper memory \<times> 's)" where
  "objfunc vvv M s =
     rbind (mem_read vvv M) (\<lambda>x.
     rbind (w_m x (w_o x) (w_a x) s) (\<lambda>s.
     rbind (mem_delete vvv M) (\<lambda>M. Inr (M, s))))"

text \<open>\<open>addJob\<close> takes a job and the queue and tells whether the job was taken.\<close>

definition addObjJob ::
    "((('o, 'a, 's) objfunc_wrapper memory, 's) job_t \<Rightarrow> 'q \<Rightarrow> bool \<times> 'q) \<Rightarrow> 'o \<Rightarrow> ('o \<Rightarrow> 'a \<Rightarrow> 's \<Rightarrow> fault + 's) \<Rightarrow> 'a \<Rightarrow>
     ('o, 'a, 's) objfunc_wrapper memory \<Rightarrow> 'q \<Rightarrow> bool \<times> ('o, 'a, 's) objfunc_wrapper memory \<times> 'q" where
  "addObjJob addJob ob m a M q =
     (let (x, M) = mem_new \<lparr>w_o = ob, w_m = m, w_a = a\<rparr> M;
          (ok, q) = addJob \<lparr>j_f = objfunc, j_a = x\<rparr> q
      in (ok, M, q))"

subsection \<open>Scoped locks\<close>

text \<open>
  \<open>rpc/slock.h\<close>: the constructor locks, the destructor unlocks, and both abort on an error.
  \<open>lock_rc\<close> and \<open>unlock_rc\<close> are what the \<open>pthread\<close> functions return; the mutex is its holder.
\<close>

definition scoped_lock :: "int \<Rightarrow> nat \<Rightarrow> nat option \<Rightarrow> fault + nat option" where
  "scoped_lock lock_rc t m =
     rbind (VERIFY (lock_rc = 0)) (\<lambda>_. if m = None then Inr (Some t) else Inl Would_block)"

definition scoped_unlock :: "int \<Rightarrow> nat option \<Rightarrow> fault + nat option" where
  "scoped_unlock unlock_rc m = rbind (VERIFY (unlock_rc = 0)) (\<lambda>_. Inr None)"

subsection \<open>A method is called once, and its wrapper is released\<close>

text \<open>
  The contract all of them meet: \<open>w\<close> is the wrapper that stands for the call \<open>act\<close>; running \<open>body\<close>
  on its address performs the call and releases the wrapper; without the wrapper it faults.
\<close>

locale deferred_call =
  fixes body :: "nat \<Rightarrow> 'w memory \<Rightarrow> 's \<Rightarrow> fault + ('w memory \<times> 's)"
    and w :: 'w
    and act :: "'s \<Rightarrow> fault + 's"
  assumes body_call: "m_cells M p = Some w \<Longrightarrow>
      body p M s = rbind (act s) (\<lambda>s'. Inr (M\<lparr>m_cells := (m_cells M)(p := None)\<rparr>, s'))"
    and body_dangling: "m_cells M p = None \<Longrightarrow> body p M s = Inl Dangling"
begin

lemma call_once:
  assumes "mem_ok M" and "mem_new w M = (p, M1)" and "act s = Inr s'"
  obtains M2 where "body p M1 s = Inr (M2, s')" and "m_cells M2 = m_cells M" and "body p M2 t = Inl Dangling"
proof -
  have p: "p = m_next M" "m_cells M1 = (m_cells M)(p \<mapsto> w)" using assms(2) by (auto simp: mem_new_def)
  have none: "m_cells M p = None" using assms(1) p(1) by (simp add: mem_ok_def)
  let ?M2 = "M1\<lparr>m_cells := (m_cells M1)(p := None)\<rparr>"
  have "body p M1 s = Inr (?M2, s')" using body_call [of M1 p s] p(2) assms(3) by simp
  moreover have "m_cells ?M2 = m_cells M" using p(2) none by (auto simp: fun_eq_iff)
  moreover have "body p ?M2 t = Inl Dangling" by (rule body_dangling) simp
  ultimately show thesis using that by blast
qed

text \<open>Other objects may come and go while the address is on its way.\<close>

lemma call_later:
  assumes "m_cells M p = Some w" and "act s = Inr s'"
  shows "body p M s = Inr (M\<lparr>m_cells := (m_cells M)(p := None)\<rparr>, s')"
  using body_call [OF assms(1)] assms(2) by simp

end

definition child_ok :: "os_results \<Rightarrow> bool" where
  "child_ok os \<longleftrightarrow> os_cancelstate os = 0 \<and> os_canceltype os = 0"

lemma child_ok_run: "child_ok os \<Longrightarrow> method_thread_child os = Inr ()"
  by (simp add: child_ok_def method_thread_child_def)

lemmas cell_simps = mem_read_def mem_delete_def child_ok_run

lemma deferred_yyy0: "child_ok os \<Longrightarrow> deferred_call (yyy0 os) \<lparr>o0 = ob, m0 = m\<rparr> (m ob)"
  by unfold_locales (simp_all add: yyy0_def cell_simps)

lemma deferred_yyy1: "child_ok os \<Longrightarrow> deferred_call (yyy1 os) \<lparr>o1 = ob, m1 = m, a1_1 = a\<rparr> (m ob a)"
  by unfold_locales (simp_all add: yyy1_def cell_simps)

lemma deferred_yyy2:
  "child_ok os \<Longrightarrow> deferred_call (yyy2 os) \<lparr>o2 = ob, m2 = m, a1_2 = a1, a2_2 = a2\<rparr> (m ob a1 a2)"
  by unfold_locales (simp_all add: yyy2_def cell_simps)

lemma deferred_yyy3:
  "child_ok os \<Longrightarrow>
     deferred_call (yyy3 os) \<lparr>o3 = ob, m3 = m, a1_3 = a1, a2_3 = a2, a3_3 = a3\<rparr> (m ob a1 a2 a3)"
  by unfold_locales (simp_all add: yyy3_def cell_simps)

interpretation job: deferred_call objfunc "\<lparr>w_o = ob, w_m = m, w_a = a\<rparr>" "m ob a" for ob m a
  by unfold_locales (auto simp: objfunc_def mem_read_def mem_delete_def intro!: arg_cong [of _ _ "rbind _"])

lemma parent_ok: "os_create os = 0 \<Longrightarrow> detach \<longrightarrow> os_detach os = 0 \<Longrightarrow>
    method_thread_parent os fn arg detach = Inr \<lparr>th_id = os_thread os, th_fn = fn, th_arg = arg\<rparr>"
  by (simp add: method_thread_parent_def)

subsection \<open>Properties\<close>

text \<open>
  C35: A method of three arguments started with \<open>method_thread\<close> is called once, on the right object
  and with the right arguments, by the function that the new thread runs, and its wrapper is
  released: the heap is as before, and running that function a second time faults. The
  \<open>pthread\<close> calls are taken to succeed.
\<close>

theorem method_thread_call:
  assumes "mem_ok M" and "os_create os = 0" and "detach \<longrightarrow> os_detach os = 0" and "child_ok os"
    and "m ob a1 a2 a3 s = Inr s'"
  shows "\<exists>th M1 M2. method_thread3 os ob detach m a1 a2 a3 M = Inr (th, M1) \<and> th_id th = os_thread os \<and>
    th_fn th (th_arg th) M1 s = Inr (M2, s') \<and> m_cells M2 = m_cells M \<and> th_fn th (th_arg th) M2 t = Inl Dangling"
proof -
  let ?w = "\<lparr>o3 = ob, m3 = m, a1_3 = a1, a2_3 = a2, a3_3 = a3\<rparr>"
  obtain x M1 where new: "mem_new ?w M = (x, M1)" by (cases "mem_new ?w M")
  then have "method_thread3 os ob detach m a1 a2 a3 M =
      Inr (\<lparr>th_id = os_thread os, th_fn = yyy3 os, th_arg = x\<rparr>, M1)"
    by (simp add: method_thread3_def parent_ok [OF assms(2,3)])
  moreover obtain M2 where "yyy3 os x M1 s = Inr (M2, s')" "m_cells M2 = m_cells M" "yyy3 os x M2 t = Inl Dangling"
    by (rule deferred_call.call_once [OF deferred_yyy3 [OF assms(4)] assms(1) new assms(5)])
  ultimately show ?thesis by auto
qed

theorem method_thread_call_witness:
  "\<exists>th M1 M2. method_thread3 \<lparr>os_create = 0, os_thread = 7, os_detach = 0, os_cancelstate = 0, os_canceltype = 0\<rparr>
       (5 :: nat) True (\<lambda>ob a b c s. Inr (ob + a + b + c + s)) 1 2 3 \<lparr>m_next = 0, m_cells = Map.empty\<rparr> = Inr (th, M1) \<and>
     th_id th = 7 \<and> th_fn th (th_arg th) M1 (10 :: nat) = Inr (M2, 21) \<and> m_cells M2 = Map.empty"
proof -
  let ?os = "\<lparr>os_create = 0, os_thread = 7, os_detach = 0, os_cancelstate = 0, os_canceltype = 0\<rparr>"
  let ?M = "\<lparr>m_next = 0, m_cells = Map.empty\<rparr> :: (nat, nat, nat, nat, nat) xxx3 memory"
  have "mem_ok ?M" "child_ok ?os" by (simp_all add: mem_ok_def child_ok_def)
  from method_thread_call [of ?M ?os True "\<lambda>ob a b c s. Inr (ob + a + b + c + s)" 5 1 2 3 10 21 0, OF this(1) _ _ this(2)]
  show ?thesis by auto
qed

text \<open>
  The other overloads, and a job of the pool that was taken from the queue.
\<close>

lemma method_thread_calls:
  assumes "os_create os = 0" and "detach \<longrightarrow> os_detach os = 0" and "child_ok os"
  shows "mem_ok M \<Longrightarrow> m ob s = Inr s' \<Longrightarrow>
      \<exists>th M1 M2. method_thread0 os ob detach m M = Inr (th, M1) \<and> th_id th = os_thread os \<and>
        th_fn th (th_arg th) M1 s = Inr (M2, s') \<and> m_cells M2 = m_cells M"
    and "mem_ok N \<Longrightarrow> k ob a s = Inr s' \<Longrightarrow>
      \<exists>th M1 M2. method_thread1 os ob detach k a N = Inr (th, M1) \<and> th_id th = os_thread os \<and>
        th_fn th (th_arg th) M1 s = Inr (M2, s') \<and> m_cells M2 = m_cells N"
    and "mem_ok L \<Longrightarrow> l ob a b s = Inr s' \<Longrightarrow>
      \<exists>th M1 M2. method_thread2 os ob detach l a b L = Inr (th, M1) \<and> th_id th = os_thread os \<and>
        th_fn th (th_arg th) M1 s = Inr (M2, s') \<and> m_cells M2 = m_cells L"
proof -
  note pk = parent_ok [OF assms(1,2)]
  show "\<exists>th M1 M2. method_thread0 os ob detach m M = Inr (th, M1) \<and> th_id th = os_thread os \<and>
      th_fn th (th_arg th) M1 s = Inr (M2, s') \<and> m_cells M2 = m_cells M" if h: "mem_ok M" "m ob s = Inr s'"
  proof (cases "mem_new \<lparr>o0 = ob, m0 = m\<rparr> M")
    case (Pair x M1)
    show ?thesis
      by (rule deferred_call.call_once [OF deferred_yyy0 [OF assms(3)] h(1) Pair h(2)])
        (use Pair in \<open>auto simp: method_thread0_def pk\<close>)
  qed
  show "\<exists>th M1 M2. method_thread1 os ob detach k a N = Inr (th, M1) \<and> th_id th = os_thread os \<and>
      th_fn th (th_arg th) M1 s = Inr (M2, s') \<and> m_cells M2 = m_cells N" if h: "mem_ok N" "k ob a s = Inr s'"
  proof (cases "mem_new \<lparr>o1 = ob, m1 = k, a1_1 = a\<rparr> N")
    case (Pair x M1)
    show ?thesis
      by (rule deferred_call.call_once [OF deferred_yyy1 [OF assms(3)] h(1) Pair h(2)])
        (use Pair in \<open>auto simp: method_thread1_def pk\<close>)
  qed
  show "\<exists>th M1 M2. method_thread2 os ob detach l a b L = Inr (th, M1) \<and> th_id th = os_thread os \<and>
      th_fn th (th_arg th) M1 s = Inr (M2, s') \<and> m_cells M2 = m_cells L" if h: "mem_ok L" "l ob a b s = Inr s'"
  proof (cases "mem_new \<lparr>o2 = ob, m2 = l, a1_2 = a, a2_2 = b\<rparr> L")
    case (Pair x M1)
    show ?thesis
      by (rule deferred_call.call_once [OF deferred_yyy2 [OF assms(3)] h(1) Pair h(2)])
        (use Pair in \<open>auto simp: method_thread2_def pk\<close>)
  qed
qed

lemma pool_job_call:
  assumes "mem_ok M" and "m ob a s = Inr s'" and "addJob = (\<lambda>j q. (True, q @ [j]))"
  shows "\<exists>j M1 M2. addObjJob addJob ob m a M q = (True, M1, q @ [j]) \<and> j_f j (j_a j) M1 s = Inr (M2, s') \<and>
    m_cells M2 = m_cells M"
proof (cases "mem_new \<lparr>w_o = ob, w_m = m, w_a = a\<rparr> M")
  case (Pair x M1)
  show ?thesis
    by (rule job.call_once [where t = s, OF assms(1) Pair assms(2)])
      (use Pair assms(3) in \<open>auto simp: addObjJob_def\<close>)
qed

text \<open>
  When \<open>addJob\<close> refuses the job, \<open>addObjJob\<close> returns false and the wrapper stays allocated, with
  no one who knows its address.
\<close>

theorem refused_job_leaks:
  assumes "mem_ok M" and "\<And>j. addJob j q = (False, q)"
  shows "\<exists>M1. addObjJob addJob ob m a M q = (False, M1, q) \<and> dom (m_cells M1) = insert (m_next M) (dom (m_cells M)) \<and>
    m_next M \<notin> dom (m_cells M)"
  using assms by (auto simp: addObjJob_def mem_new_def mem_ok_def)

lemma scoped_section:
  "scoped_lock 0 t None = Inr (Some t)" "scoped_unlock 0 (Some t) = Inr None"
  "scoped_lock 0 t (Some u) = Inl Would_block"
  by (simp_all add: scoped_lock_def scoped_unlock_def)

end
