(* ===== verification/Block_Races.thy ===== *)
theory Block_Races
  imports Block_Layer Interleave "HOL-Library.Multiset"
begin

text \<open>
  Threads inside the block layer. \<open>alloc_block\<close> and \<open>free_block\<close> read a block of the bitmap, change
  one bit and write it back, and hold \<open>bitmap_mutex\<close> meanwhile; \<open>write_block\<close> takes no lock. Here
  every access to the disk and every operation on the mutex is a step, and the calls of any
  number of threads interleave. However they do, the calls have the results and the effect
  on the free blocks that they would have had one after the other, in some order.
\<close>

subsection \<open>The steps of the three calls\<close>

text \<open>The call a thread makes: \<open>alloc_block\<close>, \<open>free_block\<close> or \<open>write_block\<close> (\<^const>\<open>bl_write_block\<close>).\<close>

datatype block_job = B_alloc | B_free u32 | B_write u32 buf

text \<open>
  Before the call; in the loop of \<open>alloc_block\<close> at a block; in \<open>free_block\<close> with the mutex; with the
  changed bitmap block in hand; after the loop or the write; returned.
\<close>

datatype block_pc = B_start | B_scan nat | B_fetch | B_mark nat buf | B_unlock u32 | B_done u32

type_synonym block_thread = "block_job \<times> block_pc"

abbreviation bitmap_bit :: "nat \<Rightarrow> byte" where
  "bitmap_bit b \<equiv> push_bit (bit_offset_in_byte b) 1"

inductive block_act ::
    "block_thread \<Rightarrow> fault + block_layer \<Rightarrow> block_thread \<times> (fault + block_layer) \<Rightarrow> bool" where
  alloc_lock: "bitmap_lock bl = Inr bl' \<Longrightarrow>
    block_act (B_alloc, B_start) (Inr bl) ((B_alloc, B_scan (first_data_block bl')), Inr bl')"
| scan_used: "b < BLOCK_NUM \<Longrightarrow> disk_read_array (bl_d bl) (word_of_nat (BBLOCK b)) junk = Inr buf \<Longrightarrow>
    buf (byte_offset_in_block b) AND bitmap_bit b \<noteq> 0 \<Longrightarrow>
    block_act (B_alloc, B_scan b) (Inr bl) ((B_alloc, B_scan (b + 1)), Inr bl)"
| scan_free: "b < BLOCK_NUM \<Longrightarrow> disk_read_array (bl_d bl) (word_of_nat (BBLOCK b)) junk = Inr buf \<Longrightarrow>
    p = byte_offset_in_block b \<Longrightarrow> buf p AND bitmap_bit b = 0 \<Longrightarrow>
    block_act (B_alloc, B_scan b) (Inr bl) ((B_alloc, B_mark b (buf(p := buf p XOR bitmap_bit b))), Inr bl)"
| scan_fault: "b < BLOCK_NUM \<Longrightarrow> disk_read_array (bl_d bl) (word_of_nat (BBLOCK b)) junk = Inl f \<Longrightarrow>
    block_act (B_alloc, B_scan b) (Inr bl) ((B_alloc, B_done 0), Inl f)"
| scan_end: "\<not> b < BLOCK_NUM \<Longrightarrow> block_act (B_alloc, B_scan b) (Inr bl) ((B_alloc, B_unlock (- 1)), Inr bl)"
| free_lock: "bitmap_lock bl = Inr bl' \<Longrightarrow>
    block_act (B_free b, B_start) (Inr bl) ((B_free b, B_fetch), Inr bl')"
| fetch: "disk_read_array (bl_d bl) (word_of_nat (BBLOCK (unat b))) junk = Inr buf \<Longrightarrow>
    p = byte_offset_in_block (unat b) \<Longrightarrow>
    block_act (B_free b, B_fetch) (Inr bl)
      ((B_free b, B_mark (unat b) (buf(p := buf p AND NOT (bitmap_bit (unat b))))), Inr bl)"
| fetch_fault: "disk_read_array (bl_d bl) (word_of_nat (BBLOCK (unat b))) junk = Inl f \<Longrightarrow>
    block_act (B_free b, B_fetch) (Inr bl) ((B_free b, B_done 0), Inl f)"
| mark: "disk_write_block (bl_d bl) (word_of_nat (BBLOCK b)) (Some buf) = Inr d \<Longrightarrow>
    block_act (j, B_mark b buf) (Inr bl) ((j, B_unlock (word_of_nat b)), Inr (bl\<lparr>bl_d := d\<rparr>))"
| mark_fault: "disk_write_block (bl_d bl) (word_of_nat (BBLOCK b)) (Some buf) = Inl f \<Longrightarrow>
    block_act (j, B_mark b buf) (Inr bl) ((j, B_done 0), Inl f)"
| unlock: "block_act (j, B_unlock r) (Inr bl) ((j, B_done r), Inr (bitmap_unlock bl))"
| store: "bl_write_block bl b buf = Inr bl' \<Longrightarrow>
    block_act (B_write b buf, B_start) (Inr bl) ((B_write b buf, B_done 0), Inr bl')"
| store_fault: "bl_write_block bl b buf = Inl f \<Longrightarrow>
    block_act (B_write b buf, B_start) (Inr bl) ((B_write b buf, B_done 0), Inl f)"

inductive_cases block_actE: "block_act (j, pc) (Inr bl) (t', x')"

fun block_done :: "block_thread \<Rightarrow> bool" where
  "block_done (j, B_done r) \<longleftrightarrow> True"
| "block_done _ \<longleftrightarrow> False"

abbreviation block_run :: "block_thread \<times> (fault + block_layer) \<Rightarrow> block_thread \<times> (fault + block_layer) \<Rightarrow> bool" where
  "block_run \<equiv> (\<lambda>(t, s). block_act t s)\<^sup>*\<^sup>*"

lemma block_run_step: "block_act t s p \<Longrightarrow> block_run p q \<Longrightarrow> block_run (t, s) q"
  by (rule converse_rtranclp_into_rtranclp) simp_all

subsection \<open>The calls of one thread\<close>

text \<open>The steps of a thread that is alone are those of the sequential definitions.\<close>

lemma scan_run:
  assumes "alloc_block_loop junk (bl_d bl) b = Inr (r, d)"
  shows "block_run ((B_alloc, B_scan b), Inr bl) ((B_alloc, B_unlock r), Inr (bl\<lparr>bl_d := d\<rparr>))"
  using assms
proof (induction junk "bl_d bl" b rule: alloc_block_loop.induct)
  case (1 junk b)
  show ?case
  proof (cases "b < BLOCK_NUM")
    case False
    with "1.prems" have "r = - 1" "d = bl_d bl" by (subst (asm) alloc_block_loop.simps, simp)+
    with block_run_step [OF block_act.scan_end [OF False]] show ?thesis by simp
  next
    case True
    let ?p = "byte_offset_in_block b"
    from "1.prems" [unfolded alloc_block_loop.simps [of junk "bl_d bl" b]] True obtain buf where buf: "disk_read_array (bl_d bl) (word_of_nat (BBLOCK b)) junk = Inr buf"
        "(if buf ?p AND bitmap_bit b \<noteq> 0 then alloc_block_loop junk (bl_d bl) (b + 1)
          else rbind (disk_write_block (bl_d bl) (word_of_nat (BBLOCK b)) (Some (buf(?p := buf ?p XOR bitmap_bit b))))
                 (\<lambda>d'. Inr (word_of_nat b, d'))) = Inr (r, d)"
      by (auto simp: rbind_Inr_iff Let_def simp del: push_bit_of_1)
    show ?thesis
    proof (cases "buf ?p AND bitmap_bit b = 0")
      case False
      have "block_run ((B_alloc, B_scan (b + 1)), Inr bl) ((B_alloc, B_unlock r), Inr (bl\<lparr>bl_d := d\<rparr>))"
        using "1.hyps" [OF True buf(1) refl refl False] buf(2) False by simp
      with block_act.scan_used [OF True buf(1) False] show ?thesis by (rule block_run_step)
    next
      case free: True
      with buf(2) have "r = word_of_nat b"
          "disk_write_block (bl_d bl) (word_of_nat (BBLOCK b)) (Some (buf(?p := buf ?p XOR bitmap_bit b))) = Inr d"
        by (auto simp: rbind_Inr_iff)
      with block_act.mark [of bl b "buf(?p := buf ?p XOR bitmap_bit b)" d B_alloc]
      have "block_run ((B_alloc, B_mark b (buf(?p := buf ?p XOR bitmap_bit b))), Inr bl)
          ((B_alloc, B_unlock r), Inr (bl\<lparr>bl_d := d\<rparr>))"
        by (intro block_run_step) auto
      with block_act.scan_free [OF True buf(1) refl free] show ?thesis by (rule block_run_step)
    qed
  qed
qed

lemma alloc_block_run:
  assumes "alloc_block junk bl = Inr (r, bl')"
  shows "block_run ((B_alloc, B_start), Inr bl) ((B_alloc, B_done r), Inr bl')"
proof -
  obtain bl1 d where l: "bitmap_lock bl = Inr bl1" "alloc_block_loop junk (bl_d bl1) (first_data_block bl1) = Inr (r, d)"
      "bl' = bitmap_unlock (bl1\<lparr>bl_d := d\<rparr>)"
    using assms by (auto simp: alloc_block_def rbind_Inr_iff split: prod.splits)
  have "block_run ((B_alloc, B_scan (first_data_block bl1)), Inr bl1) ((B_alloc, B_unlock r), Inr (bl1\<lparr>bl_d := d\<rparr>))"
    by (rule scan_run [OF l(2)])
  also have "block_run \<dots> ((B_alloc, B_done r), Inr bl')"
    unfolding l(3) by (rule block_run_step [OF block_act.unlock]) simp
  finally show ?thesis by (rule block_run_step [OF block_act.alloc_lock [OF l(1)]])
qed

lemma free_block_run:
  assumes "free_block junk bl b = Inr bl'"
  shows "block_run ((B_free b, B_start), Inr bl) ((B_free b, B_done b), Inr bl')"
proof -
  let ?p = "byte_offset_in_block (unat b)"
  obtain bl1 buf d where l: "bitmap_lock bl = Inr bl1"
      "disk_read_array (bl_d bl1) (word_of_nat (BBLOCK (unat b))) junk = Inr buf"
      "disk_write_block (bl_d bl1) (word_of_nat (BBLOCK (unat b)))
         (Some (buf(?p := buf ?p AND NOT (bitmap_bit (unat b))))) = Inr d"
      "bl' = bitmap_unlock (bl1\<lparr>bl_d := d\<rparr>)"
    using assms by (auto simp: free_block_def rbind_Inr_iff Let_def)
  have "block_run ((B_free b, B_unlock b), Inr (bl1\<lparr>bl_d := d\<rparr>)) ((B_free b, B_done b), Inr bl')"
    unfolding l(4) by (rule block_run_step [OF block_act.unlock]) simp
  with block_act.mark [OF l(3), of "B_free b"]
  have "block_run ((B_free b, B_mark (unat b) (buf(?p := buf ?p AND NOT (bitmap_bit (unat b))))), Inr bl1)
      ((B_free b, B_done b), Inr bl')"
    by (intro block_run_step) simp_all
  with block_act.fetch [OF l(2) refl] have "block_run ((B_free b, B_fetch), Inr bl1) ((B_free b, B_done b), Inr bl')"
    by (rule block_run_step)
  with block_act.free_lock [OF l(1)] show ?thesis by (rule block_run_step)
qed

subsection \<open>Calls one after the other\<close>

text \<open>
  \<open>legal F log F'\<close>: the calls in \<open>log\<close>, made one after the other with the results given there, lead
  from the set \<open>F\<close> of free blocks to \<open>F'\<close>.
\<close>

fun legal :: "nat set \<Rightarrow> (block_job \<times> u32) list \<Rightarrow> nat set \<Rightarrow> bool" where
  "legal F [] F' \<longleftrightarrow> F' = F"
| "legal F ((B_alloc, r) # log) F' \<longleftrightarrow>
     (if F = {} then r = - 1 \<and> legal F log F' else r = word_of_nat (Min F) \<and> legal (F - {Min F}) log F')"
| "legal F ((B_free b, r) # log) F' \<longleftrightarrow> legal (F \<union> ({unat b} \<inter> data_blocks)) log F'"
| "legal F ((B_write b buf, r) # log) F' \<longleftrightarrow> legal F log F'"

lemma legal_append: "legal F (xs @ ys) F' \<longleftrightarrow> (\<exists>G. legal F xs G \<and> legal G ys F')"
  by (induction F xs F' rule: legal.induct) auto

text \<open>Without releases no block is given out twice.\<close>

lemma legal_allocs:
  assumes "legal F (map (Pair B_alloc) rs) F'" and "F \<subseteq> data_blocks"
  shows "F' \<subseteq> F" and "set rs \<subseteq> insert (- 1) (word_of_nat ` (F - F'))" and "distinct (filter (\<lambda>r. r \<noteq> - 1) rs)"
proof -
  have "F' \<subseteq> F \<and> set rs \<subseteq> insert (- 1) (word_of_nat ` (F - F')) \<and> distinct (filter (\<lambda>r. r \<noteq> - 1) rs)"
    using assms
  proof (induction rs arbitrary: F)
    case (Cons r rs)
    show ?case
    proof (cases "F = {}")
      case False
      have fin: "finite F" using Cons.prems(2) by (rule finite_subset) simp
      note IH = Cons.IH [of "F - {Min F}"]
      have m: "Min F \<in> F" using fin False by simp
      have r: "r = word_of_nat (Min F)" and rest: "F' \<subseteq> F - {Min F}"
          "set rs \<subseteq> insert (- 1) (word_of_nat ` (F - {Min F} - F'))" "distinct (filter (\<lambda>r. r \<noteq> - 1) rs)"
        using Cons.prems False IH by auto
      have "word_of_nat (Min F) \<noteq> (word_of_nat b :: u32)" if "b \<in> F" "b \<noteq> Min F" for b
      proof
        assume "word_of_nat (Min F) = (word_of_nat b :: u32)"
        then have "unat (word_of_nat (Min F) :: u32) = unat (word_of_nat b :: u32)" by simp
        moreover have "Min F < 2 ^ 32" "b < 2 ^ 32" using that(1) m Cons.prems(2) by (auto simp: data_blocks_def)
        ultimately show False using that(2) by (simp add: unat_of_nat32)
      qed
      then have "r \<notin> word_of_nat ` (F - {Min F} - F')" using r by auto
      then show ?thesis using r rest m by auto
    qed (use Cons in auto)
  qed simp
  then show "F' \<subseteq> F" "set rs \<subseteq> insert (- 1) (word_of_nat ` (F - F'))" "distinct (filter (\<lambda>r. r \<noteq> - 1) rs)"
    by auto
qed

subsection \<open>One step\<close>

text \<open>The calls whose effect on the bitmap is done, with their result.\<close>

fun outcome :: "block_thread \<Rightarrow> (block_job \<times> u32) list" where
  "outcome (j, B_unlock r) = [(j, r)]"
| "outcome (j, B_done r) = [(j, r)]"
| "outcome _ = []"

fun block_inside :: "block_thread \<Rightarrow> bool" where
  "block_inside (j, B_start) \<longleftrightarrow> False"
| "block_inside (j, B_done r) \<longleftrightarrow> False"
| "block_inside _ \<longleftrightarrow> True"

fun bitmap_held :: "fault + block_layer \<Rightarrow> bool" where
  "bitmap_held (Inl f) \<longleftrightarrow> False"
| "bitmap_held (Inr bl) \<longleftrightarrow> bl_bitmap_mutex bl"

lemma write_keeps_mutex: "bl_write_block bl b buf = Inr bl' \<Longrightarrow> bl_bitmap_mutex bl' = bl_bitmap_mutex bl \<and> bl_sb bl' = bl_sb bl"
  by (auto simp: bl_write_block_def rbind_Inr_iff)

interpretation bm: critical_sections block_act block_inside bitmap_held "\<lambda>x. \<not> isl x"
proof unfold_locales
  fix t x t' x'
  assume act: "block_act t x (t', x')" and good: "\<not> isl x'"
  show "\<not> block_inside t \<Longrightarrow> block_inside t' \<Longrightarrow> \<not> bitmap_held x \<and> bitmap_held x'"
    using act good by cases (auto simp: bitmap_lock_def split: if_splits)
  show "block_inside t \<Longrightarrow> \<not> block_inside t' \<Longrightarrow> \<not> bitmap_held x'"
    using act good by cases (auto simp: bitmap_unlock_def)
  show "block_inside t = block_inside t' \<Longrightarrow> bitmap_held x' = bitmap_held x"
    using act good by cases (auto dest: write_keeps_mutex)
qed

fun valid_job :: "block_job \<Rightarrow> bool" where
  "valid_job B_alloc \<longleftrightarrow> True"
| "valid_job (B_free b) \<longleftrightarrow> unat b < 32768"
| "valid_job (B_write b buf) \<longleftrightarrow> unat b \<notin> bitmap_blocks \<and> unat b \<noteq> 32768"

text \<open>
  What holds of a thread at each point: all blocks the loop has passed are used, and the block in
  hand is the bitmap block on the disk with one bit changed.
\<close>

definition in_hand :: "block_layer \<Rightarrow> nat \<Rightarrow> buf \<Rightarrow> byte \<Rightarrow> bool" where
  "in_hand bl b buf v \<longleftrightarrow> eq_upto 512 buf ((contents bl (BBLOCK b))(byte_offset_in_block b := v))"

definition passed :: "block_layer \<Rightarrow> nat \<Rightarrow> bool" where
  "passed bl b \<longleftrightarrow> 123 \<le> b \<and> b \<le> 32768 \<and> (\<forall>c. 123 \<le> c \<longrightarrow> c < b \<longrightarrow> used (bl_d bl) c)"

abbreviation bitmap_byte :: "block_layer \<Rightarrow> nat \<Rightarrow> byte" where
  "bitmap_byte bl b \<equiv> contents bl (BBLOCK b) (byte_offset_in_block b)"

fun thread_at :: "block_layer \<Rightarrow> block_thread \<Rightarrow> bool" where
  "thread_at bl (B_alloc, B_scan b) \<longleftrightarrow> passed bl b"
| "thread_at bl (B_alloc, B_mark b buf) \<longleftrightarrow>
     passed bl b \<and> b < 32768 \<and> \<not> used (bl_d bl) b \<and> in_hand bl b buf (bitmap_byte bl b XOR bitmap_bit b)"
| "thread_at bl (B_alloc, B_fetch) \<longleftrightarrow> False"
| "thread_at bl (B_free i, B_scan b) \<longleftrightarrow> False"
| "thread_at bl (B_free i, B_mark b buf) \<longleftrightarrow> b = unat i \<and> in_hand bl b buf (bitmap_byte bl b AND NOT (bitmap_bit b))"
| "thread_at bl (B_write i buf, pc) \<longleftrightarrow> \<not> block_inside (B_write i buf, pc)"
| "thread_at bl _ \<longleftrightarrow> True"

definition formatted :: "block_layer \<Rightarrow> bool" where
  "formatted bl \<longleftrightarrow> sb_nblocks (bl_sb bl) = word_of_nat BLOCK_NUM"

definition step_effect :: "block_layer \<Rightarrow> block_thread \<Rightarrow> block_layer \<Rightarrow> block_thread \<Rightarrow> bool" where
  "step_effect bl t bl' t' \<longleftrightarrow>
     fst t' = fst t \<and> formatted bl' \<and> thread_at bl' t' \<and>
     (\<exists>log. outcome t' = outcome t @ log \<and> legal (free_set bl) log (free_set bl')) \<and>
     (\<forall>b. b \<notin> bitmap_blocks \<longrightarrow> (\<forall>i buf. fst t = B_write i buf \<longrightarrow> unat i \<noteq> b) \<longrightarrow> contents bl' b = contents bl b) \<and>
     (block_inside t \<or> (\<forall>b \<in> bitmap_blocks. contents bl' b = contents bl b))"

lemma bitmap_read:
  assumes "b < 32768"
  obtains buf where "disk_read_array (bl_d bl) (word_of_nat (BBLOCK b)) junk = Inr buf"
    and "eq_upto 512 buf (contents bl (BBLOCK b))"
proof -
  have "unat (word_of_nat (BBLOCK b) :: u32) = BBLOCK b" using assms by (intro unat_BBLOCK) simp
  moreover have "BBLOCK b < BLOCK_NUM" using BBLOCK_bitmap [OF assms] by (simp add: bitmap_blocks_def)
  ultimately show thesis using dk.rd_ok [of "word_of_nat (BBLOCK b)" "bl_d bl" junk] that by (auto simp: contents_def)
qed

text \<open>Writing back the block in hand changes one bit of the bitmap.\<close>

lemma bitmap_write:
  assumes b: "b < 32768" and hand: "in_hand bl b buf v"
    and v: "\<And>k. bit v k = (if k = bit_offset_in_byte b then u else bit (bitmap_byte bl b) k)"
  obtains d where "disk_write_block (bl_d bl) (word_of_nat (BBLOCK b)) (Some buf) = Inr d"
    and "\<And>c. used d c = (if c = b then u else used (bl_d bl) c)"
    and "\<And>j. j \<notin> bitmap_blocks \<Longrightarrow> blocks d j = blocks (bl_d bl) j"
proof -
  let ?d = "bl_d bl" and ?p = "byte_offset_in_block b"
  have id: "unat (word_of_nat (BBLOCK b) :: u32) = BBLOCK b" using b by (intro unat_BBLOCK) simp
  have bb: "BBLOCK b \<in> bitmap_blocks" "BBLOCK b < BLOCK_NUM"
    using BBLOCK_bitmap [OF b] by (auto simp: bitmap_blocks_def)
  then obtain d where d: "disk_write_block ?d (word_of_nat (BBLOCK b)) (Some buf) = Inr d"
      "eq_upto 512 (blocks d (BBLOCK b)) buf" "\<forall>j. j \<noteq> BBLOCK b \<longrightarrow> blocks d j = blocks ?d j"
    using dk.wr_ok [of "word_of_nat (BBLOCK b)" ?d buf] id by auto
  have new: "eq_upto 512 (blocks d (BBLOCK b)) ((blocks ?d (BBLOCK b))(?p := v))"
    using d(2) hand by (auto simp: in_hand_def contents_def intro: eq_upto_trans)
  have "used d c = (if c = b then u else used ?d c)" for c
    using d(3) eq_uptoD [OF new] v by (intro used_update) (auto simp: contents_def)
  with that d(1,3) bb(1) show thesis by metis
qed

lemma passed_free:
  assumes "passed bl b"
  shows "b < 32768 \<Longrightarrow> \<not> used (bl_d bl) b \<Longrightarrow> free_set bl \<noteq> {} \<and> Min (free_set bl) = b"
    and "\<not> b < 32768 \<Longrightarrow> free_set bl = {}"
proof -
  have before: "\<forall>c \<in> free_set bl. b \<le> c"
    using assms unfolding passed_def free_set_def data_blocks_def by (auto simp: not_less [symmetric])
  show "free_set bl \<noteq> {} \<and> Min (free_set bl) = b" if "b < 32768" "\<not> used (bl_d bl) b"
  proof -
    have "b \<in> free_set bl" using assms that by (simp add: passed_def free_set_def data_blocks_def)
    with before show ?thesis by (auto intro: Min_eqI)
  qed
  show "free_set bl = {}" if "\<not> b < 32768" using before that free_set_data [of bl] by (fastforce simp: data_blocks_def)
qed

lemma scan_effect:
  assumes act: "block_act (B_alloc, B_scan b) (Inr bl) (t', x')" and bl: "formatted bl" and at: "passed bl b"
  shows "\<exists>bl'. x' = Inr bl' \<and> step_effect bl (B_alloc, B_scan b) bl' t'"
  using act
proof cases
  case (scan_used junk buf)
  obtain buf' where "disk_read_array (bl_d bl) (word_of_nat (BBLOCK b)) junk = Inr buf'"
      "eq_upto 512 buf' (contents bl (BBLOCK b))"
    using bitmap_read [of b bl junk] scan_used(3) by auto
  then have "used (bl_d bl) b"
    using scan_used(4,5) eq_uptoD [of 512 buf' _ "byte_offset_in_block b"] and_mask_iff [OF offsets_bound(2)]
    by (simp add: used_def contents_def)
  then have "passed bl (b + 1)" using at scan_used(3) by (auto simp: passed_def less_Suc_eq)
  with scan_used(1,2) bl show ?thesis by (simp add: step_effect_def)
next
  case (scan_free junk buf p)
  obtain buf' where buf': "disk_read_array (bl_d bl) (word_of_nat (BBLOCK b)) junk = Inr buf'"
      "eq_upto 512 buf' (contents bl (BBLOCK b))"
    using bitmap_read [of b bl junk] scan_free(3) by auto
  then have same: "buf' = buf" "buf p = bitmap_byte bl b"
    using scan_free(4,5) eq_uptoD [OF buf'(2), of "byte_offset_in_block b"] by auto
  then have "\<not> used (bl_d bl) b"
    using scan_free(5,6) and_mask_iff [OF offsets_bound(2), of "buf p" b] by (auto simp: used_def contents_def)
  moreover have "in_hand bl b (buf(p := buf p XOR bitmap_bit b)) (bitmap_byte bl b XOR bitmap_bit b)"
    using buf'(2) same scan_free(5) by (auto simp: in_hand_def eq_upto_def)
  ultimately show ?thesis using scan_free(1-3) bl at by (simp add: step_effect_def)
next
  case (scan_fault junk f)
  then show ?thesis using bitmap_read [of b bl junk] by auto
next
  case scan_end
  then have "free_set bl = {}" using passed_free(2) [OF at] by simp
  with scan_end bl show ?thesis by (simp add: step_effect_def)
qed

lemma fetch_effect:
  assumes act: "block_act (B_free i, B_fetch) (Inr bl) (t', x')" and bl: "formatted bl" and i: "unat i < 32768"
  shows "\<exists>bl'. x' = Inr bl' \<and> step_effect bl (B_free i, B_fetch) bl' t'"
  using act
proof cases
  case (fetch junk buf p)
  obtain buf' where buf': "disk_read_array (bl_d bl) (word_of_nat (BBLOCK (unat i))) junk = Inr buf'"
      "eq_upto 512 buf' (contents bl (BBLOCK (unat i)))"
    using bitmap_read [OF i, of bl junk] by auto
  then have same: "buf' = buf" "buf p = bitmap_byte bl (unat i)"
    using fetch(3,4) eq_uptoD [OF buf'(2), of "byte_offset_in_block (unat i)"] by auto
  then have "in_hand bl (unat i) (buf(p := buf p AND NOT (bitmap_bit (unat i))))
      (bitmap_byte bl (unat i) AND NOT (bitmap_bit (unat i)))"
    using buf'(2) fetch(4) by (auto simp: in_hand_def eq_upto_def)
  with fetch(1,2) bl show ?thesis by (simp add: step_effect_def)
next
  case (fetch_fault junk f)
  then show ?thesis using bitmap_read [OF i, of bl junk] by auto
qed

lemma mark_effect:
  assumes act: "block_act (j, B_mark b buf) (Inr bl) (t', x')" and bl: "formatted bl"
    and at: "thread_at bl (j, B_mark b buf)" and v: "valid_job j"
  shows "\<exists>bl'. x' = Inr bl' \<and> step_effect bl (j, B_mark b buf) bl' t'"
proof -
  have "\<exists>d. disk_write_block (bl_d bl) (word_of_nat (BBLOCK b)) (Some buf) = Inr d \<and>
      (\<forall>k. k \<notin> bitmap_blocks \<longrightarrow> blocks d k = blocks (bl_d bl) k) \<and>
      legal (free_set bl) [(j, word_of_nat b)] (free_set (bl\<lparr>bl_d := d\<rparr>))"
  proof (cases j)
    case B_alloc
    then have a: "passed bl b" "b < 32768" "\<not> used (bl_d bl) b" "in_hand bl b buf (bitmap_byte bl b XOR bitmap_bit b)"
      using at by auto
    have "\<not> bit (bitmap_byte bl b) (bit_offset_in_byte b)" using a(3) by (simp add: used_def contents_def)
    note bits = bit_set_mask [OF offsets_bound(2) this]
    obtain d where d: "disk_write_block (bl_d bl) (word_of_nat (BBLOCK b)) (Some buf) = Inr d"
        "\<And>c. used d c = (if c = b then True else used (bl_d bl) c)"
        "\<And>k. k \<notin> bitmap_blocks \<Longrightarrow> blocks d k = blocks (bl_d bl) k"
      by (rule bitmap_write [OF a(2,4) bits]) (rule that)
    have "free_set (bl\<lparr>bl_d := d\<rparr>) = free_set bl - {b}" using d(2) by (auto simp: free_set_def)
    with passed_free(1) [OF a(1-3)] d(1,3) B_alloc show ?thesis by auto
  next
    case (B_free i)
    then have a: "b < 32768" "b = unat i" "in_hand bl b buf (bitmap_byte bl b AND NOT (bitmap_bit b))"
      using at v by auto
    note bits = bit_clear_mask [OF offsets_bound(2)]
    obtain d where d: "disk_write_block (bl_d bl) (word_of_nat (BBLOCK b)) (Some buf) = Inr d"
        "\<And>c. used d c = (if c = b then False else used (bl_d bl) c)"
        "\<And>k. k \<notin> bitmap_blocks \<Longrightarrow> blocks d k = blocks (bl_d bl) k"
      by (rule bitmap_write [OF a(1,3) bits]) (rule that)
    have "free_set (bl\<lparr>bl_d := d\<rparr>) = free_set bl \<union> ({b} \<inter> data_blocks)" using d(2) by (auto simp: free_set_def)
    with d(1,3) B_free a(2) show ?thesis by auto
  qed (use at in simp)
  then obtain d where d: "disk_write_block (bl_d bl) (word_of_nat (BBLOCK b)) (Some buf) = Inr d"
      "\<forall>k. k \<notin> bitmap_blocks \<longrightarrow> blocks d k = blocks (bl_d bl) k"
      "legal (free_set bl) [(j, word_of_nat b)] (free_set (bl\<lparr>bl_d := d\<rparr>))" by blast
  have "thread_at (bl\<lparr>bl_d := d\<rparr>) (j, B_unlock (word_of_nat b))" using at by (cases j) auto
  then have "step_effect bl (j, B_mark b buf) (bl\<lparr>bl_d := d\<rparr>) (j, B_unlock (word_of_nat b))"
    using d(2,3) bl by (auto simp: step_effect_def formatted_def contents_def simp del: legal.simps)
  with act d(1) show ?thesis by cases auto
qed

lemma free_set_cong: "(\<And>b. b \<in> bitmap_blocks \<Longrightarrow> contents bl' b = contents bl b) \<Longrightarrow> free_set bl' = free_set bl"
  using used_cong [of "bl_d bl'" "bl_d bl"] by (auto simp: free_set_def data_blocks_def contents_def)

lemma start_effect:
  assumes act: "block_act (j, B_start) (Inr bl) (t', x')" and bl: "formatted bl" and v: "valid_job j"
  shows "\<exists>bl'. x' = Inr bl' \<and> step_effect bl (j, B_start) bl' t'"
  using act
proof cases
  case (alloc_lock bl')
  then have "passed bl' (first_data_block bl')" "formatted bl'" "bl_d bl' = bl_d bl"
    using bl by (auto simp: bitmap_lock_def formatted_def passed_def first_data_block_def IBLOCK_def split: if_splits)
  with alloc_lock show ?thesis by (simp add: step_effect_def contents_def free_set_def)
next
  case (free_lock bl' b)
  then have "formatted bl'" "bl_d bl' = bl_d bl" using bl by (auto simp: bitmap_lock_def formatted_def split: if_splits)
  with free_lock show ?thesis by (simp add: step_effect_def contents_def free_set_def)
next
  case (store b buf bl')
  obtain d where d: "disk_write_block (bl_d bl) b (Some buf) = Inr d" "bl' = bl\<lparr>bl_d := d\<rparr>"
    using store(4) by (auto simp: bl_write_block_def rbind_Inr_iff)
  have frame: "contents bl' k = contents bl k" if "k \<noteq> unat b" for k
    using dk.write_other [OF d(1), of k] that d(2) by (simp add: contents_def)
  have "unat b \<notin> bitmap_blocks" using v store(1) by simp
  with frame have bm: "\<forall>k \<in> bitmap_blocks. contents bl' k = contents bl k" by metis
  then have "free_set bl' = free_set bl" by (intro free_set_cong) simp
  with bm frame store bl d(2) show ?thesis by (auto simp: step_effect_def formatted_def)
next
  case (store_fault b buf f)
  then show ?thesis using v disk_write_block_simps [of b "bl_d bl" buf]
    by (cases "unat b" "32768 :: nat" rule: linorder_cases) (auto simp: bl_write_block_def)
qed

lemma block_step_effect:
  assumes act: "block_act (j, pc) (Inr bl) (t', x')" and bl: "formatted bl"
    and at: "thread_at bl (j, pc)" and v: "valid_job j"
  shows "\<exists>bl'. x' = Inr bl' \<and> step_effect bl (j, pc) bl' t'"
proof (cases pc)
  case B_start
  with start_effect [of j bl t' x'] act bl v show ?thesis by simp
next
  case (B_scan b)
  with at have "j = B_alloc" by (cases j) auto
  with scan_effect [of b bl t' x'] act at bl B_scan show ?thesis by simp
next
  case B_fetch
  with at obtain i where "j = B_free i" by (cases j) auto
  with fetch_effect [of i bl t' x'] act v bl B_fetch show ?thesis by simp
next
  case (B_mark b buf)
  with mark_effect [of j b buf bl t' x'] act at v bl show ?thesis by simp
next
  case (B_unlock r)
  from act [unfolded B_unlock] have "t' = (j, B_done r)" "x' = Inr (bitmap_unlock bl)" by (cases, simp)+
  moreover have "thread_at (bitmap_unlock bl) (j, B_done r)" by (cases j) simp_all
  ultimately show ?thesis using bl B_unlock
    by (simp add: step_effect_def formatted_def bitmap_unlock_def contents_def free_set_def)
next
  case (B_done r)
  from act [unfolded B_done] show ?thesis by cases
qed

subsection \<open>All threads\<close>

lemma thread_at_outside: "thread_at bl t \<Longrightarrow> \<not> block_inside t \<Longrightarrow> thread_at bl' t"
  by (cases "(bl, t)" rule: thread_at.cases) auto

lemma thread_at_cong:
  assumes "thread_at bl t" and "valid_job (fst t)" and same: "\<And>b. b \<in> bitmap_blocks \<Longrightarrow> contents bl' b = contents bl b"
  shows "thread_at bl' t"
proof -
  have used: "used (bl_d bl') c = used (bl_d bl) c" if "c < 32768" for c
    using same that used_cong [of "bl_d bl'" "bl_d bl"] by (simp add: contents_def)
  then have p: "passed bl' b = passed bl b" for b unfolding passed_def by (meson order.strict_trans1 order.strict_trans2)
  have "contents bl' (BBLOCK b) = contents bl (BBLOCK b)" if "b < 32768" for b using same BBLOCK_bitmap [OF that] by simp
  with assms(1,2) used p show ?thesis
    by (cases "(bl, t)" rule: thread_at.cases) (auto simp: in_hand_def)
qed

lemma outcomes_update:
  assumes "k < length ts" and "outcome t' = outcome (ts ! k) @ new"
  shows "mset (concat (map outcome (ts[k := t']))) = mset (concat (map outcome ts)) + mset new"
proof -
  have "ts = take k ts @ ts ! k # drop (Suc k) ts" using assms(1) by (rule id_take_nth_drop)
  then have "mset (concat (map outcome ts)) =
      mset (concat (map outcome (take k ts))) + (mset (outcome (ts ! k)) + mset (concat (map outcome (drop (Suc k) ts))))"
    by (metis concat.simps(2) concat_append list.simps(9) map_append mset_append)
  then show ?thesis using assms by (simp add: upd_conv_take_nth_drop)
qed

definition blocks_inv :: "block_layer \<Rightarrow> block_job list \<Rightarrow> block_thread list \<Rightarrow> fault + block_layer \<Rightarrow> bool" where
  "blocks_inv bl0 jobs ts x \<longleftrightarrow>
     (\<exists>bl log. x = Inr bl \<and> formatted bl \<and> bm.exclusive ts x \<and> map fst ts = jobs \<and> list_all (thread_at bl) ts \<and>
        mset log = mset (concat (map outcome ts)) \<and> legal (free_set bl0) log (free_set bl) \<and>
        (\<forall>b. b \<notin> bitmap_blocks \<longrightarrow> (\<forall>i buf. B_write i buf \<in> set jobs \<longrightarrow> unat i \<noteq> b) \<longrightarrow>
           contents bl b = contents bl0 b))"

lemma blocks_inv_start:
  assumes "bl_ok bl"
  shows "blocks_inv bl jobs (map (\<lambda>j. (j, B_start)) jobs) (Inr bl)"
proof -
  have "thread_at bl (j, B_start)" for j by (cases j) simp_all
  moreover have "concat (map (outcome \<circ> (\<lambda>j. (j, B_start))) jobs) = []" by simp
  ultimately show ?thesis
    using assms unfolding blocks_inv_def
    by (intro exI [of _ bl] exI [of _ "[]"]) (simp add: formatted_def bl_ok_def bm.exclusive_def list_all_length comp_def)
qed

lemma blocks_inv_step:
  assumes inv: "blocks_inv bl0 jobs ts x" and v: "\<forall>j \<in> set jobs. valid_job j" and st: "interleave block_act (ts, x) (ts', x')"
  shows "blocks_inv bl0 jobs ts' x'"
proof -
  obtain k t' where k: "k < length ts" "block_act (ts ! k) x (t', x')" "ts' = ts[k := t']"
    using st by (auto elim: interleaveE)
  obtain bl log where i: "x = Inr bl" "formatted bl" "bm.exclusive ts x" "map fst ts = jobs" "list_all (thread_at bl) ts"
      "mset log = mset (concat (map outcome ts))" "legal (free_set bl0) log (free_set bl)"
      "\<forall>b. b \<notin> bitmap_blocks \<longrightarrow> (\<forall>i buf. B_write i buf \<in> set jobs \<longrightarrow> unat i \<noteq> b) \<longrightarrow> contents bl b = contents bl0 b"
    using inv by (auto simp: blocks_inv_def)
  have at: "thread_at bl (ts ! l)" "valid_job (fst (ts ! l))" "fst (ts ! l) \<in> set jobs" if "l < length ts" for l
    using that i(4,5) v by (auto simp: list_all_length)
  have "\<exists>bl'. x' = Inr bl' \<and> step_effect bl (ts ! k) bl' t'"
    using block_step_effect [of "fst (ts ! k)" "snd (ts ! k)" bl t' x'] k(2) i(1,2) at [OF k(1)] by simp
  then obtain bl' new where e: "x' = Inr bl'" "fst t' = fst (ts ! k)" "formatted bl'" "thread_at bl' t'"
      "outcome t' = outcome (ts ! k) @ new" "legal (free_set bl) new (free_set bl')"
      "\<forall>b. b \<notin> bitmap_blocks \<longrightarrow> (\<forall>i buf. fst (ts ! k) = B_write i buf \<longrightarrow> unat i \<noteq> b) \<longrightarrow> contents bl' b = contents bl b"
      "block_inside (ts ! k) \<or> (\<forall>b \<in> bitmap_blocks. contents bl' b = contents bl b)"
    by (auto simp: step_effect_def)
  have "thread_at bl' (ts ! l)" if "l < length ts" "l \<noteq> k" for l
    using e(8) thread_at_outside [OF at(1) bm.exclusive_others [OF i(3) k(1)]] thread_at_cong [OF at(1,2)] that by blast
  then have "list_all (thread_at bl') ts'" using e(4) k(1,3) unfolding list_all_length
    by (metis length_list_update nth_list_update)
  moreover have "bm.exclusive ts' x'" using bm.exclusive_step [OF i(3) k(1,2)] e(1) k(3) by simp
  moreover have "map fst ts' = map fst ts" using e(2) k(1,3) by (simp add: map_update list_update_same_conv)
  then have "map fst ts' = jobs" using i(4) by simp
  moreover have "mset (log @ new) = mset (concat (map outcome ts'))"
    using outcomes_update [OF k(1) e(5)] i(6) k(3) by simp
  moreover have "legal (free_set bl0) (log @ new) (free_set bl')" using i(7) e(6) legal_append by blast
  moreover have "\<forall>b. b \<notin> bitmap_blocks \<longrightarrow> (\<forall>i buf. B_write i buf \<in> set jobs \<longrightarrow> unat i \<noteq> b) \<longrightarrow>
      contents bl' b = contents bl0 b"
    using e(7) i(8) at(3) [OF k(1)] by metis
  ultimately show ?thesis using e(1,3) unfolding blocks_inv_def by blast
qed

lemma blocks_inv_run:
  assumes "(interleave block_act)\<^sup>*\<^sup>* (ts, x) (ts', x')" and "blocks_inv bl0 jobs ts x" and "\<forall>j \<in> set jobs. valid_job j"
  shows "blocks_inv bl0 jobs ts' x'"
  using assms(1,2)
proof (induction rule: rtranclp_induct2)
  case (step ts1 x1 ts2 x2)
  then show ?case using blocks_inv_step [OF _ assms(3)] by blast
qed

subsection \<open>Every call returns\<close>

fun block_rank :: "block_thread \<Rightarrow> nat" where
  "block_rank (j, B_start) = 40000"
| "block_rank (j, B_scan b) = 32768 - b + 3"
| "block_rank (j, B_fetch) = 3"
| "block_rank (j, B_mark b buf) = 2"
| "block_rank (j, B_unlock r) = 1"
| "block_rank (j, B_done r) = 0"

lemma block_rank_step: "block_act t x (t', x') \<Longrightarrow> block_rank t' < block_rank t"
  by (cases rule: block_act.cases) auto

lemma block_done_iff: "block_done t \<longleftrightarrow> block_rank t = 0"
  by (cases t rule: block_rank.cases) auto

lemma inside_moves:
  assumes "block_inside t" and "thread_at bl t"
  shows "\<exists>p. block_act t (Inr bl) p"
proof -
  obtain j pc where t: "t = (j, pc)" by (cases t)
  show ?thesis
  proof (cases pc)
    case (B_scan b)
    then have j: "j = B_alloc" using assms t by (cases j) auto
    show ?thesis
    proof (cases "b < BLOCK_NUM")
      case True
      then show ?thesis
        using block_act.scan_fault [OF True] block_act.scan_used [OF True] block_act.scan_free [OF True _ refl]
        unfolding t B_scan j by (metis obj_sumE)
    qed (use block_act.scan_end t B_scan j in blast)
  next
    case B_fetch
    then obtain i where j: "j = B_free i" using assms t by (cases j) auto
    show ?thesis using block_act.fetch [OF _ refl] block_act.fetch_fault unfolding t B_fetch j by (metis obj_sumE)
  next
    case (B_mark b buf)
    show ?thesis using block_act.mark block_act.mark_fault unfolding t B_mark by (metis obj_sumE)
  next
    case (B_unlock r)
    show ?thesis using block_act.unlock unfolding t B_unlock by blast
  qed (use assms(1) t in auto)
qed

lemma start_moves:
  assumes "\<not> bl_bitmap_mutex bl"
  shows "\<exists>p. block_act (j, B_start) (Inr bl) p"
proof -
  have lock: "bitmap_lock bl = Inr (bl\<lparr>bl_bitmap_mutex := True\<rparr>)" using assms by (simp add: bitmap_lock_def)
  show ?thesis
  proof (cases j)
    case B_alloc
    then show ?thesis using block_act.alloc_lock [OF lock] by blast
  next
    case (B_free b)
    then show ?thesis using block_act.free_lock [OF lock] by blast
  next
    case (B_write b buf)
    show ?thesis using block_act.store block_act.store_fault unfolding B_write by (metis obj_sumE)
  qed
qed

text \<open>No deadlock: the thread that has the mutex can go on, and without one the others can take it.\<close>

lemma blocks_progress:
  assumes "blocks_inv bl0 jobs ts x" and "\<not> list_all block_done ts"
  shows "\<exists>cfg. interleave block_act (ts, x) cfg"
proof -
  obtain bl where i: "x = Inr bl" "bm.exclusive ts x" "list_all (thread_at bl) ts"
    using assms(1) by (auto simp: blocks_inv_def)
  have "\<exists>k<length ts. \<exists>p. block_act (ts ! k) x p"
  proof (cases "\<exists>k<length ts. block_inside (ts ! k)")
    case True
    then show ?thesis using inside_moves i(1,3) by (metis list_all_length)
  next
    case False
    then have free: "\<not> bl_bitmap_mutex bl" using i(1,2) by (simp add: bm.exclusive_def)
    obtain k where k: "k < length ts" "\<not> block_done (ts ! k)" using assms(2) by (auto simp: list_all_length)
    obtain j pc where t: "ts ! k = (j, pc)" by (cases "ts ! k")
    have "\<not> block_inside (ts ! k)" using False k(1) by blast
    then have "pc = B_start" using k(2) t by (cases pc) auto
    with k(1) t start_moves [OF free, of j] i(1) show ?thesis by metis
  qed
  then show ?thesis using interleave.move [where act = block_act] by (metis surj_pair)
qed

lemma blocks_finish:
  assumes "blocks_inv bl0 jobs ts x" and "\<forall>j \<in> set jobs. valid_job j"
  shows "\<exists>ts' x'. (interleave block_act)\<^sup>*\<^sup>* (ts, x) (ts', x') \<and> list_all block_done ts' \<and>
    (list_all block_done ts \<longrightarrow> (ts', x') = (ts, x))"
  using assms(1)
proof (induction "sum_list (map block_rank ts)" arbitrary: ts x rule: less_induct)
  case less
  show ?case
  proof (cases "list_all block_done ts")
    case False
    then obtain ts1 x1 where st: "interleave block_act (ts, x) (ts1, x1)" using blocks_progress [OF less.prems] by auto
    then obtain k t' where k: "k < length ts" "block_act (ts ! k) x (t', x1)" "ts1 = ts[k := t']"
      by (auto elim: interleaveE)
    have "sum_list (map block_rank ts1) < sum_list (map block_rank ts)"
      using sum_list_replace [of k "map block_rank ts"] block_rank_step [OF k(2)] k(1,3) by (simp add: map_update)
    from less.hyps [OF this blocks_inv_step [OF less.prems assms(2) st]]
    obtain ts' x' where "(interleave block_act)\<^sup>*\<^sup>* (ts1, x1) (ts', x')" "list_all block_done ts'" by auto
    with converse_rtranclp_into_rtranclp [where r = "interleave block_act", OF st] False show ?thesis by blast
  qed blast
qed

lemma done_outcomes:
  assumes "list_all block_done ts"
  obtains rs where "length rs = length ts" and "ts = map2 (\<lambda>j r. (j, B_done r)) (map fst ts) rs"
    and "concat (map outcome ts) = zip (map fst ts) rs"
  using assms
proof (induction ts arbitrary: thesis)
  case (Cons t ts)
  obtain j r where t: "t = (j, B_done r)" using Cons.prems(2) by (cases t rule: block_rank.cases) auto
  obtain rs where "length rs = length ts" "ts = map2 (\<lambda>j r. (j, B_done r)) (map fst ts) rs"
      "concat (map outcome ts) = zip (map fst ts) rs"
    using Cons.IH Cons.prems(2) by auto
  with Cons.prems(1) [of "r # rs"] t show ?case by simp
qed simp

subsection \<open>Properties\<close>

text \<open>
  C31: Calls of \<open>alloc_block\<close>, \<open>free_block\<close> and \<open>write_block\<close> by any number of threads behave as if made
  one after the other. From every state of a run all calls can be brought to their end without
  a fault, and when they have ended, their results and the blocks left free are those of the
  same calls made in some order, each with a whole bitmap to itself; blocks that no call writes
  are unchanged.
\<close>

theorem block_calls_serialize:
  assumes "bl_ok bl" and "\<forall>j \<in> set jobs. valid_job j"
    and "(interleave block_act)\<^sup>*\<^sup>* (map (\<lambda>j. (j, B_start)) jobs, Inr bl) (ts, x)"
  shows "\<exists>rs log bl'. length rs = length jobs \<and>
    (interleave block_act)\<^sup>*\<^sup>* (ts, x) (map2 (\<lambda>j r. (j, B_done r)) jobs rs, Inr bl') \<and>
    (list_all block_done ts \<longrightarrow> (ts, x) = (map2 (\<lambda>j r. (j, B_done r)) jobs rs, Inr bl')) \<and>
    bl_ok bl' \<and> mset log = mset (zip jobs rs) \<and> legal (free_set bl) log (free_set bl') \<and>
    (\<forall>b. b \<notin> bitmap_blocks \<longrightarrow> (\<forall>i buf. B_write i buf \<in> set jobs \<longrightarrow> unat i \<noteq> b) \<longrightarrow>
       contents bl' b = contents bl b)"
proof -
  have inv: "blocks_inv bl jobs ts x" by (rule blocks_inv_run [OF assms(3) blocks_inv_start [OF assms(1)] assms(2)])
  then obtain ts' x' where run: "(interleave block_act)\<^sup>*\<^sup>* (ts, x) (ts', x')" "list_all block_done ts'"
      "list_all block_done ts \<longrightarrow> (ts', x') = (ts, x)"
    using blocks_finish [OF _ assms(2)] by blast
  have "blocks_inv bl jobs ts' x'" by (rule blocks_inv_run [OF run(1) inv assms(2)])
  then obtain bl' log where i: "x' = Inr bl'" "formatted bl'" "bm.exclusive ts' x'" "map fst ts' = jobs"
      "mset log = mset (concat (map outcome ts'))" "legal (free_set bl) log (free_set bl')"
      "\<forall>b. b \<notin> bitmap_blocks \<longrightarrow> (\<forall>i buf. B_write i buf \<in> set jobs \<longrightarrow> unat i \<noteq> b) \<longrightarrow> contents bl' b = contents bl b"
    by (auto simp: blocks_inv_def)
  obtain rs where rs: "length rs = length ts'" "ts' = map2 (\<lambda>j r. (j, B_done r)) jobs rs"
      "concat (map outcome ts') = zip jobs rs"
    by (rule done_outcomes [OF run(2)]) (use i(4) in auto)
  have "\<not> block_inside t" if "block_done t" for t using that by (cases t rule: block_rank.cases) auto
  then have "\<not> bl_bitmap_mutex bl'" using i(1,3) run(2) by (auto simp: bm.exclusive_def list_all_length)
  then have "bl_ok bl'" using i(2) by (simp add: bl_ok_def formatted_def)
  moreover have "length rs = length jobs" using rs(1) i(4) by auto
  ultimately show ?thesis using run(1,3) i(1,5-7) rs(2,3) by (intro exI [of _ rs] exI [of _ log] exI [of _ bl']) simp
qed

theorem block_calls_serialize_witness:
  "\<exists>r s bl'. (interleave block_act)\<^sup>*\<^sup>* ([(B_alloc, B_start), (B_alloc, B_start)], Inr (new_block_layer False))
       ([(B_alloc, B_done r), (B_alloc, B_done s)], Inr bl') \<and>
     {r, s} = {123, 124} \<and> free_set bl' = data_blocks - {123, 124}"
proof -
  let ?bl = "new_block_layer False" and ?jobs = "[B_alloc, B_alloc]"
  have F: "bl_ok ?bl" "free_set ?bl = data_blocks" by (rule new_block_layer_ok)+
  obtain rs log bl' where r: "length rs = length ?jobs"
      "(interleave block_act)\<^sup>*\<^sup>* (map (\<lambda>j. (j, B_start)) ?jobs, Inr ?bl) (map2 (\<lambda>j r. (j, B_done r)) ?jobs rs, Inr bl')"
      "mset log = mset (zip ?jobs rs)" "legal data_blocks log (free_set bl')"
    using block_calls_serialize [OF F(1), of ?jobs "map (\<lambda>j. (j, B_start)) ?jobs" "Inr ?bl"] F(2) by auto
  obtain r s where rs: "rs = [r, s]" using r(1) by (auto simp: length_Suc_conv)
  have "Min data_blocks = 123" "data_blocks - {123} = {124..<32768}" by (auto simp: data_blocks_def intro!: Min_eqI)
  moreover have "Min {124..<32768} = (124 :: nat)" "data_blocks \<noteq> {}" by (auto simp: data_blocks_def intro!: Min_eqI)
  ultimately have two: "legal data_blocks [(B_alloc, p), (B_alloc, q)] F \<longleftrightarrow> p = 123 \<and> q = 124 \<and> F = data_blocks - {123, 124}" for p q F
    by (auto simp: data_blocks_def)
  have "length log = 2" using r(3) rs by (metis mset_eq_length length_zip list.size(3,4) min.idem One_nat_def Suc_1 add.commute plus_1_eq_Suc)
  then obtain a b where "log = [a, b]" by (auto simp: numeral_2_eq_2 length_Suc_conv)
  with r(3) rs have "log = [(B_alloc, r), (B_alloc, s)] \<or> log = [(B_alloc, s), (B_alloc, r)]"
    by (auto simp: add_eq_conv_ex)
  then have "{r, s} = {123, 124} \<and> free_set bl' = data_blocks - {123, 124}"
    by (elim disjE) (use r(4) two [of r s "free_set bl'"] two [of s r "free_set bl'"] in \<open>simp_all add: insert_commute del: legal.simps\<close>)
  then show ?thesis using r(2) rs by (intro exI [of _ r] exI [of _ s] exI [of _ bl']) simp
qed

text \<open>
  C21: Threads that allocate never share a block: at every moment of a run of any number of calls
  of \<open>alloc_block\<close>, the blocks given out so far are different from each other, were free at the
  start and are not free any more.
\<close>

theorem concurrent_allocs_distinct:
  assumes "bl_ok bl"
    and "(interleave block_act)\<^sup>*\<^sup>* (replicate n (B_alloc, B_start), Inr bl) (ts, x)"
  shows "\<exists>bl'. x = Inr bl' \<and> distinct (filter (\<lambda>r. r \<noteq> - 1) (map snd (concat (map outcome ts)))) \<and>
    (\<forall>r \<in> set (map snd (concat (map outcome ts))). r = - 1 \<or> unat r \<in> free_set bl - free_set bl')"
proof -
  let ?jobs = "replicate n B_alloc"
  have "blocks_inv bl ?jobs (replicate n (B_alloc, B_start)) (Inr bl)" using blocks_inv_start [OF assms(1), of ?jobs] by simp
  then have "blocks_inv bl ?jobs ts x" by (rule blocks_inv_run [OF assms(2)]) simp
  then obtain bl' log where i: "x = Inr bl'" "map fst ts = ?jobs" "mset log = mset (concat (map outcome ts))"
      "legal (free_set bl) log (free_set bl')"
    by (auto simp: blocks_inv_def)
  have "j = B_alloc" if "(j, r) \<in> set (outcome t)" "t \<in> set ts" for j r t
  proof -
    have "fst t = B_alloc" using that(2) arg_cong [OF i(2), of set] by (force split: if_splits)
    with that(1) show ?thesis by (cases t rule: outcome.cases) auto
  qed
  then have "\<forall>e \<in> set log. fst e = B_alloc" using mset_eq_setD [OF i(3)] by fastforce
  then have "log = map (Pair B_alloc) (map snd log)" by (induction log) auto
  then have l: "legal (free_set bl) (map (Pair B_alloc) (map snd log)) (free_set bl')" using i(4) by metis
  have rs: "mset (map snd log) = mset (map snd (concat (map outcome ts)))" using i(3) by (metis mset_map)
  have "mset (filter (\<lambda>r. r \<noteq> - 1) (map snd log)) = mset (filter (\<lambda>r. r \<noteq> - 1) (map snd (concat (map outcome ts))))"
    using rs by (metis mset_filter)
  then have "distinct (filter (\<lambda>r. r \<noteq> - 1) (map snd (concat (map outcome ts))))"
    using legal_allocs(3) [OF l free_set_data] mset_eq_imp_distinct_iff by blast
  moreover have "unat r \<in> free_set bl - free_set bl'" if r: "r \<in> set (map snd log)" "r \<noteq> - 1" for r
  proof -
    obtain b where b: "b \<in> free_set bl - free_set bl'" "r = word_of_nat b"
      using legal_allocs(2) [OF l free_set_data] r by auto
    moreover have "b < 32768" using b(1) free_set_data [of bl] by (auto simp: data_blocks_def)
    ultimately show ?thesis by (simp add: unat_of_nat32)
  qed
  ultimately show ?thesis using i(1) mset_eq_setD [OF rs] by metis
qed

theorem concurrent_allocs_distinct_witness:
  "\<exists>bl' r s. (interleave block_act)\<^sup>*\<^sup>* ([(B_alloc, B_start), (B_alloc, B_start)], Inr (new_block_layer False))
       ([(B_alloc, B_done r), (B_alloc, B_done s)], Inr bl') \<and> (r = s \<longrightarrow> r = - 1)"
proof -
  let ?bl = "new_block_layer False" and ?s = "(B_alloc, B_start)"
  have "123 \<in> data_blocks" "124 \<in> data_blocks" by (simp_all add: data_blocks_def)
  then have ne: "data_blocks - {m} \<noteq> {}" for m by (cases "m = 123") auto
  obtain r b1 where a: "alloc_block (\<lambda>_. 0) ?bl = Inr (r, b1)" "bl_ok b1" "free_set b1 \<noteq> {}"
    using alloc_block_spec [OF new_block_layer_ok(1,3), of "\<lambda>_. 0"] ne
    unfolding new_block_layer_ok(2) by metis
  obtain s b2 where b: "alloc_block (\<lambda>_. 0) b1 = Inr (s, b2)" using alloc_block_spec [OF a(2,3)] by blast
  have "(interleave block_act)\<^sup>*\<^sup>* ([?s, ?s], Inr ?bl) ([(B_alloc, B_done r), ?s], Inr b1)"
    using interleave_thread [OF alloc_block_run [OF a(1)], of 0 "[?s, ?s]"] by simp
  also have "(interleave block_act)\<^sup>*\<^sup>* \<dots> ([(B_alloc, B_done r), (B_alloc, B_done s)], Inr b2)"
    using interleave_thread [OF alloc_block_run [OF b], of 1 "[(B_alloc, B_done r), ?s]"] by simp
  finally have run: "(interleave block_act)\<^sup>*\<^sup>* ([?s, ?s], Inr ?bl) ([(B_alloc, B_done r), (B_alloc, B_done s)], Inr b2)" .
  have "replicate 2 ?s = [?s, ?s]" by (simp add: numeral_2_eq_2)
  then have "distinct (filter (\<lambda>r. r \<noteq> - 1) [r, s])"
    using concurrent_allocs_distinct [OF new_block_layer_ok(1), of 2] run by fastforce
  with run show ?thesis by (auto split: if_splits)
qed

end
