(* ===== verification/Remove_Race.thy ===== *)
theory Remove_Race
  imports File_Remove Interleave
begin

text \<open>
  Threads that remove and create files. \<open>remove_file\<close> looks the inode up, releases the blocks the
  copy of the inode names and frees the inode, and holds no lock between these parts; each
  of them is a step here, and so is a whole call of \<open>alloc_inode\<close>. The steps are coarse: every
  run of them is a run of the program's single accesses too, so what goes wrong here can
  go wrong there.
\<close>

subsection \<open>The parts of \<open>remove_file\<close>\<close>

text \<open>The call a thread makes: \<open>remove_file\<close>, or a whole \<^const>\<open>alloc_inode\<close> with its times and type.\<close>

datatype dir_job = D_remove u32 | D_create "u64 \<times> u64 \<times> u64" u32

text \<open>Before the look-up (or the call of \<open>alloc_inode\<close>), with the inode, before \<open>free_inode\<close>, returned.\<close>

datatype dir_pc = D_look | D_blocks inode | D_inode | D_end "u32 option"

inductive dir_act ::
    "dir_job \<times> dir_pc \<Rightarrow> fault + block_layer \<Rightarrow> (dir_job \<times> dir_pc) \<times> (fault + block_layer) \<Rightarrow> bool" where
  look: "get_inode stk bl inum = Inr (Some ino) \<Longrightarrow>
    dir_act (D_remove inum, D_look) (Inr bl) ((D_remove inum, D_blocks ino), Inr bl)"
| look_null: "get_inode stk bl inum = Inr None \<Longrightarrow>
    dir_act (D_remove inum, D_look) (Inr bl) ((D_remove inum, D_end None), Inr bl)"
| look_fault: "get_inode stk bl inum = Inl f \<Longrightarrow>
    dir_act (D_remove inum, D_look) (Inr bl) ((D_remove inum, D_end None), Inl f)"
| release: "remove_blocks stk bl ino = Inr bl' \<Longrightarrow>
    dir_act (D_remove inum, D_blocks ino) (Inr bl) ((D_remove inum, D_inode), Inr bl')"
| release_fault: "remove_blocks stk bl ino = Inl f \<Longrightarrow>
    dir_act (D_remove inum, D_blocks ino) (Inr bl) ((D_remove inum, D_end None), Inl f)"
| free: "free_inode stk bl inum = Inr bl' \<Longrightarrow>
    dir_act (D_remove inum, D_inode) (Inr bl) ((D_remove inum, D_end None), Inr bl')"
| free_fault: "free_inode stk bl inum = Inl f \<Longrightarrow>
    dir_act (D_remove inum, D_inode) (Inr bl) ((D_remove inum, D_end None), Inl f)"
| create: "alloc_inode stk tm bl ty = Inr (inum, bl') \<Longrightarrow>
    dir_act (D_create tm ty, D_look) (Inr bl) ((D_create tm ty, D_end (Some inum)), Inr bl')"
| create_fault: "alloc_inode stk tm bl ty = Inl f \<Longrightarrow>
    dir_act (D_create tm ty, D_look) (Inr bl) ((D_create tm ty, D_end None), Inl f)"

abbreviation dir_run :: "(dir_job \<times> dir_pc) \<times> (fault + block_layer) \<Rightarrow> (dir_job \<times> dir_pc) \<times> (fault + block_layer) \<Rightarrow> bool" where
  "dir_run \<equiv> (\<lambda>(t, s). dir_act t s)\<^sup>*\<^sup>*"

lemma dir_run_step: "dir_act t s p \<Longrightarrow> dir_run p q \<Longrightarrow> dir_run (t, s) q"
  by (rule converse_rtranclp_into_rtranclp) simp_all

text \<open>The rest of a call that has looked the inode up, and a whole call.\<close>

lemma release_run:
  assumes "remove_blocks stk bl ino = Inr bl1"
  shows "free_inode stk bl1 inum = Inr bl2 \<Longrightarrow>
      dir_run ((D_remove inum, D_blocks ino), Inr bl) ((D_remove inum, D_end None), Inr bl2)"
    and "free_inode stk bl1 inum = Inl f \<Longrightarrow>
      dir_run ((D_remove inum, D_blocks ino), Inr bl) ((D_remove inum, D_end None), Inl f)"
  using dir_run_step [OF dir_act.release [OF assms]] dir_run_step [OF dir_act.free] dir_run_step [OF dir_act.free_fault]
  by (meson rtranclp.rtrancl_refl)+

lemma remove_file_run:
  assumes "remove_file stk bl inum = Inr bl'"
  shows "dir_run ((D_remove inum, D_look), Inr bl) ((D_remove inum, D_end None), Inr bl')"
proof -
  obtain r where r: "get_inode stk bl inum = Inr r" using assms by (auto simp: remove_file_def rbind_Inr_iff)
  show ?thesis
  proof (cases r)
    case None
    then have "bl' = bl" using assms r by (simp add: remove_file_def)
    then show ?thesis using dir_run_step [OF dir_act.look_null] r None by simp
  next
    case (Some ino)
    then obtain bl1 where b: "remove_blocks stk bl ino = Inr bl1" "free_inode stk bl1 inum = Inr bl'"
      using assms r by (auto simp: remove_file_def rbind_Inr_iff)
    show ?thesis using dir_run_step [OF dir_act.look release_run(1) [OF b]] r Some by simp
  qed
qed

subsection \<open>A removal that is overtaken\<close>

text \<open>The blocks of an inode can be released again, as long as the data blocks keep their bytes.\<close>

lemma removable_cong:
  assumes "removable bl ino" and "\<And>b. b \<in> data_blocks \<Longrightarrow> contents bl' b = contents bl b"
  shows "removable bl' ino"
proof -
  have "file_block bl' ino (8 + k) = file_block bl ino (8 + k)" if "k < indirect_count (file_size ino)" for k
    using assms that by (auto simp: removable_def indirect_count_def file_block_def split: if_splits)
  with assms(1) show ?thesis by (simp add: removable_def)
qed

lemma released_inodes:
  assumes "released bl bl' S" and "j < 1024"
  shows "inode_at bl' j = inode_at bl j"
  using assms inode_blocks_apart(1) by (intro inode_at_cong) (auto simp: released_def)

text \<open>One thread has looked the file up when another one removes it.\<close>

lemma overtaken:
  assumes "bl_ok bl" and "in_use bl (unat inum)" and "removable bl (inode_at bl (unat inum))"
  obtains bl1 where "dir_run ((D_remove inum, D_look), Inr bl) ((D_remove inum, D_blocks (inode_at bl (unat inum))), Inr bl)"
    and "dir_run ((D_remove inum, D_look), Inr bl) ((D_remove inum, D_end None), Inr bl1)"
    and "removed bl (unat inum) bl1"
proof -
  have "get_inode stk bl inum = Inr (Some (inode_at bl (unat inum)))" using get_inode_spec [OF assms(1)] assms(2) by simp
  then have "dir_run ((D_remove inum, D_look), Inr bl) ((D_remove inum, D_blocks (inode_at bl (unat inum))), Inr bl)"
    by (rule dir_run_step [OF dir_act.look rtranclp.rtrancl_refl])
  moreover obtain bl1 where "remove_file stk bl inum = Inr bl1" "removed bl (unat inum) bl1"
    using remove_file_spec [OF assms(1,2) refl assms(3)] by blast
  ultimately show thesis using that remove_file_run by blast
qed

subsection \<open>Properties\<close>

text \<open>
  Two threads that remove one file can end the process: when both have looked it up before either
  frees it, the later one releases the blocks again and then dereferences the null pointer that
  \<open>get_inode\<close> returns in \<open>free_inode\<close>.
\<close>

theorem double_remove_crash:
  assumes "bl_ok bl" and "in_use bl (unat inum)" and "removable bl (inode_at bl (unat inum))"
  shows "(interleave dir_act)\<^sup>*\<^sup>* ([(D_remove inum, D_look), (D_remove inum, D_look)], Inr bl)
    ([(D_remove inum, D_end None), (D_remove inum, D_end None)], Inl Null_deref)"
proof -
  let ?ino = "inode_at bl (unat inum)"
  obtain bl1 where o: "dir_run ((D_remove inum, D_look), Inr bl) ((D_remove inum, D_blocks ?ino), Inr bl)"
      "dir_run ((D_remove inum, D_look), Inr bl) ((D_remove inum, D_end None), Inr bl1)" "removed bl (unat inum) bl1"
    by (rule overtaken [OF assms])
  have 1: "bl_ok bl1" "\<not> in_use bl1 (unat inum)" using o(3) by (auto simp: removed_def)
  have "removable bl1 ?ino" by (rule removable_cong [OF assms(3)]) (use o(3) in \<open>simp add: removed_def\<close>)
  then obtain bl2 where 2: "remove_blocks stk bl1 ?ino = Inr bl2" "released bl1 bl2 (removed_blocks bl1 ?ino)"
    using remove_blocks_released [OF 1(1)] by metis
  have i: "unat inum < 1024" using assms(2) by (simp add: in_use_def)
  have "\<not> in_use bl2 (unat inum)" using 1(2) released_inodes [OF 2(2) i] by (simp add: in_use_def)
  then have f: "free_inode stk bl2 inum = Inl Null_deref"
    using get_inode_spec [of bl2 stk inum] 2(2) by (simp add: free_inode_def released_def)
  have "(interleave dir_act)\<^sup>*\<^sup>* ([(D_remove inum, D_look), (D_remove inum, D_look)], Inr bl)
      ([(D_remove inum, D_blocks ?ino), (D_remove inum, D_look)], Inr bl)"
    using interleave_thread [OF o(1), of 0 "[_, (D_remove inum, D_look)]"] by simp
  also have "(interleave dir_act)\<^sup>*\<^sup>* \<dots> ([(D_remove inum, D_blocks ?ino), (D_remove inum, D_end None)], Inr bl1)"
    using interleave_thread [OF o(2), of 1 "[(D_remove inum, D_blocks ?ino), _]"] by simp
  also have "(interleave dir_act)\<^sup>*\<^sup>* \<dots> ([(D_remove inum, D_end None), (D_remove inum, D_end None)], Inl Null_deref)"
    using interleave_thread [OF release_run(2) [OF 2(1) f], of 0 "[_, (D_remove inum, D_end None)]"] by simp
  finally show ?thesis .
qed

text \<open>
  C26: A removal that is overtaken can take away another file: a thread has looked up file \<open>inum\<close>;
  a second thread removes it, a third one creates a file and is given the number \<open>inum\<close> again; the
  first one then frees that inode. All three calls return, and the file just created is gone.
\<close>

theorem remove_takes_new_file:
  assumes "bl_ok bl" and "in_use bl (unat inum)" and "removable bl (inode_at bl (unat inum))"
    and "\<forall>z < unat inum. in_use bl z" and "(ucast ty :: u16) \<noteq> 0"
  shows "\<exists>bl'. (interleave dir_act)\<^sup>*\<^sup>*
      ([(D_remove inum, D_look), (D_remove inum, D_look), (D_create tm ty, D_look)], Inr bl)
      ([(D_remove inum, D_end None), (D_remove inum, D_end None), (D_create tm ty, D_end (Some inum))], Inr bl') \<and>
    bl_ok bl' \<and> \<not> in_use bl' (unat inum)"
proof -
  let ?i = "unat inum" and ?ino = "inode_at bl (unat inum)"
  let ?R = "D_remove inum" and ?C = "D_create tm ty"
  obtain bl1 where o: "dir_run ((?R, D_look), Inr bl) ((?R, D_blocks ?ino), Inr bl)"
      "dir_run ((?R, D_look), Inr bl) ((?R, D_end None), Inr bl1)" "removed bl ?i bl1"
    by (rule overtaken [OF assms(1-3)])
  have i: "?i < 1024" using assms(2) by (simp add: in_use_def)
  have 1: "bl_ok bl1" "\<not> in_use bl1 ?i" "\<forall>z < ?i. in_use bl1 z" "\<forall>b \<in> data_blocks. contents bl1 b = contents bl b"
    using o(3) assms(4) i by (auto simp: removed_def in_use_def)
  have "find_free_inode stk bl1 0 = Inr ?i" using 1 i by (intro find_free_inode_found) auto
  then obtain bl2 where 2: "alloc_inode stk tm bl1 ty = Inr (inum, bl2)" "bl_ok bl2" "inode_at bl2 ?i = new_inode tm ty"
      "\<forall>b. b \<notin> inode_blocks \<longrightarrow> contents bl2 b = contents bl1 b"
    using alloc_inode_at [OF 1(1), of stk ?i tm ty] i by auto
  have "contents bl2 b = contents bl b" if "b \<in> data_blocks" for b
    using 1(4) 2(4) that inode_blocks_apart(2) by (metis disjoint_iff)
  with removable_cong [OF assms(3)] have "removable bl2 ?ino" .
  then obtain bl3 where 3: "remove_blocks stk bl2 ?ino = Inr bl3" "released bl2 bl3 (removed_blocks bl2 ?ino)"
    using remove_blocks_released [OF 2(2)] by metis
  have "in_use bl3 ?i"
    using released_inodes [OF 3(2) i] 2(3) i assms(5) by (cases tm) (simp add: in_use_def new_inode_def)
  moreover have "bl_ok bl3" using 3(2) by (simp add: released_def)
  ultimately obtain bl4 where 4: "free_inode stk bl3 inum = Inr bl4" "bl_ok bl4" "i_type (inode_at bl4 ?i) = 0"
    using free_inode_spec [of bl3 inum stk] i by auto
  have "(interleave dir_act)\<^sup>*\<^sup>* ([(?R, D_look), (?R, D_look), (?C, D_look)], Inr bl)
      ([(?R, D_blocks ?ino), (?R, D_look), (?C, D_look)], Inr bl)"
    using interleave_thread [OF o(1), of 0 "[_, (?R, D_look), (?C, D_look)]"] by simp
  also have "(interleave dir_act)\<^sup>*\<^sup>* \<dots> ([(?R, D_blocks ?ino), (?R, D_end None), (?C, D_look)], Inr bl1)"
    using interleave_thread [OF o(2), of 1 "[(?R, D_blocks ?ino), _, (?C, D_look)]"] by simp
  also have "(interleave dir_act)\<^sup>*\<^sup>* \<dots> ([(?R, D_blocks ?ino), (?R, D_end None), (?C, D_end (Some inum))], Inr bl2)"
    using interleave_thread [OF dir_run_step [OF dir_act.create [OF 2(1)] rtranclp.rtrancl_refl], of 2
        "[(?R, D_blocks ?ino), (?R, D_end None), _]"] by simp
  also have "(interleave dir_act)\<^sup>*\<^sup>* \<dots> ([(?R, D_end None), (?R, D_end None), (?C, D_end (Some inum))], Inr bl4)"
    using interleave_thread [OF release_run(1) [OF 3(1) 4(1)], of 0 "[_, (?R, D_end None), (?C, D_end (Some inum))]"] by simp
  finally show ?thesis using 4(2,3) by (auto simp: in_use_def)
qed

theorem remove_takes_new_file_witness:
  "\<exists>il bl'. new_inode_layer (\<lambda>_ _. 0) (0, 0, 0) False = Inr il \<and>
     (interleave dir_act)\<^sup>*\<^sup>*
      ([(D_remove 0, D_look), (D_remove 0, D_look), (D_create (1, 2, 3) 2, D_look)], Inr (il_bm il))
      ([(D_remove 0, D_end None), (D_remove 0, D_end None), (D_create (1, 2, 3) 2, D_end (Some 0))], Inr bl') \<and>
     \<not> in_use bl' 0"
proof -
  obtain il where il: "new_inode_layer (\<lambda>_ _. 0) (0, 0, 0) False = Inr il" "il_ok il" "in_use (il_bm il) 0"
      "pointers_ok (inode_at (il_bm il) 0)" "file_size (inode_at (il_bm il) 0) = 0"
    by (rule fresh_layer) (rule that)
  have "bl_ok (il_bm il)" using il(2) by (simp add: il_ok_def)
  moreover have "removable (il_bm il) (inode_at (il_bm il) 0)" using il(4,5) by (simp add: removable_def indirect_count_def)
  ultimately show ?thesis
    using remove_takes_new_file [of "il_bm il" 0 2 "(1, 2, 3)"] il(1,3) by auto
qed

end
