(* ===== verification/Old_Layer.thy ===== *)
theory Old_Layer
  imports File_Roundtrip
begin

text \<open>
  \<open>old_stuff.cc\<close>, an earlier draft of \<open>inode_layer.cc\<close> that the \<open>Makefile\<close> does not build. Its disk,
  its inode table and \<open>free_block\<close> are those of the present file; \<open>alloc_block\<close>, \<open>read_file\<close>,
  \<open>write_file\<close>, \<open>free_inode\<close> and \<open>remove_file\<close> differ and are defined here. The draft reads files as
  the present code does; it cannot allocate on a formatted disk and never records a size.
\<close>

subsection \<open>Allocation\<close>

text \<open>
  The draft looks at byte \<open>bit_offset_in_block\<close> of the bitmap block, not at a bit, and takes the
  block when that byte is the character \<open>'0'\<close>, which is 48. The array has 512 bytes.
\<close>

function old_alloc_loop :: "buf \<Rightarrow> disk \<Rightarrow> nat \<Rightarrow> fault + (u32 \<times> disk)" where
  "old_alloc_loop junk d b =
     (if b < BLOCK_NUM then
        rbind (disk_read_array d (word_of_nat (BBLOCK b)) junk) (\<lambda>buf.
          let p = byte_offset_in_block b; m = push_bit (bit_offset_in_byte b) (1 :: byte)
          in if bit_offset_in_block b \<ge> BLOCK_SIZE then Inl Array_bounds
             else if buf (bit_offset_in_block b) = 48 then
               rbind (disk_write_block d (word_of_nat (BBLOCK b)) (Some (buf(p := buf p OR m)))) (\<lambda>d'.
                 Inr (word_of_nat b, d'))
             else old_alloc_loop junk d (b + 1))
      else Inr (0, d))"
  by pat_completeness auto
termination
  by (relation "measure (\<lambda>(j, d, b). BLOCK_NUM - b)") auto

declare old_alloc_loop.simps [simp del]

definition old_alloc_block :: "buf \<Rightarrow> block_layer \<Rightarrow> fault + (u32 \<times> block_layer)" where
  "old_alloc_block junk bl =
     rbind (bitmap_lock bl) (\<lambda>bl.
       rbind (old_alloc_loop junk (bl_d bl) (IBLOCK INODE_NUM BLOCK_NUM + 1)) (\<lambda>(b, d).
         Inr (b, bitmap_unlock (bl\<lparr>bl_d := d\<rparr>))))"

subsection \<open>Locks\<close>

text \<open>
  The draft calls \<open>reader_exit\<close> and \<open>writer_exit\<close> on its error paths although it never enters; to
  unlock a mutex that is not locked is undefined.
\<close>

definition old_reader_exit :: "inode_layer \<Rightarrow> u32 \<Rightarrow> fault + inode_layer" where
  "old_reader_exit il inum =
     (if unat inum \<ge> INODE_NUM then Inl Array_bounds
      else if rw_mutex (il_rwlocks il (unat inum)) = None then Inl Not_locked
      else il_reader_exit il inum)"

definition old_writer_exit :: "inode_layer \<Rightarrow> u32 \<Rightarrow> fault + inode_layer" where
  "old_writer_exit il inum =
     (if unat inum \<ge> INODE_NUM then Inl Array_bounds
      else if rw_mutex (il_rwlocks il (unat inum)) = None then Inl Not_locked
      else Inr (il_writer_exit il inum))"

subsection \<open>Reading\<close>

text \<open>Division of \<open>int\<close> truncates.\<close>

definition full_blocks :: "int \<Rightarrow> int" where
  "full_blocks n = (if n < 0 then - ((- n) div int BLOCK_SIZE) else n div int BLOCK_SIZE)"

definition rest_bytes :: "int \<Rightarrow> int" where
  "rest_bytes n = n - full_blocks n * int BLOCK_SIZE"

text \<open>A read straight into the result: \<open>bm->read_block(ino->blocks[x], buf + (x*BLOCK_SIZE))\<close>.\<close>

definition read_into :: "block_layer \<Rightarrow> inode \<Rightarrow> nat \<Rightarrow> buf \<Rightarrow> fault + buf" where
  "read_into bl ino x buf =
     (if x < length (i_blocks ino) then
        rbind (bl_read_block bl (i_blocks ino ! x) (\<lambda>i. buf (x * BLOCK_SIZE + i))) (\<lambda>full.
          Inr (memcpy buf (x * BLOCK_SIZE) full 0 BLOCK_SIZE))
      else Inl Array_bounds)"

definition old_read_direct :: "block_layer \<Rightarrow> inode \<Rightarrow> nat \<Rightarrow> buf \<Rightarrow> fault + buf" where
  "old_read_direct bl ino calls buf = foldl (\<lambda>r x. rbind r (read_into bl ino x)) (Inr buf) [0..<calls]"

function old_read_indirect :: "stack \<Rightarrow> block_layer \<Rightarrow> buf \<Rightarrow> int \<Rightarrow> nat \<Rightarrow> buf \<Rightarrow> fault + buf" where
  "old_read_indirect stk bl ind remaining index buf =
     (if remaining > 0 then
        if index < NINDIRECT then
          rbind (bl_read_block bl (get32 ind (4 * index)) (stk (Full_indirect_buffer (index + 8)))) (\<lambda>this.
            let bytes_to_read = min (int BLOCK_SIZE) remaining
            in old_read_indirect stk bl ind (remaining - bytes_to_read) (index + 1)
                 (memcpy buf (8 * BLOCK_SIZE + index * BLOCK_SIZE) this 0 (nat bytes_to_read)))
        else Inl Array_bounds
      else Inr buf)"
  by pat_completeness auto
termination
  by (relation "measure (\<lambda>(stk, bl, ind, remaining, _). nat remaining)") auto

declare old_read_indirect.simps [simp del]

definition old_read_data :: "stack \<Rightarrow> block_layer \<Rightarrow> inode \<Rightarrow> int \<Rightarrow> buf \<Rightarrow> fault + buf" where
  "old_read_data stk bl ino n buf =
     (let total_blocks_in_use = full_blocks n + (if rest_bytes n > 0 then 1 else 0);
          deal_with_indirect = total_blocks_in_use > 8;
          calls = (if deal_with_indirect then 8 else nat (full_blocks n))
      in rbind (old_read_direct bl ino calls buf) (\<lambda>buf.
         rbind (if rest_bytes n > 0 then
                  if calls < length (i_blocks ino) then
                    rbind (bl_read_block bl (i_blocks ino ! calls) (stk (Full_direct_buffer 0))) (\<lambda>this.
                      Inr (memcpy buf (calls * BLOCK_SIZE) this 0 (nat (rest_bytes n))))
                  else Inl Array_bounds
                else Inr buf) (\<lambda>buf.
         if deal_with_indirect then
           rbind (bl_read_block bl (i_blocks ino ! 8) (stk Indirect_block)) (\<lambda>ind.
             old_read_indirect stk bl ind (n - int (8 * BLOCK_SIZE)) 0 buf)
         else Inr buf)))"

definition old_read_file ::
    "stack \<Rightarrow> u64 \<Rightarrow> inode_layer \<Rightarrow> u32 \<Rightarrow> buf option option \<Rightarrow> int option \<Rightarrow> fault + read_result" where
  "old_read_file stk now il inum buf_out sz =
     (if buf_out = None \<or> sz = None then
        rbind (old_reader_exit il inum) (\<lambda>il. Inr (buf_out, sz, il))
      else
        rbind (get_inode stk (il_bm il) inum) (\<lambda>r.
        case r of
          None \<Rightarrow> rbind (old_reader_exit il inum) (\<lambda>il. Inr (buf_out, sz, il))
        | Some ino0 \<Rightarrow>
            let ino = ino0\<lparr>i_atime := ucast now\<rparr> in
            rbind (put_inode stk (il_bm il) inum (Some ino)) (\<lambda>bl.
            let n = sint (i_size ino) in
            rbind (old_read_data stk bl ino n (stk Malloc_buf)) (\<lambda>buf.
              Inr (Some (Some buf), Some n, il\<lparr>il_bm := bl\<rparr>)))))"

subsection \<open>Writing\<close>

text \<open>\<open>for(int x; x < 128; x++) bm->free_block(ptr[x])\<close>: the first \<open>x\<close> is not initialised.\<close>

function old_free_indirect :: "stack \<Rightarrow> buf \<Rightarrow> int \<Rightarrow> block_layer \<Rightarrow> fault + block_layer" where
  "old_free_indirect stk ind x bl =
     (if x < int NINDIRECT then
        if x < 0 then Inl Array_bounds
        else rbind (free_block (stk Scratch) bl (get32 ind (4 * nat x))) (old_free_indirect stk ind (x + 1))
      else Inr bl)"
  by pat_completeness auto
termination
  by (relation "measure (\<lambda>(stk, ind, x, bl). nat (int NINDIRECT - x))") auto

declare old_free_indirect.simps [simp del]

record old_write_state =
  o_bl :: block_layer
  o_ino :: inode
  o_remaining :: int
  o_already :: int
  o_index :: nat

text \<open>
  The pointer of a new block: \<open>ino->blocks[index]\<close> while at most 4096 bytes are written, then
  \<open>blocks[8]\<close>, since \<open>indirect_block_count\<close> stays 0.
\<close>

definition old_set_pointer :: "old_write_state \<Rightarrow> u32 \<Rightarrow> fault + inode" where
  "old_set_pointer w block_id =
     (let ino = o_ino w; k = (if o_already w > int (8 * BLOCK_SIZE) then 8 else o_index w)
      in if k < length (i_blocks ino) then Inr (ino\<lparr>i_blocks := (i_blocks ino)[k := block_id]\<rparr>)
         else Inl Array_bounds)"

text \<open>
  \<open>write_block\<close> of an array of \<open>n\<close> bytes: its \<open>memcpy\<close> reads 512 bytes.
\<close>

definition write_short :: "block_layer \<Rightarrow> u32 \<Rightarrow> buf \<Rightarrow> int \<Rightarrow> fault + block_layer" where
  "write_short bl block_id a n =
     (if unat block_id \<le> BLOCK_NUM \<and> n < int BLOCK_SIZE then Inl Array_bounds else bl_write_block bl block_id a)"

definition old_write_step :: "stack \<Rightarrow> buf \<Rightarrow> old_write_state \<Rightarrow> fault + old_write_state" where
  "old_write_step stk buf w =
     (let m = min (int BLOCK_SIZE) (o_remaining w) in
      rbind (old_alloc_block (stk Scratch) (o_bl w)) (\<lambda>(block_id, bl).
      let a = memcpy (stk (Direct_buffer (o_index w))) 0 buf (o_index w * BLOCK_SIZE) (nat m) in
      rbind (if o_remaining w > int BLOCK_SIZE then bl_write_block bl block_id a
             else write_short bl block_id a (o_remaining w)) (\<lambda>bl.
      rbind (old_set_pointer w block_id) (\<lambda>ino.
        Inr \<lparr>o_bl = bl, o_ino = ino, o_remaining = o_remaining w - m, o_already = o_already w + m,
             o_index = o_index w + 1\<rparr>))))"

lemma old_write_step_remaining [termination_simp]:
  "o_remaining w > 0 \<Longrightarrow> old_write_step stk buf w = Inr w' \<Longrightarrow> nat (o_remaining w') < nat (o_remaining w)"
  by (auto simp: old_write_step_def Let_def rbind_Inr_iff split: prod.splits)

function old_write_loop :: "stack \<Rightarrow> buf \<Rightarrow> old_write_state \<Rightarrow> fault + old_write_state" where
  "old_write_loop stk buf w =
     (if o_remaining w > 0 then rbind (old_write_step stk buf w) (old_write_loop stk buf) else Inr w)"
  by pat_completeness auto
termination
  by (relation "measure (\<lambda>(stk, buf, w). nat (o_remaining w))") (auto dest: old_write_step_remaining)

declare old_write_loop.simps [simp del]

definition old_write_file ::
    "stack \<Rightarrow> int \<Rightarrow> inode_layer \<Rightarrow> u32 \<Rightarrow> buf \<Rightarrow> int \<Rightarrow> fault + inode_layer" where
  "old_write_file stk x il inum buf sz =
     (if sz < 0 \<or> nat sz > BLOCK_SIZE * MAXFILE then old_writer_exit il inum
      else
        rbind (get_inode stk (il_bm il) inum) (\<lambda>r.
        case r of
          None \<Rightarrow> old_writer_exit il inum
        | Some ino \<Rightarrow>
            rbind (free_direct_blocks stk (il_bm il) (take NDIRECT (i_blocks ino))) (\<lambda>bl.
            rbind (bl_read_block bl (i_blocks ino ! 8) (stk Indirect_block)) (\<lambda>ind.
            rbind (old_free_indirect stk ind x bl) (\<lambda>bl.
            rbind (old_write_loop stk buf
                     \<lparr>o_bl = bl, o_ino = ino, o_remaining = sz, o_already = 0, o_index = 0\<rparr>) (\<lambda>w.
            rbind (put_inode stk (o_bl w) inum (Some (o_ino w))) (\<lambda>bl.
              Inr (il\<lparr>il_bm := bl\<rparr>))))))))"

subsection \<open>Removal\<close>

text \<open>Both bodies are empty but for the lookup of the inode.\<close>

definition old_free_inode :: "inode_layer \<Rightarrow> u32 \<Rightarrow> inode_layer" where
  "old_free_inode il inum = il"

definition old_remove_file :: "stack \<Rightarrow> inode_layer \<Rightarrow> u32 \<Rightarrow> fault + inode_layer" where
  "old_remove_file stk il inum = rbind (get_inode stk (il_bm il) inum) (\<lambda>_. Inr il)"

subsection \<open>The draft reads what the present code reads\<close>

lemma old_read_indirect_loop:
  "already \<ge> 4096 \<Longrightarrow>
     old_read_indirect stk bl ind remaining j buf = read_loop stk bl ino ind remaining already (j + 8) j buf"
proof (induction stk bl ind remaining j buf arbitrary: already rule: old_read_indirect.induct)
  case (1 stk bl ind remaining j buf)
  let ?m = "min 512 remaining"
  have "already + ?m \<ge> 4096" if "remaining > 0" using 1(2) that by linarith
  with 1 show ?case
    by (subst old_read_indirect.simps, subst read_loop.simps)
      (auto simp: Let_def add.commute mult.commute intro!: rbind_cong)
qed

lemma read_into_spec:
  assumes "readable bl ino" and "k < 8" and "512 * k < file_size ino"
    and "\<And>i. i < 512 * k \<Longrightarrow> buf i = file_data bl ino i"
  obtains buf' where "read_into bl ino k buf = Inr buf'" and "\<And>i. i < 512 * (k + 1) \<Longrightarrow> buf' i = file_data bl ino i"
proof -
  have "unat (file_block bl ino k) < 32768"
    using assms(1,3) nblk_less_iff [of k "file_size ino"] by (simp add: readable_def data_blocks_def)
  then obtain full where full: "bl_read_block bl (file_block bl ino k) (\<lambda>i. buf (k * 512 + i)) = Inr full"
      "\<And>i. i < 512 \<Longrightarrow> full i = contents bl (unat (file_block bl ino k)) i"
    by (rule read_array_byte [of _ bl "\<lambda>i. buf (k * 512 + i)"]) (rule that)
  let ?buf = "memcpy buf (512 * k) full 0 512"
  have "?buf i = file_data bl ino i" if "i < 512 * (k + 1)" for i
    using copy_block_prefix [of k "512 * (k + 1)" buf "file_data bl ino" full i] assms(4) full(2) that
    by (simp add: file_data_def)
  moreover have "read_into bl ino k buf = Inr ?buf"
    using full(1) assms(1,2) by (simp add: read_into_def file_block_def readable_def inode_ok_def mult.commute)
  ultimately show thesis using that by blast
qed

lemma old_read_direct_spec:
  assumes "readable bl ino" and "k \<le> 8" and "512 * k \<le> file_size ino"
  shows "\<exists>buf'. old_read_direct bl ino k buf = Inr buf' \<and> (\<forall>i < 512 * k. buf' i = file_data bl ino i)"
  using assms(2,3)
proof (induction k)
  case (Suc k)
  then obtain b where b: "old_read_direct bl ino k buf = Inr b" "\<And>i. i < 512 * k \<Longrightarrow> b i = file_data bl ino i" by auto
  obtain b' where "read_into bl ino k b = Inr b'" "\<And>i. i < 512 * (k + 1) \<Longrightarrow> b' i = file_data bl ino i"
    by (rule read_into_spec [OF assms(1) _ _ b(2)]) (use Suc.prems in \<open>auto intro: that\<close>)
  with b(1) show ?case by (simp add: old_read_direct_def)
qed (simp add: old_read_direct_def)

text \<open>A file of direct blocks: the whole blocks, then the rest of the last one.\<close>

lemma old_read_small:
  assumes "readable bl ino" and "file_size ino \<le> 4096"
  shows "\<exists>buf'. old_read_data stk bl ino (int (file_size ino)) buf = Inr buf' \<and>
    (\<forall>i < file_size ino. buf' i = file_data bl ino i)"
proof -
  let ?n = "file_size ino" and ?k = "file_size ino div 512"
  have fr: "full_blocks (int ?n) = int ?k" "rest_bytes (int ?n) = int (?n mod 512)"
    by (simp_all add: full_blocks_def rest_bytes_def zdiv_int zmod_int minus_div_mult_eq_mod)
  have k: "?k \<le> 8" "512 * ?k \<le> ?n" "?n = 512 * ?k + ?n mod 512" using assms(2) by auto
  obtain b where b: "old_read_direct bl ino ?k buf = Inr b" "\<And>i. i < 512 * ?k \<Longrightarrow> b i = file_data bl ino i"
    using old_read_direct_spec [OF assms(1) k(1,2)] by blast
  have "\<not> (8 \<le> ?k \<and> 0 < ?n mod 512)" using k(3) assms(2) by linarith
  then have tot: "\<not> int ?k + (if int (?n mod 512) > 0 then 1 else 0) > 8" using k(1) by auto
  show ?thesis
  proof (cases "?n mod 512 = 0")
    case True
    then have "?n = 512 * ?k" using k(3) by simp
    then show ?thesis using b fr tot True by (simp add: old_read_data_def Let_def)
  next
    case False
    have lt: "?k < 8" using False k assms(2) by linarith
    have "unat (file_block bl ino ?k) < 32768"
      using assms(1) nblk_less_iff [of ?k ?n] False k(3) by (simp add: readable_def data_blocks_def)
    then obtain full where full: "bl_read_block bl (file_block bl ino ?k) (stk (Full_direct_buffer 0)) = Inr full"
        "\<And>i. i < 512 \<Longrightarrow> full i = contents bl (unat (file_block bl ino ?k)) i"
      by (rule read_array_byte [of _ bl "stk (Full_direct_buffer 0)"]) (rule that)
    let ?b = "memcpy b (512 * ?k) full 0 (?n mod 512)"
    have "min 512 (?n - 512 * ?k) = ?n mod 512" by (simp add: minus_mult_div_eq_mod)
    then have pre: "?b i = file_data bl ino i" if "i < ?n" for i
      using copy_block_prefix [of ?k ?n b "file_data bl ino" full i] b(2) full(2) that k(3)
      by (simp add: file_data_def)
    moreover have "i_blocks ino ! ?k = file_block bl ino ?k" "length (i_blocks ino) = 9"
      using lt assms(1) by (simp_all add: file_block_def readable_def inode_ok_def)
    then have "old_read_data stk bl ino (int ?n) buf = Inr ?b"
      using b(1) fr tot False lt full(1) by (simp add: old_read_data_def Let_def mult.commute)
    ultimately show ?thesis by blast
  qed
qed

text \<open>
  A larger file: what the draft copies to offset 4096 from the indirect block itself is overwritten
  by the loop that follows.
\<close>

lemma old_read_large:
  assumes "readable bl ino" and "file_size ino > 4096"
  shows "\<exists>buf'. old_read_data stk bl ino (int (file_size ino)) buf = Inr buf' \<and>
    (\<forall>i < file_size ino. buf' i = file_data bl ino i)"
proof -
  let ?n = "file_size ino"
  have fr: "full_blocks (int ?n) = int (?n div 512)" "rest_bytes (int ?n) = int (?n mod 512)"
    by (simp_all add: full_blocks_def rest_bytes_def zdiv_int zmod_int minus_div_mult_eq_mod)
  have tot: "full_blocks (int ?n) + (if rest_bytes (int ?n) > 0 then 1 else 0) > 8"
    unfolding fr using assms(2) by auto
  have full: "full_blocks (int ?n) \<ge> 8" unfolding fr using assms(2) by auto
  have len: "length (i_blocks ino) = 9" using assms(1) by (simp add: readable_def inode_ok_def)
  obtain b where b: "old_read_direct bl ino 8 buf = Inr b" "\<And>i. i < 4096 \<Longrightarrow> b i = file_data bl ino i"
    using old_read_direct_spec [OF assms(1), of 8 buf] assms(2) by auto
  obtain ind0 where ind0: "bl_read_block bl (i_blocks ino ! 8) (stk (Full_direct_buffer 0)) = Inr ind0"
    using read_indirect_block [OF assms(1)] by metis
  define b1 where "b1 = (if rest_bytes (int ?n) > 0 then memcpy b 4096 ind0 0 (nat (rest_bytes (int ?n))) else b)"
  have b1: "b1 i = file_data bl ino i" if "i < 512 * 8" for i
    using b(2) that by (simp add: b1_def memcpy_def)
  obtain ind where ind: "bl_read_block bl (i_blocks ino ! 8) (stk Indirect_block) = Inr ind"
      "\<forall>j<128. get32 ind (4 * j) = get32 (contents bl (unat (i_blocks ino ! 8))) (4 * j)"
    using read_indirect_block [OF assms(1), of "stk Indirect_block"] assms(2) by metis
  have "old_read_data stk bl ino (int ?n) buf = old_read_indirect stk bl ind (int ?n - 4096) 0 b1"
    using b(1) ind0 ind(1) tot len full by (simp add: old_read_data_def Let_def b1_def)
  also have "\<dots> = read_loop stk bl ino ind (int ?n - 512 * int 8) (512 * int 8) 8 (8 - 8) b1"
    using old_read_indirect_loop [of 4096 stk bl ind _ 0] by simp
  finally show ?thesis using read_loop_spec [OF assms(1) ind(2) b1, where k = 8] by simp
qed

text \<open>
  C32: The draft's \<open>read_file\<close> and the present one agree: on a file whose pointers can be followed
  both return its size and the same bytes, and leave the same inodes.
\<close>

theorem old_read_agrees:
  assumes "il_ok il" and "in_use (il_bm il) (unat inum)"
    and "readable (il_bm il) (inode_at (il_bm il) (unat inum))"
  shows "\<exists>n b b' il1 il2. read_file stk t now il inum (Some p) (Some m) = Inr (Some (Some b), Some (int n), il1) \<and>
    old_read_file stk now il inum (Some p) (Some m) = Inr (Some (Some b'), Some (int n), il2) \<and>
    (\<forall>i<n. b' i = b i) \<and> il_bm il2 = il_bm il1"
proof -
  let ?bl = "il_bm il" and ?i = "unat inum"
  let ?was = "inode_at ?bl ?i"
  let ?now = "?was\<lparr>i_atime := ucast now\<rparr>"
  have i: "?i < 1024" and ok: "bl_ok ?bl" and idle: "rw_idle (il_rwlocks il ?i)"
    using assms(1,2) by (auto simp: in_use_def il_ok_def)
  obtain b bl1 where rd: "read_file stk t now il inum (Some p) (Some m) =
      Inr (Some (Some b), Some (int (file_size ?was)), il\<lparr>il_bm := bl1, il_rwlocks := after_read (il_rwlocks il) ?i\<rparr>)"
      "\<forall>i < file_size ?was. b i = file_data ?bl ?was i"
    using read_file_spec [OF assms, of stk t now p m] by blast
  have "inode_ok ?now" using inode_at_ok [of ?bl ?i] by (simp add: inode_ok_def)
  then obtain bl' where put: "put_inode stk ?bl inum (Some ?now) = Inr bl'"
      "\<forall>b. b \<notin> inode_blocks \<longrightarrow> contents bl' b = contents ?bl b"
    using put_inode_spec [OF ok i] by blast
  have same: "contents bl' b = contents ?bl b" if "b \<in> data_blocks" for b
    using put(2) that inode_blocks_apart(2) by blast
  note dat = file_data_cong [where bl' = bl', OF same assms(3)]
  have "\<exists>b'. old_read_data stk bl' ?now (int (file_size ?now)) (stk Malloc_buf) = Inr b' \<and>
      (\<forall>i < file_size ?now. b' i = file_data bl' ?now i)"
    using old_read_small [of bl' ?now] old_read_large [of bl' ?now] dat(3) by (cases "file_size ?now \<le> 4096") auto
  then obtain b' where b': "old_read_data stk bl' ?now (int (file_size ?was)) (stk Malloc_buf) = Inr b'"
      "\<forall>i < file_size ?was. b' i = file_data ?bl ?was i"
    using dat(2) by auto
  have get: "get_inode stk ?bl inum = Inr (Some ?was)" using get_inode_spec [OF ok] assms(2) by simp
  have sz: "sint (i_size ?was) = int (file_size ?was)"
    using assms(3) by (intro file_size_sint) (simp add: readable_def)
  have "old_read_file stk now il inum (Some p) (Some m) =
      Inr (Some (Some b'), Some (int (file_size ?was)), il\<lparr>il_bm := bl'\<rparr>)"
    using get put(1) b'(1) sz by (simp add: old_read_file_def)
  moreover obtain il1 where "il_reader_enter t il inum = Inr il1" "il_bm il1 = ?bl"
      "\<And>bl. il_reader_exit (il1\<lparr>il_bm := bl\<rparr>) inum =
        Inr (il\<lparr>il_bm := bl, il_rwlocks := after_read (il_rwlocks il) ?i\<rparr>)"
    using il_reader_section [OF idle i, of t] by metis
  then have "bl1 = bl'"
    using rd(1) get put(1) by (auto simp: read_file_def Let_def rbind_Inr_iff dest: arg_cong [where f = il_bm])
  ultimately show ?thesis using rd b'(2) by auto
qed

theorem old_read_agrees_witness:
  "\<exists>il0 il b b' il1 il2. new_inode_layer (\<lambda>_ _. 0) (0, 0, 0) False = Inr il0 \<and>
     write_file (\<lambda>_ _. 0) 1 il0 0 (\<lambda>_. 7) (int 600) = Inr il \<and>
     read_file (\<lambda>_ _. 9) 2 3 il 0 (Some None) (Some 0) = Inr (Some (Some b), Some 600, il1) \<and>
     old_read_file (\<lambda>_ _. 9) 3 il 0 (Some None) (Some 0) = Inr (Some (Some b'), Some 600, il2) \<and> b' 599 = b 599"
proof -
  obtain il0 where il0: "new_inode_layer (\<lambda>_ _. 0) (0, 0, 0) False = Inr il0" "il_ok il0" "in_use (il_bm il0) 0"
      "pointers_ok (inode_at (il_bm il0) 0)" "file_size (inode_at (il_bm il0) 0) = 0"
      "card (free_set (il_bm il0) \<union> direct_blocks (inode_at (il_bm il0) 0)) = 32645"
    by (rule fresh_layer) (rule that)
  have "\<exists>bl'. write_file (\<lambda>_ _. 0) 1 il0 0 (\<lambda>_. 7) (int 600) = Inr (il0\<lparr>il_bm := bl'\<rparr>) \<and>
      rewritten (il_bm il0) (unat (0 :: u32)) 600 (\<lambda>_. 7) bl' \<and> reowned (il_bm il0) (unat (0 :: u32)) 600 bl'"
    by (rule write_file_fresh [OF il0(2)])
      (use il0 in \<open>simp_all add: fresh_write_ok_def blocks_needed_def nblk_def\<close>)
  then obtain bl' where w: "write_file (\<lambda>_ _. 0) 1 il0 0 (\<lambda>_. 7) (int 600) = Inr (il0\<lparr>il_bm := bl'\<rparr>)"
      "rewritten (il_bm il0) 0 600 (\<lambda>_. 7) bl'" by auto
  let ?il = "il0\<lparr>il_bm := bl'\<rparr>" and ?z = "unat (0 :: u32)"
  have r: "bl_ok bl'" "readable bl' (inode_at bl' 0)" "file_size (inode_at bl' 0) = 600"
    using w(2) by (simp_all add: rewritten_def)
  have pre: "il_ok ?il" "in_use (il_bm ?il) ?z" "readable (il_bm ?il) (inode_at (il_bm ?il) ?z)"
    using il0(2,3) r rewritten_in_use [OF w(2)] by (simp_all add: il_ok_def)
  obtain n b b' il1 il2 where res: "read_file (\<lambda>_ _. 9) 2 3 ?il 0 (Some None) (Some 0) = Inr (Some (Some b), Some (int n), il1)"
      "old_read_file (\<lambda>_ _. 9) 3 ?il 0 (Some None) (Some 0) = Inr (Some (Some b'), Some (int n), il2)" "\<forall>i<n. b' i = b i"
    using old_read_agrees [OF pre, of "\<lambda>_ _. 9" 2 3 None 0] by blast
  have "int n = 600"
    using res(1) read_file_spec [OF pre, of "\<lambda>_ _. 9" 2 3 None 0] r(3) by auto
  then show ?thesis using res il0(1) w(1) by auto
qed

subsection \<open>The draft cannot allocate while the first blocks are free\<close>

definition no_digit :: "block_layer \<Rightarrow> bool" where
  "no_digit bl \<longleftrightarrow> (\<forall>p. 123 \<le> p \<longrightarrow> p < 512 \<longrightarrow> contents bl 1 p = 0)"

lemma no_digit_free:
  assumes "{984..<4096} \<subseteq> free_set bl"
  shows "no_digit bl"
  unfolding no_digit_def
proof (intro allI impI)
  fix p :: nat
  assume p: "123 \<le> p" "p < 512"
  show "contents bl 1 p = 0"
  proof (rule bit_word_eqI)
    fix k :: nat
    assume k: "k < LENGTH(8)"
    then have "8 * p + k \<in> {984..<4096}" "(8 * p + k) div 8 = p" using p by auto
    then have "8 * p + k \<in> free_set bl" using assms by blast
    then have "\<not> used (bl_d bl) (8 * p + k)" by (simp add: free_set_def)
    with p k show "bit (contents bl 1 p) k = bit 0 k"
      by (simp add: used_def BBLOCK_eq byte_offset_in_block_def bit_offset_in_byte_def bit_offset_in_block_def contents_def)
  qed
qed

text \<open>
  The scan of the draft from block \<open>b\<close> on: it takes the first block below 512 whose byte is
  \<open>'0'\<close>, and without one it leaves the array at block 512. The \<open>return 0\<close> is never reached.
\<close>

lemma old_alloc_stuck:
  assumes "b \<le> 512" and "\<And>c. b \<le> c \<Longrightarrow> c < 512 \<Longrightarrow> blocks d 1 c \<noteq> 48"
  shows "old_alloc_loop junk d b = Inl Array_bounds"
  using assms
proof (induction "512 - b" arbitrary: b)
  case 0
  then have "b = 512" by simp
  then show ?case
    by (subst old_alloc_loop.simps) (simp add: BBLOCK_eq disk_read_array_simps bit_offset_in_block_def Let_def)
next
  case (Suc n)
  then have b: "b < 512" "blocks d 1 b \<noteq> 48" by simp_all
  have "old_alloc_loop junk d (b + 1) = Inl Array_bounds" using Suc by (intro Suc(1)) auto
  with b show ?case
    by (subst old_alloc_loop.simps)
      (simp add: BBLOCK_eq disk_read_array_simps bit_offset_in_block_def memcpy_def Let_def)
qed

lemma old_alloc_block_stuck:
  assumes "bl_ok bl" and "no_digit bl"
  shows "old_alloc_block junk bl = Inl Array_bounds"
proof -
  have "old_alloc_loop junk (bl_d bl) 123 = Inl Array_bounds"
    using assms(2) by (intro old_alloc_stuck) (auto simp: no_digit_def contents_def)
  then show ?thesis using assms(1) by (simp add: old_alloc_block_def bitmap_lock_def bl_ok_def)
qed

text \<open>Freeing clears bits, so it cannot make a digit.\<close>

lemma free_block_no_digit:
  assumes "bl_ok bl" and "no_digit bl"
  shows "free_block junk bl b = Inl Array_bounds \<or>
    (\<exists>bl'. free_block junk bl b = Inr bl' \<and> bl_ok bl' \<and> no_digit bl')"
proof -
  let ?id = "word_of_nat (BBLOCK (unat b)) :: u32"
  have lock: "bitmap_lock bl = Inr (bl\<lparr>bl_bitmap_mutex := True\<rparr>)"
    using assms(1) by (simp add: bitmap_lock_def bl_ok_def)
  consider "unat ?id < 32768" | "unat ?id = 32768" | "unat ?id > 32768" by linarith
  then show ?thesis
  proof cases
    case 1
    then show ?thesis using assms lock
      by (auto simp: free_block_def disk_read_array_simps disk_write_block_simps Let_def bitmap_unlock_def
          bl_ok_def no_digit_def contents_def memcpy_def)
  qed (use assms lock in \<open>auto simp: free_block_def disk_read_array_simps disk_write_block_simps Let_def
          bitmap_unlock_def bl_ok_def no_digit_def contents_def\<close>)
qed

lemma free_direct_no_digit:
  assumes "bl_ok bl" and "no_digit bl"
  shows "free_direct_blocks stk bl ids = Inl Array_bounds \<or>
    (\<exists>bl'. free_direct_blocks stk bl ids = Inr bl' \<and> bl_ok bl' \<and> no_digit bl')"
proof (induction ids rule: rev_induct)
  case (snoc b ids)
  then show ?case
    using free_block_no_digit [of _ "stk Scratch" b] by (fastforce simp: free_direct_blocks_def)
qed (use assms in \<open>simp add: free_direct_blocks_def\<close>)

lemma old_free_indirect_no_digit:
  assumes "bl_ok bl" and "no_digit bl"
  shows "old_free_indirect stk ind x bl = Inl Array_bounds \<or>
    (\<exists>bl'. old_free_indirect stk ind x bl = Inr bl' \<and> bl_ok bl' \<and> no_digit bl')"
  using assms
proof (induction stk ind x bl rule: old_free_indirect.induct)
  case (1 stk ind x bl)
  show ?case
  proof (cases "0 \<le> x \<and> x < 128")
    case True
    with 1 free_block_no_digit [OF 1(2,3), of "stk Scratch" "get32 ind (4 * nat x)"] show ?thesis
      by (subst (1 2) old_free_indirect.simps) auto
  next
    case False
    with 1(2,3) show ?thesis by (subst (1 2) old_free_indirect.simps) auto
  qed
qed

lemma rbind_leaves:
  "r = Inl Array_bounds \<or> (\<exists>x. r = Inr x \<and> P x) \<Longrightarrow> (\<And>x. P x \<Longrightarrow> f x = Inl Array_bounds) \<Longrightarrow> rbind r f = Inl Array_bounds"
  by auto

lemma bl_read_block_leaves:
  "bl_read_block bl b junk = Inl Array_bounds \<or> (\<exists>ind. bl_read_block bl b junk = Inr ind \<and> True)"
  by (cases "unat b" "32768 :: nat" rule: linorder_cases) (simp_all add: bl_read_block_def disk_read_array_simps)

text \<open>
  While the blocks 984 to 4095 are free, as on a formatted disk, the draft's \<open>write_file\<close> of at least
  one byte leaves an array, whatever the uninitialised \<open>x\<close> is.
\<close>

theorem old_write_faults:
  assumes "bl_ok (il_bm il)" and "{984..<4096} \<subseteq> free_set (il_bm il)" and "in_use (il_bm il) (unat inum)"
    and "0 < sz" and "sz \<le> 69632"
  shows "old_write_file stk x il inum buf sz = Inl Array_bounds"
proof -
  let ?ino = "inode_at (il_bm il) (unat inum)"
  let ?w = "\<lambda>bl. \<lparr>o_bl = bl, o_ino = ?ino, o_remaining = sz, o_already = 0, o_index = 0\<rparr>"
  let ?tail = "\<lambda>w. rbind (put_inode stk (o_bl w) inum (Some (o_ino w))) (\<lambda>bl. Inr (il\<lparr>il_bm := bl\<rparr>))"
  have get: "get_inode stk (il_bm il) inum = Inr (Some ?ino)" using get_inode_spec [OF assms(1)] assms(3) by simp
  have stuck: "old_write_loop stk buf (?w bl) = Inl Array_bounds" if "bl_ok bl" "no_digit bl" for bl
    using old_alloc_block_stuck [OF that] assms(4) by (subst old_write_loop.simps) (simp add: old_write_step_def Let_def)
  have "rbind (free_direct_blocks stk (il_bm il) (take NDIRECT (i_blocks ?ino))) (\<lambda>bl.
      rbind (bl_read_block bl (i_blocks ?ino ! 8) (stk Indirect_block)) (\<lambda>ind.
      rbind (old_free_indirect stk ind x bl) (\<lambda>bl. rbind (old_write_loop stk buf (?w bl)) ?tail))) = Inl Array_bounds"
  proof (rule rbind_leaves [OF free_direct_no_digit [OF assms(1) no_digit_free [OF assms(2)]]],
      rule rbind_leaves [OF bl_read_block_leaves])
    fix bl ind
    assume "bl_ok bl \<and> no_digit bl"
    then show "rbind (old_free_indirect stk ind x bl) (\<lambda>bl. rbind (old_write_loop stk buf (?w bl)) ?tail) = Inl Array_bounds"
      by (intro rbind_leaves [OF old_free_indirect_no_digit]) (simp_all add: stuck)
  qed
  moreover have "\<not> 69632 < nat sz" using assms(5) by linarith
  ultimately show ?thesis using get assms(4) by (simp add: old_write_file_def)
qed

end
