(* ===== verification/Spec2Isabelle.thy ===== *)
theory Spec2Isabelle
  imports Fs_Overwrite Fs_Full Fifo Rpc_Endpoints Tester_Part1 Tester_Part3 Thread_Helpers Block_Races Remove_Race Old_Layer
begin

text \<open>
  A file service on a simulated disk: \<open>src/\<close> has a client (\<open>fs_client.cc\<close>) whose calls go to
  a server object (\<open>fs_server.cc\<close>), which maps 64-bit file ids to inodes and calls the inode
  layer (\<open>inode_layer.cc\<close>); the inode layer keeps files on a block layer with a free-block
  bitmap, on an array of 32768 blocks of 512 bytes. One reader-writer lock per inode
  (\<open>locks.h\<close>) guards \<open>read_file\<close> and \<open>write_file\<close>. The directory \<open>rpc/\<close> has the headers of an RPC
  library whose functions are compiled into \<open>librpc.a\<close>; the templates and inline functions in
  the headers are code of their own.

  \<^bold>\<open>State and effects.\<close> Each class is a record, each method a function from the record to
  \<open>fault + result\<close>: \<open>Inl\<close> stands for behaviour outside the language (an access outside an array,
  a null pointer, signed overflow), for a wait that one thread alone cannot end, or for the end
  of the process. 32-bit quantities are words; \<open>int\<close> counters are integers with explicit
  overflow. A buffer is a function from positions to bytes, and arrays that the code bounds
  are checked at their uses. Local arrays the code reads before it writes them, and memory
  from \<open>malloc\<close>, are an argument \<open>stk\<close>, so every theorem holds for whatever they contain.

  \<^bold>\<open>Theories\<close>, in the order of the layers:
  \<^item> \<open>Prelude\<close>: faults and sequencing, buffers, little-endian integers.
  \<^item> \<open>Disk\<close>: the layout macros of \<open>inode_layer.h\<close> and \<open>class disk\<close>; locale \<open>block_device\<close>.
  \<^item> \<open>Block_Layer\<close>: \<open>class block_layer\<close>, the bitmap as the set \<open>free_set\<close>; locale \<open>block_store\<close>.
  \<^item> \<open>Rwlock\<close>: \<open>class a4_rwlock\<close>, for one thread and as an interleaving of any number of threads;
    \<open>running_step\<close> are the steps other than new calls and spurious wake-ups.
  \<^item> \<open>Fs_Protocol\<close>: status codes, RPC numbers, types and attributes of \<open>fs_protocol.h\<close>.
  \<^item> \<open>Inode\<close>: the byte layout of \<open>struct inode\<close>, \<open>get_inode\<close>, \<open>put_inode\<close>, \<open>alloc_inode\<close>,
    \<open>free_inode\<close>, \<open>getattr\<close> and the constructor; locale \<open>inode_table\<close>.
  \<^item> \<open>File_IO\<close>: \<open>read_file\<close>, \<open>write_file\<close> and \<open>remove_file\<close>, one definition per loop or branch.
    \<open>File_Read\<close>, \<open>File_Write\<close>, \<open>File_Roundtrip\<close> and \<open>File_Remove\<close> have their lemmas.
  \<^item> \<open>Fs_Server\<close>: \<open>class fs_server\<close> and \<open>class fs_client\<close>.
  \<^item> \<open>Fs_Spec\<close>, \<open>Fs_Refine\<close>, \<open>File_Rewrite\<close>, \<open>Fs_Runs\<close>: the abstract file system (a table from inode
    numbers to a type and a byte string), the invariant \<open>fs_inv\<close>, the refinement of each call
    (\<open>File_Rewrite\<close> for writes over a file that has an indirect block) and of sequences of
    calls; locale \<open>table_service\<close>, interpreted on the client.
  \<^item> \<open>Fs_Damage\<close>, \<open>Fs_Overwrite\<close>, \<open>Fs_Full\<close>: runs of client calls outside the clean ones that damage
    files although every call returns \<open>OK\<close>.
  \<^item> \<open>Fifo\<close>: \<open>rpc/fifo.h\<close>, the bounded queue under any interleaving of threads.
  \<^item> \<open>Marshall\<close>: \<open>rpc/marshall.h\<close> and the attribute operators of \<open>fs_protocol.h\<close>.
  \<^item> \<open>Rpc\<close>: \<open>rpc/rpc.h\<close>, the typed calls and the handlers. \<open>Rpc_Endpoints\<close>: the state of the two
    endpoints, the registration of handlers, and what \<open>rpc/connection.h\<close>, \<open>rpc/pollmgr.h\<close> and
    \<open>rpc/jsl_log.h\<close> define.
  \<^item> \<open>Thread_Helpers\<close>: \<open>rpc/method_thread.h\<close>, the jobs of \<open>rpc/thr_pool.h\<close> and \<open>rpc/slock.h\<close>, with the
    heap objects that carry a call to its thread; locale \<open>deferred_call\<close>.
  \<^item> \<open>Programs\<close>: code as a sequence of accesses to a shared state, run at once or step by step.
    \<open>File_Steps\<close>: \<open>read_file\<close>, \<open>write_file\<close>, \<open>put\<close> and \<open>get\<close> as such programs, and that a run without
    interruption is what \<open>File_IO\<close> and \<open>Fs_Server\<close> define.
  \<^item> \<open>Interleave\<close>: threads over shared state, started and joined; locale \<open>serialized_threads\<close>, for
    threads of which at most one is inside a call that holds a lock, and locale
    \<open>critical_sections\<close> for code between taking and releasing a mutex.
  \<^item> \<open>Block_Races\<close>: \<open>alloc_block\<close>, \<open>free_block\<close> and \<open>write_block\<close> of several threads, access by access;
    interprets \<open>critical_sections\<close> on \<open>bitmap_mutex\<close>.
  \<^item> \<open>Inode_Races\<close>: \<open>put_inode\<close> and \<open>alloc_inode\<close> of several threads, as their accesses to the disk.
  \<^item> \<open>Remove_Race\<close>: \<open>remove_file\<close> of several threads beside \<open>alloc_inode\<close>, part by part.
  \<^item> \<open>Old_Layer\<close>: \<open>old_stuff.cc\<close>, a draft of \<open>inode_layer.cc\<close> that is not built, where it differs.
  \<^item> \<open>Test_Support\<close>, \<open>Tester_Part1\<close>, \<open>Tester_Part2\<close>, \<open>Tester_Part3\<close>: the three test programs
    \<open>part1_tester.cc\<close>, \<open>part2_tester.cc\<close> and \<open>part3_tester.cc\<close> as runs of the client. The threads of
    the last two interleave at every access of their calls to the disk and the locks; both
    theories interpret \<open>serialized_threads\<close> on them.

  \<^bold>\<open>What the lemmas show.\<close> \<open>alloc_block\<close> and \<open>free_block\<close> implement a set of free data blocks;
  \<open>get_inode\<close> and \<open>put_inode\<close> a table of 1024 inodes; \<open>read_file\<close> returns the bytes the
  pointers lead to (\<open>file_data\<close>); \<open>write_file\<close> followed by \<open>read_file\<close> is the identity for all
  sizes the code stores correctly. From these, clean sequences of client calls (\<open>clean\<close>,
  \<open>clean_all\<close>) return exactly what the abstract table returns, keep every file's blocks
  disjoint from the others', and lose no block. \<open>clean\<close> is where the code's limits are stated:
  a put must have a size that suits the old size (\<open>put_ok\<close>) and must fit on the disk; a remove
  must not meet an indirect file of a whole number of blocks. \<open>put_ok\<close> leaves out 4097 to 4607
  bytes, writes that take whole direct blocks from a file, and, for a file with an indirect
  block, growth by less than 512 bytes into a new block, and shrinking to a last block that is
  less full than the old last block. What goes wrong outside is proved for
  the sizes 4100 to 4607 (the read takes bytes of the file for the number of its ninth block, and a
  second put overwrites a block the client names), for an empty put (its stale pointers later release another file's block), for
  a full disk (the bytes are dropped) and for the removal of a file of the largest size. The type
  of a file is fixed at its creation. The locks exclude
  all other threads, readers included, never deadlock (every thread can leave by steps of threads
  already in calls, without spurious wake-ups), and overflow a counter after \<open>2\<^sup>3\<^sup>1\<close>
  reads of one inode, which is why runs are limited to \<open>2\<^sup>3\<^sup>1\<close> calls. The queue keeps order and
  capacity and loses no wake-up. Marshalled headers, vectors, maps and attributes are read
  back, and a remote call of a registered number equals the local call or fails with a code of the
  transport. A method started in a thread is called once with its arguments, and what carried them is freed. Calls
  that allocate, release and write blocks, by any number of threads, end without deadlock and
  behave as if made one after the other; no block is given out twice. Threads that store inodes of
  different blocks do not disturb each other; on one block an update can be lost, and two threads
  that create can be given one inode; a removal that another one overtakes frees the file that was
  created since, or ends the process. Of the test programs, part 1 passes its tests of creating,
  putting and getting and then reads past an unterminated buffer in \<open>test_indirect\<close>; part 2
  terminates with full score under every schedule of its threads; part 3 reports no bug. The draft reads files as the present code does, but leaves
  an array at its first allocation on a formatted disk.

  \<^bold>\<open>Loops.\<close> All loops are total functions with a termination measure: remaining bytes in
  \<open>read_loop\<close>, \<open>write_loop\<close> and \<open>free_indirect_tail\<close>, the distance to the end in the others. The only
  fuel is in \<open>write_loop_p\<close> of \<open>File_Steps\<close>: \<open>iterations\<close>, one per 512 bytes, which is enough because
  every iteration writes a block; \<open>run_write_loop\<close> shows that it never ends the loop early. The
  loops of threads are step relations with a rank that every step lowers.

  \<^bold>\<open>Assumptions about code that is not here.\<close> The functions of \<open>librpc.a\<close> are arguments: \<open>pack\<close>
  and \<open>unpack\<close> with \<open>packs\<close> and \<open>unpacks\<close>, \<open>operator<<\<close> and \<open>operator>>\<close> of single values with
  \<open>appends\<close> and \<open>consumes\<close>, \<open>okdone\<close> with \<open>checks_done\<close>, \<open>call1\<close> with \<open>delivers\<close> and \<open>routes\<close>
  (it may fail with the codes of \<open>call1_failures\<close>), \<open>reg1\<close> with \<open>registers\<close>. The clock is an
  argument, and so are \<open>rand\<close>, the results of the \<open>pthread\<close> calls and \<open>addJob\<close>.
  \<open>bitmap_mutex\<close> is never initialised; the runs start with a free mutex. Part 3 ignores the results
  of \<open>pthread_create\<close>; there the threads are taken to start.

  \<^bold>\<open>Not modelled\<close>: debug output and \<open>usleep\<close>; memory that is never freed, outside
  \<open>Thread_Helpers\<close>; interleavings inside \<open>alloc_block\<close>, \<open>free_block\<close> and the methods of the lock when
  they are called from \<open>read_file\<close> and \<open>write_file\<close> (each is one access in \<open>File_Steps\<close>; \<open>Block_Races\<close>
  has the first two step by step under \<open>bitmap_mutex\<close>, and \<open>Rwlock\<close> the others, where no thread ever
  waits on a condition variable); what the machine does after an access outside an object, which
  ends a run here; the functions that the socket, polling, RPC and thread-pool headers only
  declare, whose code is in \<open>librpc.a\<close>.
\<close>

section \<open>The whole service\<close>

text \<open>A small run used as an example.\<close>

definition demo_env :: call_env where
  "demo_env = \<lparr>e_stk = (\<lambda>_ _. 0), e_tid = 0, e_now = 0, e_times = (0, 0, 0)\<rparr>"

definition demo_calls :: "fs_call list" where
  "demo_calls = [Create 2, Put 1 [7, 8], Get 1, Getattr 1, Remove 1, Get 1]"

lemma inum_of_small [simp]: "inum_of 0 = 0" "inum_of 1 = 1"
  by (simp_all add: inum_of_def)

lemma demo_free: "a_free [0 \<mapsto> (1, [])] = 1"
  by (rule a_free_eqI) auto

lemma demo_clean: "clean_all [0 \<mapsto> (1, [])] demo_calls"
proof -
  let ?a = "[0 \<mapsto> (1, [])] :: afs"
  have "a_blocks ([0 \<mapsto> (1, []), 1 \<mapsto> (2, [7, 8])]) \<le> 32645"
    by (simp add: a_blocks_split a_blocks_empty blocks_needed_small fun_upd_idem)
  moreover have "\<exists>i<1024. ?a i = None" by (intro exI [of _ 1]) simp
  ultimately show ?thesis
    by (simp add: demo_calls_def demo_free nblk_def put_ok_def)
qed

lemma demo_steps: "fst (a_steps [0 \<mapsto> (1, [])] demo_calls) =
    [R_id 1, R_ok, R_data [7, 8], R_attr 2 2, R_ok, R_data []]"
  by (simp add: demo_calls_def demo_free)

text \<open>
  C1: From a new client, every sequence of at most \<open>2\<^sup>3\<^sup>1\<close> clean calls runs to its end without a
  fault, and its replies and its final table of files are those of the abstract file system.
\<close>

theorem fs_refines_table:
  assumes "clean_all [0 \<mapsto> (1, [])] (map snd ops)" and "length ops \<le> 2 ^ 31"
  shows "\<exists>c c'. new_fs_client stk ts False = Inr c \<and>
    exec_all c ops = Inr (fst (a_steps [0 \<mapsto> (1, [])] (map snd ops)), c') \<and>
    abs_fs (client_bl c') = snd (a_steps [0 \<mapsto> (1, [])] (map snd ops))"
proof -
  obtain c where "new_fs_client stk ts False = Inr c" "client_inv 0 c" "abs_fs (client_bl c) = [0 \<mapsto> (1, [])]"
    using new_client_inv by blast
  with cl.run_table [of 0 c ops] assms show ?thesis by (auto simp: exec_all_def)
qed

theorem fs_refines_table_witness:
  "\<exists>c c'. new_fs_client (\<lambda>_ _. 0) (0, 0, 0) False = Inr c \<and>
     exec_all c (map (Pair demo_env) demo_calls) =
       Inr ([R_id 1, R_ok, R_data [7, 8], R_attr 2 2, R_ok, R_data []], c')"
proof -
  have m: "map snd (map (Pair demo_env) demo_calls) = demo_calls" by (simp add: comp_def)
  have "length (map (Pair demo_env) demo_calls) \<le> 2 ^ 31" by (simp add: demo_calls_def)
  with fs_refines_table [of "map (Pair demo_env) demo_calls" "\<lambda>_ _. 0" "(0, 0, 0)"] show ?thesis
    unfolding m using demo_clean demo_steps by auto
qed

text \<open>
  C2: In a state that keeps the invariant, with at least two calls left before a lock counter can
  run out, bytes that a client puts into an existing file by a clean put come back unchanged from
  the next get. A put is clean when its size suits the size the file has (\<open>put_ok\<close>, which leaves
  out 4097 to 4607 bytes among others) and its blocks fit on the disk; for other puts the claim is
  false.
\<close>

theorem put_get_roundtrip:
  assumes "client_inv n c" and "n + 2 \<le> 2 ^ 31" and "clean (abs_fs (client_bl c)) (Put fid s)"
    and "in_use (client_bl c) (unat (inum_of fid))" and "length s \<le> 69632"
  shows "\<exists>c1 c2. client_put stk t c fid s = Inr (OK, c1) \<and> client_get stk' t' now c1 fid = Inr (OK, s, c2)"
proof -
  let ?e = "\<lparr>e_stk = stk, e_tid = t, e_now = now, e_times = (0, 0, 0)\<rparr>"
  let ?e' = "\<lparr>e_stk = stk', e_tid = t', e_now = now, e_times = (0, 0, 0)\<rparr>"
  obtain c1 c2 where "exec ?e c (Put fid s) = Inr (OK, R_ok, c1)" "exec ?e' c1 (Get fid) = Inr (OK, R_data s, c2)"
    using cl.get_after_put [OF assms(1,2,3), of ?e ?e'] assms(4,5) abs_fs_None by metis
  then show ?thesis by (auto simp: rbind_Inr_iff)
qed

theorem put_get_roundtrip_witness:
  "\<exists>c c1 c2. new_fs_client (\<lambda>_ _. 0) (0, 0, 0) False = Inr c \<and>
     client_put (\<lambda>_ _. 0) 3 c 0 [7, 8] = Inr (OK, c1) \<and>
     client_get (\<lambda>_ _. 0) 4 5 c1 0 = Inr (OK, [7, 8], c2)"
proof -
  obtain c where c: "new_fs_client (\<lambda>_ _. 0) (0, 0, 0) False = Inr c" "client_inv 0 c"
      "abs_fs (client_bl c) = [0 \<mapsto> (1, [])]"
    using new_client_inv by blast
  have "clean (abs_fs (client_bl c)) (Put 0 [7, 8])"
    using c(3) by (simp add: nblk_def put_ok_def a_blocks_split a_blocks_empty blocks_needed_small)
  moreover have "in_use (client_bl c) (unat (inum_of 0))"
    using c(3) abs_fs_None [of "client_bl c" 0] by simp
  ultimately show ?thesis
    using put_get_roundtrip [OF c(2), of 0 "[7, 8]" "\<lambda>_ _. 0" 3 "\<lambda>_ _. 0" 4 5] c(1) by auto
qed

text \<open>
  C3: In a state that keeps the invariant, with at least two calls left before a lock counter can
  run out, a clean put leaves every other file as it was: a get of it returns the bytes it had
  before. Puts outside \<open>clean\<close> (sizes that \<open>put_ok\<close> leaves out, no space) can damage other files.
\<close>

theorem put_isolation:
  assumes "client_inv n c" and "n + 2 \<le> 2 ^ 31" and "clean (abs_fs (client_bl c)) (Put fid s)"
    and "abs_fs (client_bl c) (unat (inum_of gid)) = Some (ty, bytes)" and "inum_of gid \<noteq> inum_of fid"
  shows "\<exists>c1 c2. client_put stk t c fid s = Inr (OK, c1) \<and>
    client_get stk' t' now c1 gid = Inr (OK, bytes, c2)"
proof -
  let ?e = "\<lparr>e_stk = stk, e_tid = t, e_now = now, e_times = (0, 0, 0)\<rparr>"
  let ?e' = "\<lparr>e_stk = stk', e_tid = t', e_now = now, e_times = (0, 0, 0)\<rparr>"
  have "unat (inum_of gid) < 1024" using abs_fs_Some(1) [OF assms(4)] by (simp add: in_use_def)
  then obtain c1 c2 where "exec ?e c (Put fid s) = Inr (OK, R_ok, c1)"
      "exec ?e' c1 (Get gid) = Inr (OK, R_data bytes, c2)"
    using cl.get_other_after_put [OF assms(1,2,3) _ assms(5), of ?e ?e'] assms(4) by auto
  then show ?thesis by (auto simp: rbind_Inr_iff)
qed

theorem put_isolation_witness:
  "\<exists>c c0 c1 c2. new_fs_client (\<lambda>_ _. 0) (0, 0, 0) False = Inr c \<and>
     client_create (\<lambda>_ _. 0) (0, 0, 0) c 2 = Inr (OK, 1, c0) \<and>
     client_put (\<lambda>_ _. 0) 3 c0 0 [7, 8] = Inr (OK, c1) \<and> client_get (\<lambda>_ _. 0) 4 5 c1 1 = Inr (OK, [], c2)"
proof -
  obtain c where c: "new_fs_client (\<lambda>_ _. 0) (0, 0, 0) False = Inr c" "client_inv 0 c"
      "abs_fs (client_bl c) = [0 \<mapsto> (1, [])]"
    using new_client_inv by blast
  have "clean (abs_fs (client_bl c)) (Create 2)"
    using c(3) by (auto intro!: exI [of _ 1])
  from exec_create [OF c(2) this, of demo_env] obtain c0 where
    c0: "exec demo_env c (Create 2) = Inr (OK, R_id 1, c0)" "client_inv 1 c0"
      "abs_fs (client_bl c0) = [0 \<mapsto> (1, []), 1 \<mapsto> (2, [])]"
    using c(3) demo_free by auto
  then obtain fid where cr: "client_create (\<lambda>_ _. 0) (0, 0, 0) c 2 = Inr (OK, fid, c0)" "unat fid = 1"
    by (auto simp: rbind_Inr_iff demo_env_def)
  then have "fid = 1" by (simp add: word_unat_eq_iff)
  moreover have "clean (abs_fs (client_bl c0)) (Put 0 [7, 8])"
    using c0(3) by (simp add: nblk_def put_ok_def a_blocks_split a_blocks_empty blocks_needed_small fun_upd_twist)
  ultimately show ?thesis
    using put_isolation [OF c0(2), of 0 "[7, 8]" 1 2 "[]" "\<lambda>_ _. 0" 3 "\<lambda>_ _. 0" 4 5] c(1) c0(3) cr(1) by auto
qed

text \<open>
  C4: Every clean call keeps the invariant: files own their blocks, no block has two owners,
  the free blocks are those without an owner, and every lock is free again.
\<close>

theorem clean_call_invariant:
  assumes "client_inv n c" and "n < 2 ^ 31" and "clean (abs_fs (client_bl c)) op"
  shows "\<exists>r c'. exec e c op = Inr (OK, r, c') \<and> client_inv (Suc n) c'"
  using exec_refines [OF assms] by blast

theorem clean_call_invariant_witness:
  "\<exists>c r c'. new_fs_client (\<lambda>_ _. 0) (0, 0, 0) False = Inr c \<and>
     exec demo_env c (Remove 0) = Inr (OK, r, c') \<and> client_inv 1 c'"
proof -
  obtain c where c: "new_fs_client (\<lambda>_ _. 0) (0, 0, 0) False = Inr c" "client_inv 0 c"
      "abs_fs (client_bl c) = [0 \<mapsto> (1, [])]"
    using new_client_inv by blast
  with clean_call_invariant [OF c(2), of "Remove 0" demo_env] show ?thesis by auto
qed

text \<open>
  C34: No block is lost: after any sequence of clean calls the free blocks and the blocks of the
  files in the table add up to the 32645 data blocks of the disk.
\<close>

theorem fs_space_accounting:
  assumes "clean_all [0 \<mapsto> (1, [])] (map snd ops)" and "length ops \<le> 2 ^ 31"
  shows "\<exists>c rs c'. new_fs_client stk ts False = Inr c \<and> exec_all c ops = Inr (rs, c') \<and>
    card (free_set (client_bl c')) + a_blocks (snd (a_steps [0 \<mapsto> (1, [])] (map snd ops))) = 32645"
proof -
  obtain c where c: "new_fs_client stk ts False = Inr c" "client_inv 0 c" "abs_fs (client_bl c) = [0 \<mapsto> (1, [])]"
    using new_client_inv by blast
  with cl.run_table [of 0 c ops] assms obtain c' where "exec_all c ops = Inr (fst (a_steps [0 \<mapsto> (1, [])] (map snd ops)), c')"
      "client_inv (length ops) c'" "abs_fs (client_bl c') = snd (a_steps [0 \<mapsto> (1, [])] (map snd ops))"
    by (auto simp: exec_all_def)
  with c(1) free_count [of "client_bl c'"] show ?thesis by (auto simp: client_inv_def)
qed

theorem fs_space_accounting_witness:
  "\<exists>c rs c'. new_fs_client (\<lambda>_ _. 0) (0, 0, 0) False = Inr c \<and>
     exec_all c (map (Pair demo_env) demo_calls) = Inr (rs, c') \<and>
     card (free_set (client_bl c')) = 32645"
proof -
  have m: "map snd (map (Pair demo_env) demo_calls) = demo_calls" by (simp add: comp_def)
  have "length (map (Pair demo_env) demo_calls) \<le> 2 ^ 31" by (simp add: demo_calls_def)
  moreover have "a_blocks (snd (a_steps [0 \<mapsto> (1, [])] demo_calls)) = 0"
    by (simp add: demo_calls_def demo_free a_blocks_split a_blocks_empty blocks_needed_small fun_upd_twist)
  ultimately show ?thesis
    using fs_space_accounting [of "map (Pair demo_env) demo_calls" "\<lambda>_ _. 0" "(0, 0, 0)"]
    unfolding m using demo_clean by auto
qed

text \<open>The type of a file in the table changes only when the file is removed.\<close>

fun removes :: "nat \<Rightarrow> fs_call \<Rightarrow> bool" where
  "removes i (Remove fid) \<longleftrightarrow> unat (inum_of fid) = i"
| "removes i _ \<longleftrightarrow> False"

lemma a_step_keeps_type:
  assumes "a i = Some (ty, s)" and "clean a op" and "\<not> removes i op"
  shows "\<exists>s'. snd (a_step a op) i = Some (ty, s')"
proof (cases op)
  case (Create k)
  with assms(2) have "a (a_free a) = None" using a_free_least by simp
  with Create assms(1) show ?thesis by auto
qed (use assms in \<open>auto split: option.splits\<close>)

lemma a_steps_keep_type:
  assumes "a i = Some (ty, s)" and "clean_all a ops" and "list_all (\<lambda>op. \<not> removes i op) ops"
  shows "\<exists>s'. snd (a_steps a ops) i = Some (ty, s')"
  using assms
proof (induction ops arbitrary: a s)
  case (Cons op ops)
  with a_step_keeps_type [of a i ty s op] show ?case by (fastforce simp: split_beta Let_def)
qed simp

lemma getattr_type:
  assumes "client_inv n c" and "abs_fs (client_bl c) (unat (inum_of fid)) = Some (ty, s)"
  shows "\<exists>a. client_getattr stk c fid = Inr (OK, a) \<and> a_type a = scast ty \<and> unat (a_size a) = length s"
  using exec_getattr [OF assms(1), of "\<lparr>e_stk = stk, e_tid = 0, e_now = 0, e_times = (0, 0, 0)\<rparr>" fid] assms(2)
  by (auto simp: rbind_Inr_iff)

text \<open>
  C27: The type of a file is fixed when it is created: however many clean calls follow, as long as
  none removes the file, \<open>getattr\<close> still reports the type that the table has had for it.
\<close>

theorem file_type_stable:
  assumes "client_inv n c" and "n + length ops \<le> 2 ^ 31" and "clean_all (abs_fs (client_bl c)) (map snd ops)"
    and "abs_fs (client_bl c) (unat (inum_of fid)) = Some (ty, s)"
    and "list_all (\<lambda>op. \<not> removes (unat (inum_of fid)) op) (map snd ops)"
  shows "\<exists>rs c' a. exec_all c ops = Inr (rs, c') \<and> client_getattr stk c' fid = Inr (OK, a) \<and> a_type a = scast ty"
proof -
  obtain c' where "exec_all c ops = Inr (fst (a_steps (abs_fs (client_bl c)) (map snd ops)), c')"
      "client_inv (n + length ops) c'" "abs_fs (client_bl c') = snd (a_steps (abs_fs (client_bl c)) (map snd ops))"
    using cl.run_table [OF assms(1-3)] by (auto simp: exec_all_def)
  with a_steps_keep_type [of "abs_fs (client_bl c)" _ ty s, OF assms(4,3,5)] getattr_type [of _ c' fid ty]
  show ?thesis by metis
qed

theorem file_type_stable_witness:
  "\<exists>c rs c' a. new_fs_client (\<lambda>_ _. 0) (0, 0, 0) False = Inr c \<and>
     exec_all c (map (Pair demo_env) demo_calls) = Inr (rs, c') \<and>
     client_getattr (\<lambda>_ _. 0) c' 0 = Inr (OK, a) \<and> a_type a = 1"
proof -
  obtain c where c: "new_fs_client (\<lambda>_ _. 0) (0, 0, 0) False = Inr c" "client_inv 0 c"
      "abs_fs (client_bl c) = [0 \<mapsto> (1, [])]"
    using new_client_inv by blast
  have m: "map snd (map (Pair demo_env) demo_calls) = demo_calls" by (simp add: comp_def)
  have "list_all (\<lambda>op. \<not> removes (unat (inum_of 0)) op) demo_calls" by (simp add: demo_calls_def)
  moreover have "0 + length (map (Pair demo_env) demo_calls) \<le> 2 ^ 31" by (simp add: demo_calls_def)
  ultimately show ?thesis
    using file_type_stable [OF c(2), of "map (Pair demo_env) demo_calls" 0 1 "[]" "\<lambda>_ _. 0"] c(1,3) demo_clean
    unfolding m by auto
qed

end
